(* ===== verification/HG_Prelude.thy ===== *)
theory HG_Prelude
  imports Main "HOL-Library.Word" "HOL-Library.List_Lexorder" "HOL-Library.Char_ord"
begin

unbundle bit_operations_syntax

text \<open>
  Shared vocabulary of the development: the machine types of the Rust sources, the error type
  of \<^verbatim>\<open>src/src/error.rs\<close>, results with errors and panics, little-endian byte strings, the decimal
  formatting and parsing of the standard library that the file names rest on, and the generic
  lemmas on lists and words that the component theories use.

  Conventions. Lengths and slice indices (\<open>usize\<close> values bounded by memory) are \<open>nat\<close>; stored
  counters, sizes and sequence numbers keep their width (\<open>64 word\<close>, \<open>32 word\<close>) and wrap as the
  release build does. \<open>Bytes\<close>, \<open>Vec<u8>\<close> and \<open>&[u8]\<close> are lists of bytes, compared
  lexicographically as Rust compares slices.
\<close>

section \<open>Machine types\<close>

type_synonym u8 = "8 word"
type_synonym u32 = "32 word"
type_synonym u64 = "64 word"
type_synonym bytes = "u8 list"
type_synonym lsn = u64

section \<open>Errors and results\<close>

text \<open>
  The variants of \<^verbatim>\<open>enum Error\<close>. A variant that wraps the error of another crate carries that
  error's message.
\<close>

datatype error =
    Io string
  | ObjectStore string
  | Postgres string
  | DuckDbExec int string
  | Parquet string
  | Arrow string
  | CorruptWal string u64 string
  | WriteStalled nat
  | Config string

text \<open>
  The outcome of a fallible call: a value, an \<open>Err\<close> of the crate, or a panic (an \<open>assert!\<close>, an
  \<open>expect\<close>, an index out of range).
\<close>

datatype 'a res = Ok 'a | Err error | Panic string

fun bind_res :: "'a res \<Rightarrow> ('a \<Rightarrow> 'b res) \<Rightarrow> 'b res" where
  "bind_res (Ok x) f = f x"
| "bind_res (Err e) f = Err e"
| "bind_res (Panic p) f = Panic p"

lemma bind_res_Ok_iff: "bind_res r f = Ok y \<longleftrightarrow> (\<exists>x. r = Ok x \<and> f x = Ok y)"
  by (cases r) auto

lemma bind_res_assoc: "bind_res (bind_res r f) g = bind_res r (\<lambda>x. bind_res (f x) g)"
  by (cases r) auto

section \<open>Collections of rewrite rules\<close>

named_theorems frame_simps \<open>layout of the byte frames of the log\<close>
named_theorems wal_simps \<open>segments and files of the log\<close>
named_theorems level_simps \<open>lookups through the levels of the store\<close>

section \<open>Little-endian byte strings\<close>

text \<open>
  \<open>to_le_bytes\<close> of an unsigned integer of \<open>n\<close> bytes and \<open>from_le_bytes\<close> back, for any width.
\<close>

fun le_bytes :: "nat \<Rightarrow> 'a::len word \<Rightarrow> bytes" where
  "le_bytes 0 w = []"
| "le_bytes (Suc n) w = ucast w # le_bytes n (drop_bit 8 w)"

fun of_le_bytes :: "bytes \<Rightarrow> 'a::len word" where
  "of_le_bytes [] = 0"
| "of_le_bytes (b # bs) = ucast b OR push_bit 8 (of_le_bytes bs)"

lemma length_le_bytes [simp]: "length (le_bytes n w) = n"
  by (induction n arbitrary: w) auto

lemma of_le_bytes_take_bit: "of_le_bytes (le_bytes n w) = take_bit (8 * n) w"
proof (induction n arbitrary: w)
  case 0
  show ?case by simp
next
  case (Suc n)
  show ?case
    by (rule bit_word_eqI)
      (auto simp: Suc bit_or_iff bit_push_bit_iff bit_take_bit_iff bit_drop_bit_eq bit_ucast_iff
        dest: bit_imp_le_length)
qed

lemma of_le_bytes_le_bytes [simp]:
  "LENGTH('a) \<le> 8 * n \<Longrightarrow> of_le_bytes (le_bytes n (w :: 'a::len word)) = w"
  by (simp add: of_le_bytes_take_bit take_bit_word_eq_self)

lemma le_bytes_inj:
  assumes "le_bytes n v = le_bytes n (w :: 'a::len word)" and "LENGTH('a) \<le> 8 * n"
  shows "v = w"
proof -
  have "of_le_bytes (le_bytes n v) = (of_le_bytes (le_bytes n w) :: 'a word)"
    using assms(1) by simp
  then show ?thesis using assms(2) by simp
qed

lemma unat_of_nat_u32: "n < 2 ^ 32 \<Longrightarrow> unat (of_nat n :: u32) = n"
  by (simp add: unat_of_nat take_bit_nat_eq_self)

lemma unat_of_nat_u64: "n < 2 ^ 64 \<Longrightarrow> unat (of_nat n :: u64) = n"
  by (simp add: unat_of_nat take_bit_nat_eq_self)

lemma unat_drop_bit_div: "unat (drop_bit n w) = unat (w :: 'a::len word) div 2 ^ n"
  by (simp only: unat_drop_bit_eq) (simp add: drop_bit_eq_div)

section \<open>Slices\<close>

text \<open>
  \<open>subslice a b xs\<close> is \<^verbatim>\<open>xs[a..b]\<close>; \<open>overwrite a b src xs\<close> is
  \<^verbatim>\<open>xs[a..b].copy_from_slice(src)\<close>. Callers keep the indices in range.
\<close>

definition subslice :: "nat \<Rightarrow> nat \<Rightarrow> 'a list \<Rightarrow> 'a list" where
  "subslice a b xs = take (b - a) (drop a xs)"

definition overwrite :: "nat \<Rightarrow> nat \<Rightarrow> 'a list \<Rightarrow> 'a list \<Rightarrow> 'a list" where
  "overwrite a b src xs = take a xs @ src @ drop b xs"

lemma length_subslice [simp]: "b \<le> length xs \<Longrightarrow> length (subslice a b xs) = b - a"
  by (simp add: subslice_def)

lemma subslice_append_skip:
  "length xs \<le> a \<Longrightarrow> subslice a b (xs @ ys) = subslice (a - length xs) (b - length xs) ys"
  by (simp add: subslice_def)

lemma subslice_append_head: "b \<le> length xs \<Longrightarrow> subslice a b (xs @ ys) = subslice a b xs"
  by (simp add: subslice_def)

lemma subslice_all [simp]: "length xs \<le> b \<Longrightarrow> subslice 0 b xs = xs"
  by (simp add: subslice_def)

lemma subslice_prefix: "b = length xs \<Longrightarrow> subslice 0 b (xs @ ys) = xs"
  by (simp add: subslice_def)

section \<open>Sorted lists\<close>

lemma sorted_map_unique:
  assumes "sorted_wrt (<) (map f xs)" and "sorted_wrt (<) (map (f :: 'a \<Rightarrow> 'b::linorder) ys)"
    and "set xs = set ys"
  shows "xs = ys"
proof -
  have "map f xs = map f ys"
    using assms by (auto simp: strict_sorted_iff intro: sorted_distinct_set_unique)
  moreover have "inj_on f (set xs \<union> set ys)"
    using assms(1,3) by (simp add: strict_sorted_iff distinct_map)
  ultimately show ?thesis by (rule map_inj_on)
qed

lemma sorted_wrt_less_snoc:
  "sorted_wrt (<) (xs @ [x]) \<longleftrightarrow> sorted_wrt (<) xs \<and> (\<forall>y \<in> set xs. y < (x :: 'a::linorder))"
  by (auto simp: sorted_wrt_append)

lemma max_cong_mid:
  assumes "max a w = max b (w :: 'a::linorder)"
  shows "max (max a c) w = max (max b c) w"
proof -
  have "max (max x c) w = max (max x w) c" for x by (simp add: ac_simps)
  then show ?thesis by (simp add: assms)
qed

lemma fold_max_init: "fold max xs (max a (b :: 'a::linorder)) = max a (fold max xs b)"
proof (induction xs arbitrary: b)
  case Nil
  show ?case by simp
next
  case (Cons x xs)
  have "fold max (x # xs) (max a b) = fold max xs (max a (max x b))"
    by (simp add: max.left_commute)
  then show ?case by (simp only: Cons.IH fold_simps)
qed

lemma fold_max_ge: "a \<le> fold max xs (a :: 'a::linorder)"
  by (metis fold_max_init max.cobounded1 max.idem)

lemma fold_max_elem: "x \<in> set xs \<Longrightarrow> x \<le> fold max xs (a :: 'a::linorder)"
  by (induction xs arbitrary: a) (auto intro: order_trans [OF _ fold_max_ge])

lemma fold_max_le_iff: "fold max xs a \<le> b \<longleftrightarrow> a \<le> b \<and> (\<forall>x \<in> set xs. x \<le> (b :: 'a::linorder))"
  by (induction xs arbitrary: a) auto

section \<open>Decimal formatting and parsing\<close>

text \<open>
  The \<open>Display\<close> form of an unsigned integer, the format \<^verbatim>\<open>{:020}\<close>, and \<open>str::parse::<u64>\<close>:
  an optional plus sign, at least one digit, nothing else, and a value below \<open>2 ^ 64\<close>.
\<close>

definition digit :: "nat \<Rightarrow> char" where
  "digit d = char_of (48 + d)"

fun show_nat :: "nat \<Rightarrow> string" where
  "show_nat n = (if n < 10 then [digit n] else show_nat (n div 10) @ [digit (n mod 10)])"

declare show_nat.simps [simp del]

definition pad20 :: "nat \<Rightarrow> string" where
  "pad20 n = (let s = show_nat n in replicate (20 - length s) (digit 0) @ s)"

definition is_digit :: "char \<Rightarrow> bool" where
  "is_digit c \<longleftrightarrow> 48 \<le> (of_char c :: nat) \<and> (of_char c :: nat) \<le> 57"

definition dec_value :: "string \<Rightarrow> nat" where
  "dec_value s = foldl (\<lambda>a c. 10 * a + (of_char c - 48)) 0 s"

definition parse_u64 :: "string \<Rightarrow> u64 option" where
  "parse_u64 s =
     (let ds = (case s of [] \<Rightarrow> [] | c # cs \<Rightarrow> if c = CHR ''+'' then cs else s)
      in if ds = [] \<or> \<not> list_all is_digit ds then None
         else if dec_value ds < 2 ^ 64 then Some (of_nat (dec_value ds)) else None)"

lemma of_char_digit: "d < 10 \<Longrightarrow> (of_char (digit d) :: nat) = 48 + d"
  by (simp add: digit_def)

lemma is_digit_digit [simp]: "d < 10 \<Longrightarrow> is_digit (digit d)"
  by (simp add: is_digit_def of_char_digit)

lemma digit_inj: "d < 10 \<Longrightarrow> e < 10 \<Longrightarrow> digit d = digit e \<longleftrightarrow> d = e"
  by (metis add_left_cancel of_char_digit)

lemma plus_not_digit [simp]: "\<not> is_digit CHR ''+''"
  by (simp add: is_digit_def)

lemma show_nat_nonempty [simp]: "show_nat n \<noteq> []"
  by (subst show_nat.simps) simp

lemma show_nat_digits: "list_all is_digit (show_nat n)"
proof (induction n rule: show_nat.induct)
  case (1 n)
  then show ?case by (cases "n < 10") (simp_all add: show_nat.simps [of n])
qed

lemma dec_value_snoc: "dec_value (s @ [c]) = 10 * dec_value s + (of_char c - 48)"
  by (simp add: dec_value_def)

lemma dec_value_show_nat: "dec_value (show_nat n) = n"
proof (induction n rule: show_nat.induct)
  case (1 n)
  show ?case
  proof (cases "n < 10")
    case True
    then show ?thesis
      by (simp add: show_nat.simps [of n] dec_value_def of_char_digit)
  next
    case False
    with 1 have "dec_value (show_nat (n div 10)) = n div 10" by simp
    with False show ?thesis
      by (simp add: show_nat.simps [of n] dec_value_snoc of_char_digit)
  qed
qed

lemma dec_value_zeros: "dec_value (replicate k (digit 0) @ s) = dec_value s"
proof -
  have "foldl (\<lambda>a c. 10 * a + (of_char c - 48)) (0::nat) (replicate k (digit 0)) = 0"
    by (induction k) (simp_all add: of_char_digit)
  then show ?thesis by (simp add: dec_value_def)
qed

lemma pad20_digits: "list_all is_digit (pad20 n)"
  using show_nat_digits [of n] by (auto simp: pad20_def Let_def list_all_iff)

lemma pad20_nonempty [simp]: "pad20 n \<noteq> []"
  by (simp add: pad20_def Let_def)

lemma dec_value_pad20 [simp]: "dec_value (pad20 n) = n"
  by (simp add: pad20_def Let_def dec_value_zeros dec_value_show_nat)

lemma pad20_inj: "pad20 m = pad20 n \<longleftrightarrow> m = n"
  by (metis dec_value_pad20)

lemma parse_u64_digits:
  assumes "list_all is_digit s" and "s \<noteq> []" and "dec_value s < 2 ^ 64"
  shows "parse_u64 s = Some (of_nat (dec_value s))"
proof -
  from assms(2) obtain c cs where s: "s = c # cs" by (cases s) auto
  with assms(1) have "c \<noteq> CHR ''+''" by auto
  with s assms show ?thesis by (simp add: parse_u64_def)
qed

lemma parse_pad20 [simp]: "parse_u64 (pad20 (unat (w :: u64))) = Some w"
proof -
  have "unat w < 2 ^ 64" using unsigned_less [of w] by simp
  then show ?thesis
    by (simp add: parse_u64_digits pad20_digits)
qed

text \<open>Evaluation of \<open>parse_u64\<close> in binary.\<close>

lemma int_dec_value:
  "list_all is_digit s \<Longrightarrow> int (dec_value s) = foldl (\<lambda>a c. 10 * a + (of_char c - 48)) 0 s"
proof (induction s rule: rev_induct)
  case (snoc c s)
  then have "48 \<le> (of_char c :: nat)" by (simp add: is_digit_def)
  then have "int (of_char c - 48) = of_char c - 48" by (simp add: of_nat_diff of_nat_of_char)
  with snoc show ?case by (simp add: dec_value_def)
qed (simp add: dec_value_def)

lemma parse_u64_code [code]:
  "parse_u64 s =
     (let ds = (case s of [] \<Rightarrow> [] | c # cs \<Rightarrow> if c = CHR ''+'' then cs else s)
      in if ds = [] \<or> \<not> list_all is_digit ds then None
         else let n = foldl (\<lambda>a c. 10 * a + (of_char c - 48)) 0 ds :: int
              in if n < 18446744073709551616 then Some (word_of_int n) else None)"
proof -
  have "(if dec_value ds < 2 ^ 64 then Some (of_nat (dec_value ds) :: u64) else None)
      = (let n = foldl (\<lambda>a c. 10 * a + (of_char c - 48)) 0 ds :: int
         in if n < 18446744073709551616 then Some (word_of_int n) else None)" if "list_all is_digit ds" for ds
    unfolding int_dec_value [OF that, symmetric] Let_def by simp
  then show ?thesis unfolding parse_u64_def Let_def by simp
qed

section \<open>Strings\<close>

text \<open>\<open>str::strip_suffix\<close>, \<open>str::strip_prefix\<close> and \<open>str::trim_start_matches\<close>.\<close>

definition strip_prefix :: "string \<Rightarrow> string \<Rightarrow> string option" where
  "strip_prefix p s = (if take (length p) s = p then Some (drop (length p) s) else None)"

definition strip_suffix :: "string \<Rightarrow> string \<Rightarrow> string option" where
  "strip_suffix p s =
     (if length p \<le> length s \<and> drop (length s - length p) s = p
      then Some (take (length s - length p) s) else None)"

lemma strip_suffix_append [simp]: "strip_suffix p (s @ p) = Some s"
  by (simp add: strip_suffix_def)

lemma strip_suffix_Some: "strip_suffix p s = Some r \<longleftrightarrow> s = r @ p"
  by (auto simp: strip_suffix_def) (metis append_take_drop_id)

lemma strip_prefix_Some: "strip_prefix p s = Some r \<longleftrightarrow> s = p @ r"
  by (auto simp: strip_prefix_def) (metis append_take_drop_id)

function trim_start_matches :: "string \<Rightarrow> string \<Rightarrow> string" where
  "trim_start_matches p s =
     (if p \<noteq> [] \<and> take (length p) s = p
      then trim_start_matches p (drop (length p) s) else s)"
  by pat_completeness auto
termination
  by (relation "measure (\<lambda>(p, s). length s)") (auto, metis diff_less length_greater_0_conv take_eq_Nil)

declare trim_start_matches.simps [simp del]

end
