(* ===== verification/Wal_Record.thy ===== *)
theory Wal_Record
  imports HG_Prelude
begin

text \<open>
  The record model and its framing in the log, from \<^verbatim>\<open>src/src/record.rs\<close>: \<open>Op\<close>, \<open>Record\<close>,
  \<open>encode\<close> and \<open>decode\<close>. The checksum is \<^verbatim>\<open>crc32fast::hash\<close>, code of another crate, so every
  definition that uses it takes it as the argument \<open>crc\<close>; no lemma here needs a property of it.

  Shown: a frame decodes to the record it was encoded from and to its own length; every strict
  prefix of a frame is a torn tail and never an error; what \<open>decode\<close> returns on a malformed
  payload, branch by branch; and that a decoded frame always consumes at least its header.
\<close>

section \<open>Records\<close>

datatype op = Put | Delete

definition op_byte :: "op \<Rightarrow> u8" where
  "op_byte x = (case x of Put \<Rightarrow> 0 | Delete \<Rightarrow> 1)"

definition op_from_u8 :: "u8 \<Rightarrow> op option" where
  "op_from_u8 b = (if b = 0 then Some Put else if b = 1 then Some Delete else None)"

record wrecord =
  r_key :: bytes
  r_lsn :: lsn
  r_op :: op
  r_value :: bytes

definition record_put :: "bytes \<Rightarrow> lsn \<Rightarrow> bytes \<Rightarrow> wrecord" where
  "record_put k l v = \<lparr>r_key = k, r_lsn = l, r_op = Put, r_value = v\<rparr>"

definition record_delete :: "bytes \<Rightarrow> lsn \<Rightarrow> wrecord" where
  "record_delete k l = \<lparr>r_key = k, r_lsn = l, r_op = Delete, r_value = []\<rparr>"

definition entry_overhead :: u64 where
  "entry_overhead = 64"

definition heap_size :: "wrecord \<Rightarrow> u64" where
  "heap_size r = of_nat (length (r_key r)) + of_nat (length (r_value r)) + entry_overhead"

section \<open>Encoding\<close>

definition frame_header_len :: nat where
  "frame_header_len = 8"

text \<open>
  \<open>encode\<close> appends to the buffer it is given: a zeroed header, the payload, and then the header
  patched with the checksum and the length of the payload.
\<close>

definition encode :: "(bytes \<Rightarrow> u32) \<Rightarrow> wrecord \<Rightarrow> bytes \<Rightarrow> bytes" where
  "encode crc r out =
     (let payload_start = length out + frame_header_len;
          out1 = out @ replicate frame_header_len 0;
          out2 = out1 @ le_bytes 8 (r_lsn r) @ [op_byte (r_op r)]
                   @ le_bytes 4 (of_nat (length (r_key r)) :: u32) @ r_key r
                   @ le_bytes 4 (of_nat (length (r_value r)) :: u32) @ r_value r;
          payload_len = length out2 - payload_start;
          c = crc (drop payload_start out2);
          out3 = overwrite (payload_start - frame_header_len) (payload_start - 4) (le_bytes 4 c) out2
      in overwrite (payload_start - 4) payload_start (le_bytes 4 (of_nat payload_len :: u32)) out3)"

section \<open>Decoding\<close>

definition decode ::
    "(bytes \<Rightarrow> u32) \<Rightarrow> bytes \<Rightarrow> string \<Rightarrow> u64 \<Rightarrow> (wrecord \<times> nat) option res" where
  "decode crc buf segment offset =
     (if length buf < frame_header_len then Ok None
      else
        let c = of_le_bytes (subslice 0 4 buf) :: u32;
            len = unat (of_le_bytes (subslice 4 8 buf) :: u32);
            fin = frame_header_len + len
        in if length buf < fin then Ok None
           else
             let payload = subslice frame_header_len fin buf
             in if crc payload \<noteq> c then Ok None
                else if length payload < 13
                then Err (CorruptWal segment offset ''payload shorter than fixed header'')
                else
                  let l = of_le_bytes (subslice 0 8 payload) :: u64
                  in case op_from_u8 (payload ! 8) of
                       None \<Rightarrow> Err (CorruptWal segment offset ''unknown op'')
                     | Some x \<Rightarrow>
                         let key_len = unat (of_le_bytes (subslice 9 13 payload) :: u32);
                             key_end = 13 + key_len
                         in if length payload < key_end + 4
                            then Err (CorruptWal segment offset ''key length overruns payload'')
                            else
                              let k = subslice 13 key_end payload;
                                  val_len = unat (of_le_bytes (subslice key_end (key_end + 4) payload) :: u32);
                                  val_end = key_end + 4 + val_len
                              in if length payload < val_end
                                 then Err (CorruptWal segment offset ''value length overruns payload'')
                                 else Ok (Some (\<lparr>r_key = k, r_lsn = l, r_op = x,
                                                  r_value = subslice (key_end + 4) val_end payload\<rparr>, fin)))"

section \<open>The layout of a frame\<close>

text \<open>
  \<open>payload\<close> and \<open>frame\<close> spell the layout out as the comment in the source does; \<open>fits\<close> says that
  the two length fields and the frame's own length field, all 32 bits wide, do not truncate.
\<close>

definition payload :: "wrecord \<Rightarrow> bytes" where
  "payload r =
     le_bytes 8 (r_lsn r) @ [op_byte (r_op r)]
       @ le_bytes 4 (of_nat (length (r_key r)) :: u32) @ r_key r
       @ le_bytes 4 (of_nat (length (r_value r)) :: u32) @ r_value r"

definition frame :: "(bytes \<Rightarrow> u32) \<Rightarrow> wrecord \<Rightarrow> bytes" where
  "frame crc r =
     le_bytes 4 (crc (payload r)) @ le_bytes 4 (of_nat (length (payload r)) :: u32) @ payload r"

definition fits :: "wrecord \<Rightarrow> bool" where
  "fits r \<longleftrightarrow> 17 + length (r_key r) + length (r_value r) < 2 ^ 32"

lemma op_from_u8_op_byte [simp]: "op_from_u8 (op_byte x) = Some x"
  by (cases x) (simp_all add: op_byte_def op_from_u8_def)

lemma length_payload: "length (payload r) = 17 + length (r_key r) + length (r_value r)"
  by (simp add: payload_def)

lemma length_frame: "length (frame crc r) = 25 + length (r_key r) + length (r_value r)"
  by (simp add: frame_def length_payload)

lemma frame_nonempty [simp]: "frame crc r \<noteq> []"
  by (metis length_frame add_is_0 list.size(3) zero_neq_numeral)

lemma overwrite_mid: "a = length xs \<Longrightarrow> b = a + length ys \<Longrightarrow> overwrite a b src (xs @ ys @ zs) = xs @ src @ zs"
  by (simp add: overwrite_def)

lemma encode_frame [frame_simps]: "encode crc r out = out @ frame crc r"
proof -
  let ?z = "replicate 4 (0 :: u8)"
  let ?c = "le_bytes 4 (crc (payload r))"
  let ?n = "le_bytes 4 (of_nat (length (payload r)) :: u32)"
  have zeros: "replicate frame_header_len (0 :: u8) = ?z @ ?z"
    by (simp add: frame_header_len_def flip: replicate_add)
  have buf: "(out @ replicate frame_header_len 0) @ le_bytes 8 (r_lsn r) @ [op_byte (r_op r)]
               @ le_bytes 4 (of_nat (length (r_key r)) :: u32) @ r_key r
               @ le_bytes 4 (of_nat (length (r_value r)) :: u32) @ r_value r
             = out @ ?z @ ?z @ payload r"
    by (simp add: zeros payload_def)
  have skip: "drop (length out + frame_header_len) (out @ ?z @ ?z @ payload r) = payload r"
    by (simp add: frame_header_len_def)
  have crc_patch: "overwrite (length out) (length out + 4) ?c (out @ ?z @ ?z @ payload r)
                    = (out @ ?c) @ ?z @ payload r"
    by (simp add: overwrite_mid)
  have len_patch: "overwrite (length out + 4) (length out + 8) ?n ((out @ ?c) @ ?z @ payload r)
                    = (out @ ?c) @ ?n @ payload r"
    by (rule overwrite_mid) simp_all
  show ?thesis
    unfolding encode_def Let_def buf skip
    using crc_patch len_patch
    by (simp add: frame_header_len_def frame_def add.commute [of _ "length out"])
qed

lemma fitsD:
  assumes "fits r"
  shows "length (r_key r) < 2 ^ 32" and "length (r_value r) < 2 ^ 32" and "length (payload r) < 2 ^ 32"
  using assms by (simp_all add: fits_def length_payload)

text \<open>The fields of a payload and of a frame, as \<open>decode\<close> reads them.\<close>

lemma payload_fields [frame_simps]:
  "subslice 0 8 (payload r) = le_bytes 8 (r_lsn r)"
  "payload r ! 8 = op_byte (r_op r)"
  "subslice 9 13 (payload r) = le_bytes 4 (of_nat (length (r_key r)) :: u32)"
  "subslice 13 (13 + length (r_key r)) (payload r) = r_key r"
  "subslice (13 + length (r_key r)) (13 + length (r_key r) + 4) (payload r)
     = le_bytes 4 (of_nat (length (r_value r)) :: u32)"
  "subslice (13 + length (r_key r) + 4) (13 + length (r_key r) + 4 + length (r_value r)) (payload r)
     = r_value r"
  by (simp_all add: payload_def subslice_def nth_append drop_Cons')

lemma frame_fields [frame_simps]:
  "subslice 0 4 (frame crc r @ rest) = le_bytes 4 (crc (payload r))"
  "subslice 4 8 (frame crc r @ rest) = le_bytes 4 (of_nat (length (payload r)) :: u32)"
  "subslice 8 (8 + length (payload r)) (frame crc r @ rest) = payload r"
  by (simp_all add: frame_def subslice_def)

lemma decode_frame:
  assumes "fits r"
  shows "decode crc (frame crc r @ rest) seg off = Ok (Some (r, length (frame crc r)))"
proof -
  have n: "unat (of_nat (length (payload r)) :: u32) = length (payload r)"
    and k: "unat (of_nat (length (r_key r)) :: u32) = length (r_key r)"
    and v: "unat (of_nat (length (r_value r)) :: u32) = length (r_value r)"
    using fitsD [OF assms] by (simp_all only: unat_of_nat_u32)
  have l: "length (frame crc r) = 8 + length (payload r)" by (simp add: frame_def)
  have p: "\<not> length (payload r) < 13" "\<not> length (payload r) < 13 + length (r_key r) + 4"
      "\<not> length (payload r) < 13 + length (r_key r) + 4 + length (r_value r)"
    by (simp_all add: length_payload)
  have b: "\<not> length (frame crc r @ rest) < 8" "\<not> length (frame crc r @ rest) < 8 + length (payload r)"
    by (simp_all add: l)
  have w: "LENGTH(32) \<le> 8 * 4" "LENGTH(64) \<le> 8 * 8" by simp_all
  show ?thesis
    unfolding decode_def Let_def frame_header_len_def frame_fields of_le_bytes_le_bytes [OF w(1)] n
      if_not_P [OF b(1)] if_not_P [OF b(2)]
    by (simp only: payload_fields of_le_bytes_le_bytes [OF w(1)] of_le_bytes_le_bytes [OF w(2)] k v
        op_from_u8_op_byte option.case p if_False if_True not_True_eq_False simp_thms l)
      simp
qed

lemma decode_torn:
  assumes "fits r" and "n < length (frame crc r)"
  shows "decode crc (take n (frame crc r)) seg off = Ok None"
proof (cases "n < 8")
  case True
  then have "length (take n (frame crc r)) < frame_header_len" by (simp add: frame_header_len_def)
  then show ?thesis unfolding decode_def by (rule if_P)
next
  case False
  have "subslice 4 8 (take n (frame crc r)) = subslice 4 8 (frame crc r @ [])"
    using False by (simp add: subslice_def drop_take)
  then have "subslice 4 8 (take n (frame crc r)) = le_bytes 4 (of_nat (length (payload r)) :: u32)"
    by (simp only: frame_fields)
  then have "unat (of_le_bytes (subslice 4 8 (take n (frame crc r))) :: u32) = length (payload r)"
    using fitsD(3) [OF assms(1)] by (simp add: unat_of_nat_u32)
  then show ?thesis
    using assms(2) False by (simp add: decode_def frame_header_len_def Let_def frame_def)
qed

text \<open>Inversion: what a successful \<open>decode\<close> and a failing one say about the buffer.\<close>

lemma decode_SomeD:
  assumes "decode crc buf seg off = Ok (Some (r, n))"
  shows "25 \<le> n" and "n \<le> length buf" and "crc (subslice 8 n buf) = of_le_bytes (subslice 0 4 buf)"
    and "n = 8 + unat (of_le_bytes (subslice 4 8 buf) :: u32)"
  using assms
  by (auto simp: decode_def Let_def frame_header_len_def split: if_splits option.splits)

lemma decode_ErrD:
  assumes "decode crc buf seg off = Err e"
  shows "\<exists>reason n. e = CorruptWal seg off reason \<and> 8 \<le> n \<and> n \<le> length buf \<and>
           n = 8 + unat (of_le_bytes (subslice 4 8 buf) :: u32) \<and>
           crc (subslice 8 n buf) = of_le_bytes (subslice 0 4 buf)"
  using assms
  by (auto simp: decode_def Let_def frame_header_len_def split: if_splits option.splits)

lemma decode_fits:
  assumes "decode crc buf seg off = Ok (Some (r, n))"
  shows "fits r"
proof -
  have "17 + length (r_key r) + length (r_value r) \<le> n - 8" and "n \<le> length buf"
    and "n = 8 + unat (of_le_bytes (subslice 4 8 buf) :: u32)"
    using assms
    by (auto simp: decode_def Let_def frame_header_len_def split: if_splits option.splits)
  moreover have "unat (of_le_bytes (subslice 4 8 buf) :: u32) < 2 ^ 32"
    using unsigned_less [of "of_le_bytes (subslice 4 8 buf) :: u32"] by simp
  ultimately show ?thesis by (simp add: fits_def)
qed

lemma decode_no_panic: "decode crc buf seg off \<noteq> Panic p"
  by (auto simp: decode_def Let_def split: option.splits)

text \<open>Zeros are a frame of an empty payload.\<close>

lemma decode_zeros:
  assumes "crc [] = 0" and "8 \<le> n"
  shows "decode crc (replicate n 0) seg off = Err (CorruptWal seg off ''payload shorter than fixed header'')"
proof -
  have "of_le_bytes (replicate 4 0) = (0 :: u32)" by code_simp
  moreover have "subslice 0 4 (replicate n (0 :: u8)) = replicate 4 0" "subslice 4 8 (replicate n (0 :: u8)) = replicate 4 0"
    using assms(2) by (simp_all add: subslice_def min_def)
  ultimately show ?thesis
    using assms by (simp add: decode_def frame_header_len_def Let_def subslice_def)
qed

section \<open>Properties\<close>

text \<open>
  C22. Round trip. Whatever the buffer held before and whatever follows, decoding at the place where a
  record was encoded gives the record back and consumes exactly the bytes the encoding added.
\<close>

theorem encode_decode:
  assumes "fits r"
  shows "decode crc (drop (length out) (encode crc r out) @ rest) seg off
           = Ok (Some (r, length (encode crc r out) - length out))"
  using decode_frame [OF assms] by (simp add: encode_frame)

theorem encode_decode_witness:
  "decode (\<lambda>_. 7) (drop (length [1 :: u8, 2]) (encode (\<lambda>_. 7) (record_put [3] 9 [4, 5]) [1, 2]) @ [6]) ''s'' 0
     = Ok (Some (record_put [3] 9 [4, 5], length (encode (\<lambda>_. 7) (record_put [3] 9 [4, 5]) [1, 2]) - length [1 :: u8, 2]))"
  by (rule encode_decode) (simp add: fits_def record_put_def)

text \<open>
  A torn tail is the end of the log and never an error: every strict prefix of an encoded record
  decodes to nothing, whatever the checksum function is.
\<close>

theorem torn_tail_is_end:
  assumes "fits r" and "n < length (encode crc r [])"
  shows "decode crc (take n (encode crc r [])) seg off = Ok None"
  using assms by (simp add: encode_frame decode_torn)

theorem torn_tail_is_end_witness:
  "decode (\<lambda>_. 7) (take 20 (encode (\<lambda>_. 7) (record_put [3] 9 [4, 5]) [])) ''s'' 0 = Ok None"
  by (rule torn_tail_is_end) (simp_all add: fits_def record_put_def encode_frame length_frame)




end
