(* ===== verification/Wal_Log.thy ===== *)
theory Wal_Log
  imports Wal_Record "HOL-Library.AList" "HOL-Library.Multiset"
begin

text \<open>
  The segmented write-ahead log, from \<^verbatim>\<open>src/src/wal.rs\<close>: \<open>Segment\<close>, \<open>Wal\<close>, \<open>open\<close>, \<open>append\<close>,
  \<open>truncate_through\<close>, \<open>rotate\<close>, \<open>replay_segment\<close> and their helpers.

  The directory is a list of named files in the order \<open>read_dir\<close> would list them. A file keeps
  its content and how much of it has been synced; \<open>crash_dir\<close> is what a power failure may leave:
  each file cut anywhere at or after its synced length.  File names are UTF-8 text, so the branch
  of \<open>list_segments\<close> for other names does not arise.

  Shown: replay returns exactly the appended records, also from a directory with torn tails;
  \<open>append\<close> keeps the log's invariant and is durable once it has returned; a crash inside \<open>append\<close>
  loses at most a suffix of the batch in flight; truncation removes no record above the
  watermark and leaves what the next \<open>open\<close> replays unchanged.
\<close>

section \<open>The directory\<close>

record wfile =
  content :: bytes
  synced :: nat

type_synonym dir = "(string \<times> wfile) list"

definition missing :: "string \<Rightarrow> 'a res" where
  "missing name = Err (Io (''not found: '' @ name))"

text \<open>\<open>OpenOptions::create(true).append(true).open\<close>\<close>

definition fs_open_append :: "string \<Rightarrow> dir \<Rightarrow> dir" where
  "fs_open_append name d =
     (case map_of d name of
        None \<Rightarrow> d @ [(name, \<lparr>content = [], synced = 0\<rparr>)]
      | Some _ \<Rightarrow> d)"

text \<open>\<open>File::open\<close> and \<open>read_to_end\<close>; \<open>fs::metadata(path)?.len()\<close>.\<close>

definition fs_read :: "string \<Rightarrow> dir \<Rightarrow> bytes res" where
  "fs_read name d = (case map_of d name of None \<Rightarrow> missing name | Some f \<Rightarrow> Ok (content f))"

definition fs_len :: "string \<Rightarrow> dir \<Rightarrow> u64 res" where
  "fs_len name d =
     (case map_of d name of None \<Rightarrow> missing name | Some f \<Rightarrow> Ok (of_nat (length (content f))))"

text \<open>\<open>set_len\<close> to a length the file has, then \<open>sync_all\<close>.\<close>

definition fs_set_len :: "string \<Rightarrow> u64 \<Rightarrow> dir \<Rightarrow> dir res" where
  "fs_set_len name n d =
     (case map_of d name of
        None \<Rightarrow> missing name
      | Some f \<Rightarrow> Ok (AList.update name \<lparr>content = take (unat n) (content f),
                                          synced = length (take (unat n) (content f))\<rparr> d))"

text \<open>\<open>write_all\<close> and \<open>flush\<close> of the buffered writer; then \<open>sync_data\<close> or \<open>sync_all\<close>.\<close>

definition fs_write :: "string \<Rightarrow> bytes \<Rightarrow> dir \<Rightarrow> dir res" where
  "fs_write name bs d =
     (case map_of d name of
        None \<Rightarrow> missing name
      | Some f \<Rightarrow> Ok (AList.update name (f\<lparr>content := content f @ bs\<rparr>) d))"

definition fs_sync :: "string \<Rightarrow> dir \<Rightarrow> dir res" where
  "fs_sync name d =
     (case map_of d name of
        None \<Rightarrow> missing name
      | Some f \<Rightarrow> Ok (AList.update name (f\<lparr>synced := length (content f)\<rparr>) d))"

definition fs_remove :: "string \<Rightarrow> dir \<Rightarrow> dir res" where
  "fs_remove name d =
     (case map_of d name of None \<Rightarrow> missing name | Some _ \<Rightarrow> Ok (AList.delete name d))"

section \<open>Segments and the log\<close>

definition segment_suffix :: string where
  "segment_suffix = ''.wal''"

record segment =
  seg_path :: string
  start_lsn :: lsn
  seg_max_lsn :: lsn

record wal =
  segment_max_bytes :: u64
  writer :: string
  active :: segment
  active_bytes :: u64
  sealed :: "segment list"
  scratch :: bytes

record replay =
  replay_records :: "wrecord list"
  replay_max_lsn :: lsn

definition segment_name :: "lsn \<Rightarrow> string" where
  "segment_name l = pad20 (unat l) @ segment_suffix"

definition segment_of_name :: "string \<Rightarrow> segment option" where
  "segment_of_name name =
     (case strip_suffix segment_suffix name of
        None \<Rightarrow> None
      | Some stem \<Rightarrow>
          (case parse_u64 stem of
             None \<Rightarrow> None
           | Some l \<Rightarrow> Some \<lparr>seg_path = name, start_lsn = l, seg_max_lsn = 0\<rparr>))"

definition list_segments :: "dir \<Rightarrow> segment list" where
  "list_segments d = sort_key start_lsn (List.map_filter (segment_of_name \<circ> fst) d)"

section \<open>Replay\<close>

text \<open>The loop of \<open>replay_segment\<close>: decode at the offset until a torn tail or the end.\<close>

function replay_loop ::
    "(bytes \<Rightarrow> u32) \<Rightarrow> bytes \<Rightarrow> string \<Rightarrow> nat \<Rightarrow> lsn \<Rightarrow> wrecord list
      \<Rightarrow> (wrecord list \<times> lsn \<times> u64) res" where
  "replay_loop crc buf name off mx recs =
     (case decode crc (drop off buf) name (of_nat off) of
        Ok (Some (r, n)) \<Rightarrow> replay_loop crc buf name (off + n) (max mx (r_lsn r)) (recs @ [r])
      | Ok None \<Rightarrow> Ok (recs, mx, of_nat off)
      | Err e \<Rightarrow> Err e
      | Panic p \<Rightarrow> Panic p)"
  by pat_completeness auto
termination
proof (relation "measure (\<lambda>(crc, buf, name, off, mx, recs). length buf - off)", goal_cases)
  case 1
  show ?case by simp
next
  case (2 crc buf name off mx recs x x2 r n)
  then show ?case using decode_SomeD(1,2) [of crc "drop off buf" name "of_nat off" r n] by simp
qed

declare replay_loop.simps [simp del]

definition replay_segment ::
    "(bytes \<Rightarrow> u32) \<Rightarrow> string \<Rightarrow> dir \<Rightarrow> (wrecord list \<times> lsn \<times> u64) res" where
  "replay_segment crc path d =
     bind_res (fs_read path d) (\<lambda>buf. replay_loop crc buf path 0 0 [])"

section \<open>Opening the log\<close>

text \<open>
  The loop of \<open>open\<close> over the listed segments: replay each, cut a torn tail off, note its highest
  sequence number, keep the records above \<open>from_lsn\<close>.
\<close>

fun open_loop ::
    "(bytes \<Rightarrow> u32) \<Rightarrow> lsn \<Rightarrow> segment list \<Rightarrow> dir \<Rightarrow> segment list \<Rightarrow> wrecord list \<Rightarrow> lsn
      \<Rightarrow> (dir \<times> segment list \<times> wrecord list \<times> lsn) res" where
  "open_loop crc from_lsn [] d segs recs mx = Ok (d, segs, recs, mx)"
| "open_loop crc from_lsn (s # ss) d segs recs mx =
     bind_res (replay_segment crc (seg_path s) d) (\<lambda>(rs, seg_max, good_bytes).
     bind_res (fs_len (seg_path s) d) (\<lambda>len.
     bind_res (if good_bytes < len then fs_set_len (seg_path s) good_bytes d else Ok d) (\<lambda>d'.
       open_loop crc from_lsn ss d' (segs @ [s\<lparr>seg_max_lsn := seg_max\<rparr>])
         (recs @ filter (\<lambda>r. from_lsn < r_lsn r) rs) (max mx seg_max))))"

definition wal_open ::
    "(bytes \<Rightarrow> u32) \<Rightarrow> u64 \<Rightarrow> lsn \<Rightarrow> dir \<Rightarrow> (dir \<times> wal \<times> replay) res" where
  "wal_open crc seg_max_bytes from_lsn d =
     bind_res (open_loop crc from_lsn (list_segments d) d [] [] 0) (\<lambda>(d1, segs, recs, mx).
     bind_res
       (if segs \<noteq> []
        then bind_res (fs_len (seg_path (last segs)) d1) (\<lambda>n. Ok (last segs, n, butlast segs))
        else Ok (\<lparr>seg_path = segment_name 0, start_lsn = 0, seg_max_lsn = 0\<rparr>, 0, []))
       (\<lambda>(act, act_bytes, sld).
          Ok (fs_open_append (seg_path act) d1,
              \<lparr>segment_max_bytes = seg_max_bytes, writer = seg_path act, active = act,
               active_bytes = act_bytes, sealed = sld, scratch = []\<rparr>,
              \<lparr>replay_records = recs, replay_max_lsn = mx\<rparr>)))"

section \<open>Appending and truncating\<close>

definition wal_rotate :: "lsn \<Rightarrow> dir \<times> wal \<Rightarrow> (dir \<times> wal) res" where
  "wal_rotate next_lsn = (\<lambda>(d, w).
     bind_res (fs_sync (writer w) d) (\<lambda>d1.
       let path = segment_name next_lsn
       in Ok (fs_open_append path d1,
              w\<lparr>active := \<lparr>seg_path = path, start_lsn = next_lsn, seg_max_lsn = 0\<rparr>,
                sealed := sealed w @ [active w],
                writer := path,
                active_bytes := 0\<rparr>)))"

text \<open>
  \<open>append\<close> up to and including \<open>writer.flush()\<close>: the bytes are in the file and not yet synced.
  A crash after this point and before the sync is the crash inside an append.
\<close>

definition append_write ::
    "(bytes \<Rightarrow> u32) \<Rightarrow> wrecord list \<Rightarrow> dir \<times> wal \<Rightarrow> (dir \<times> wal) res" where
  "append_write crc records = (\<lambda>(d, w).
     bind_res
       (if segment_max_bytes w \<le> active_bytes w then wal_rotate (r_lsn (hd records)) (d, w) else Ok (d, w))
       (\<lambda>(d1, w1).
          let buf = fold (encode crc) records []
          in bind_res (fs_write (writer w1) buf d1) (\<lambda>d2. Ok (d2, w1\<lparr>scratch := buf\<rparr>))))"

text \<open>The rest of \<open>append\<close>: \<open>sync_data\<close>, then the bookkeeping.\<close>

definition append_sync :: "wrecord list \<Rightarrow> dir \<times> wal \<Rightarrow> (dir \<times> wal) res" where
  "append_sync records = (\<lambda>(d, w).
     bind_res (fs_sync (writer w) d) (\<lambda>d1.
       Ok (d1, w\<lparr>active_bytes := active_bytes w + of_nat (length (scratch w)),
                 active := (active w)\<lparr>seg_max_lsn :=
                   max (seg_max_lsn (active w))
                     (fold max (map r_lsn (tl records)) (r_lsn (hd records)))\<rparr>\<rparr>)))"

definition wal_append :: "(bytes \<Rightarrow> u32) \<Rightarrow> wrecord list \<Rightarrow> dir \<times> wal \<Rightarrow> (dir \<times> wal) res" where
  "wal_append crc records s =
     (if records = [] then Ok s
      else bind_res (append_write crc records s) (append_sync records))"

fun remove_files :: "segment list \<Rightarrow> dir \<Rightarrow> dir res" where
  "remove_files [] d = Ok d"
| "remove_files (s # ss) d = bind_res (fs_remove (seg_path s) d) (remove_files ss)"

definition covered :: "lsn \<Rightarrow> segment \<Rightarrow> bool" where
  "covered watermark s \<longleftrightarrow> seg_max_lsn s \<le> watermark \<and> 0 < seg_max_lsn s"

definition truncate_through :: "lsn \<Rightarrow> dir \<times> wal \<Rightarrow> (dir \<times> wal) res" where
  "truncate_through watermark = (\<lambda>(d, w).
     let (cov, keep) = partition (covered watermark) (sealed w)
     in bind_res (remove_files cov d) (\<lambda>d1. Ok (d1, w\<lparr>sealed := keep\<rparr>)))"

fun sum_len :: "segment list \<Rightarrow> dir \<Rightarrow> u64 \<Rightarrow> u64 res" where
  "sum_len [] d acc = Ok acc"
| "sum_len (s # ss) d acc = bind_res (fs_len (seg_path s) d) (\<lambda>n. sum_len ss d (acc + n))"

definition size_bytes :: "dir \<times> wal \<Rightarrow> u64 res" where
  "size_bytes = (\<lambda>(d, w). sum_len (sealed w) d (active_bytes w))"

section \<open>Frames and replay\<close>

definition frames :: "(bytes \<Rightarrow> u32) \<Rightarrow> wrecord list \<Rightarrow> bytes" where
  "frames crc rs = concat (map (frame crc) rs)"

definition lsn_max :: "wrecord list \<Rightarrow> lsn" where
  "lsn_max rs = fold max (map r_lsn rs) 0"

text \<open>A torn tail: bytes that \<open>decode\<close> reads as the end of the log.\<close>

definition torn :: "(bytes \<Rightarrow> u32) \<Rightarrow> bytes \<Rightarrow> bool" where
  "torn crc t \<longleftrightarrow> (\<forall>seg off. decode crc t seg off = Ok None)"

lemma frames_simps [simp, frame_simps]:
  "frames crc [] = []"
  "frames crc (r # rs) = frame crc r @ frames crc rs"
  "frames crc (rs @ rs') = frames crc rs @ frames crc rs'"
  by (simp_all add: frames_def)

lemma frames_eq_Nil [simp]: "frames crc rs = [] \<longleftrightarrow> rs = []"
  by (cases rs) simp_all

lemma fold_encode [frame_simps]: "fold (encode crc) rs out = out @ frames crc rs"
  by (induction rs arbitrary: out) (simp_all add: frame_simps)

lemma lsn_max_simps [simp]:
  "lsn_max [] = 0"
  "lsn_max (r # rs) = max (r_lsn r) (lsn_max rs)"
  "lsn_max (rs @ rs') = max (lsn_max rs) (lsn_max rs')"
proof -
  show "lsn_max [] = 0" by (simp add: lsn_max_def)
  show cons: "lsn_max (r # rs) = max (r_lsn r) (lsn_max rs)" for r rs
    using fold_max_init [of "map r_lsn rs" "r_lsn r" 0] by (simp add: lsn_max_def max.commute)
  show "lsn_max (rs @ rs') = max (lsn_max rs) (lsn_max rs')"
    by (induction rs) (simp_all add: cons max.assoc, simp add: lsn_max_def)
qed

lemma lsn_max_ge: "r \<in> set rs \<Longrightarrow> r_lsn r \<le> lsn_max rs"
  by (simp add: lsn_max_def fold_max_elem)

lemma lsn_max_le_iff: "lsn_max rs \<le> b \<longleftrightarrow> (\<forall>r \<in> set rs. r_lsn r \<le> b)"
  by (simp add: lsn_max_def fold_max_le_iff)

lemma lsn_max_perm: "mset rs = mset rs' \<Longrightarrow> lsn_max rs = lsn_max rs'"
  by (metis lsn_max_le_iff order.antisym order.refl set_mset_mset)

lemma sort_key_strict:
  assumes "distinct (map f xs)"
  shows "sorted_wrt (<) (map f (sort_key f xs))"
proof -
  have "mset (map f (sort_key f xs)) = mset (map f xs)" by simp
  with assms have "distinct (map f (sort_key f xs))" by (metis mset_eq_imp_distinct_iff)
  then show ?thesis by (simp add: strict_sorted_iff)
qed

lemma torn_Nil [simp]: "torn crc []"
  by (simp add: torn_def decode_def frame_header_len_def)

lemma torn_take_frame: "fits r \<Longrightarrow> n < length (frame crc r) \<Longrightarrow> torn crc (take n (frame crc r))"
  by (simp add: torn_def decode_torn)

lemma take_frames_max:
  assumes "list_all fits rs"
  shows "\<exists>j t. take n (frames crc rs) = frames crc (take j rs) @ t \<and> torn crc t \<and>
           length (frames crc (take j rs)) \<le> n \<and>
           (j < length rs \<longrightarrow> n < length (frames crc (take (Suc j) rs)))"
  using assms
proof (induction rs arbitrary: n)
  case Nil
  then show ?case by simp
next
  case (Cons r rs)
  show ?case
  proof (cases "n < length (frame crc r)")
    case True
    then have "take n (frames crc (r # rs)) = frames crc (take 0 (r # rs)) @ take n (frame crc r)"
      by simp
    moreover have "torn crc (take n (frame crc r))"
      using True Cons.prems by (simp add: torn_take_frame)
    ultimately show ?thesis using True by (intro exI [of _ 0] exI [of _ "take n (frame crc r)"]) simp
  next
    case False
    let ?m = "n - length (frame crc r)"
    obtain j t where j: "take ?m (frames crc rs) = frames crc (take j rs) @ t" and t: "torn crc t"
      and lo: "length (frames crc (take j rs)) \<le> ?m"
      and hi: "j < length rs \<longrightarrow> ?m < length (frames crc (take (Suc j) rs))"
      using Cons.IH [of ?m] Cons.prems by auto
    have "take n (frames crc (r # rs)) = frame crc r @ take ?m (frames crc rs)"
      using False by simp
    also have "\<dots> = frames crc (take (Suc j) (r # rs)) @ t" using j by simp
    finally show ?thesis using t lo hi False by (intro exI [of _ "Suc j"] exI [of _ t]) auto
  qed
qed

lemma take_frames:
  assumes "list_all fits rs"
  shows "\<exists>j t. take n (frames crc rs) = frames crc (take j rs) @ t \<and> torn crc t"
  using take_frames_max [OF assms] by blast

text \<open>Replay passes over whole frames, whatever follows them.\<close>

lemma replay_loop_prefix:
  assumes "list_all fits rs"
  shows "replay_loop crc (pre @ frames crc rs @ t) name (length pre) mx recs
           = replay_loop crc (pre @ frames crc rs @ t) name (length pre + length (frames crc rs)) (max mx (lsn_max rs)) (recs @ rs)"
  using assms
proof (induction rs arbitrary: pre mx recs)
  case (Cons r rs)
  let ?pre = "pre @ frame crc r"
  have "decode crc (drop (length pre) (pre @ frames crc (r # rs) @ t)) name (of_nat (length pre))
          = Ok (Some (r, length (frame crc r)))"
    using Cons.prems by (simp add: decode_frame)
  then have "replay_loop crc (pre @ frames crc (r # rs) @ t) name (length pre) mx recs
      = replay_loop crc (?pre @ frames crc rs @ t) name (length ?pre) (max mx (r_lsn r)) (recs @ [r])"
    by (subst replay_loop.simps) simp
  also have "\<dots> = replay_loop crc (?pre @ frames crc rs @ t) name (length ?pre + length (frames crc rs))
      (max (max mx (r_lsn r)) (lsn_max rs)) ((recs @ [r]) @ rs)"
    using Cons.prems by (intro Cons.IH) simp
  finally show ?case by (simp add: max.assoc add.assoc)
qed simp

lemma replay_loop_frames:
  assumes "list_all fits rs" and "torn crc t"
  shows "replay_loop crc (pre @ frames crc rs @ t) name (length pre) mx recs
           = Ok (recs @ rs, max mx (lsn_max rs), of_nat (length pre + length (frames crc rs)))"
  unfolding replay_loop_prefix [OF assms(1)] using assms(2)
  by (subst replay_loop.simps) (simp add: torn_def)

lemma replay_segment_frames:
  assumes "map_of d path = Some f" and "content f = frames crc rs @ t"
    and "list_all fits rs" and "torn crc t"
  shows "replay_segment crc path d = Ok (rs, lsn_max rs, of_nat (length (frames crc rs)))"
  using replay_loop_frames [OF assms(3,4), of "[]" path 0 "[]"] assms(1,2)
  by (simp add: replay_segment_def fs_read_def)

section \<open>Names\<close>

lemma segment_of_name_segment_name [simp]:
  "segment_of_name (segment_name l) = Some \<lparr>seg_path = segment_name l, start_lsn = l, seg_max_lsn = 0\<rparr>"
  by (simp add: segment_of_name_def segment_name_def)

lemma segment_name_inj [simp]: "segment_name l = segment_name l' \<longleftrightarrow> l = l'"
  by (auto simp: segment_name_def pad20_inj word_unat_eq_iff)

lemma segment_of_name_path: "segment_of_name n = Some s \<Longrightarrow> seg_path s = n \<and> seg_max_lsn s = 0"
  by (auto simp: segment_of_name_def split: option.splits)

definition wal_names :: "dir \<Rightarrow> string set" where
  "wal_names d = {n \<in> fst ` set d. segment_of_name n \<noteq> None}"

lemma list_segments_eq:
  assumes "wal_names d = set (map seg_path segs)"
    and "\<forall>s \<in> set segs. seg_path s = segment_name (start_lsn s) \<and> seg_max_lsn s = 0"
    and "sorted_wrt (<) (map start_lsn segs)" and "distinct (map fst d)"
  shows "list_segments d = segs"
proof -
  let ?l = "List.map_filter (segment_of_name \<circ> fst) d"
  have named: "segment_of_name (seg_path s) = Some s" if "s \<in> set segs" for s
    using that assms(2) by (metis segment_of_name_segment_name segment.surjective old.unit.exhaust segment.cases)
  have set_eq: "set ?l = set segs"
  proof (intro equalityI subsetI)
    fix s
    assume "s \<in> set ?l"
    then obtain n where n: "n \<in> fst ` set d" "segment_of_name n = Some s"
      by (auto simp: List.map_filter_def comp_def split: option.splits) (metis fst_conv image_eqI)
    with assms(1) have "n \<in> seg_path ` set segs" by (auto simp: wal_names_def)
    with n(2) named show "s \<in> set segs" by auto
  next
    fix s
    assume s: "s \<in> set segs"
    with assms(1) have "seg_path s \<in> fst ` set d" by (auto simp: wal_names_def)
    with named [OF s] show "s \<in> set ?l" by (force simp: List.map_filter_def)
  qed
  have "distinct ?l"
  proof -
    have "map seg_path ?l = filter (\<lambda>n. segment_of_name n \<noteq> None) (map fst d)"
      by (induction d) (auto simp: List.map_filter_def dest: segment_of_name_path)
    then have "distinct (map seg_path ?l)" using assms(4) by (metis distinct_filter)
    then show ?thesis by (simp add: distinct_map)
  qed
  moreover have "inj_on start_lsn (set ?l)"
    using assms(3) set_eq by (simp add: strict_sorted_iff distinct_map)
  ultimately have "distinct (map start_lsn ?l)" by (simp add: distinct_map)
  then have "sorted_wrt (<) (map start_lsn (list_segments d))" unfolding list_segments_def by (rule sort_key_strict)
  then show ?thesis
    using assms(3) set_eq by (intro sorted_map_unique [of start_lsn]) (simp_all add: list_segments_def)
qed

section \<open>What the log holds\<close>

text \<open>
  The ghost state of an open log pairs each segment, sealed ones first, with the records in its
  file; \<open>log_of\<close> is the log as one list.
\<close>

type_synonym log = "(segment \<times> wrecord list) list"

definition log_of :: "log \<Rightarrow> wrecord list" where
  "log_of ps = concat (map snd ps)"

definition stored :: "(bytes \<Rightarrow> u32) \<Rightarrow> dir \<Rightarrow> string \<Rightarrow> wrecord list \<Rightarrow> bool" where
  "stored crc d path rs \<longleftrightarrow>
     map_of d path = Some \<lparr>content = frames crc rs, synced = length (frames crc rs)\<rparr>"

definition seg_ok :: "(bytes \<Rightarrow> u32) \<Rightarrow> dir \<Rightarrow> segment \<times> wrecord list \<Rightarrow> bool" where
  "seg_ok crc d = (\<lambda>(s, rs).
     seg_path s = segment_name (start_lsn s) \<and> seg_max_lsn s = lsn_max rs \<and>
     stored crc d (seg_path s) rs \<and> list_all fits rs \<and> length (frames crc rs) < 2 ^ 64)"

definition wal_inv :: "(bytes \<Rightarrow> u32) \<Rightarrow> dir \<Rightarrow> wal \<Rightarrow> log \<Rightarrow> bool" where
  "wal_inv crc d w ps \<longleftrightarrow>
     map fst ps = sealed w @ [active w] \<and>
     (\<forall>p \<in> set ps. seg_ok crc d p) \<and>
     distinct (map (start_lsn \<circ> fst) ps) \<and>
     wal_names d = set (map (seg_path \<circ> fst) ps) \<and> distinct (map fst d) \<and>
     writer w = seg_path (active w) \<and>
     active_bytes w = of_nat (length (frames crc (snd (last ps)))) \<and>
     0 < segment_max_bytes w"

text \<open>
  A directory found at start: canonical segment names, and in each file whole frames followed by
  a torn tail, everything on disk.
\<close>

definition file_ok :: "(bytes \<Rightarrow> u32) \<Rightarrow> dir \<Rightarrow> lsn \<times> wrecord list \<times> bytes \<Rightarrow> bool" where
  "file_ok crc d = (\<lambda>(l, rs, t).
     map_of d (segment_name l)
       = Some \<lparr>content = frames crc rs @ t, synced = length (frames crc rs @ t)\<rparr> \<and>
     torn crc t \<and> list_all fits rs \<and> length (frames crc rs @ t) < 2 ^ 64)"

definition disk_inv ::
    "(bytes \<Rightarrow> u32) \<Rightarrow> dir \<Rightarrow> (lsn \<times> wrecord list \<times> bytes) list \<Rightarrow> bool" where
  "disk_inv crc d ls \<longleftrightarrow>
     distinct (map fst d) \<and> sorted_wrt (<) (map fst ls) \<and>
     wal_names d = set (map (segment_name \<circ> fst) ls) \<and> (\<forall>x \<in> set ls. file_ok crc d x)"

definition disk_log :: "(lsn \<times> wrecord list \<times> bytes) list \<Rightarrow> wrecord list" where
  "disk_log ls = concat (map (fst \<circ> snd) ls)"

text \<open>A crash: each file is cut somewhere at or after its synced length.\<close>

definition crash_dir :: "(string \<Rightarrow> nat) \<Rightarrow> dir \<Rightarrow> dir" where
  "crash_dir keep_to d = map (\<lambda>(n, f).
     let c = take (max (synced f) (keep_to n)) (content f)
     in (n, \<lparr>content = c, synced = length c\<rparr>)) d"

lemma log_of_simps [simp, wal_simps]:
  "log_of [] = []"
  "log_of (p # ps) = snd p @ log_of ps"
  "log_of (ps @ qs) = log_of ps @ log_of qs"
  by (simp_all add: log_of_def)

lemma disk_log_simps [simp, wal_simps]:
  "disk_log [] = []"
  "disk_log ((l, rs, t) # ls) = rs @ disk_log ls"
  by (simp_all add: disk_log_def)

lemma wal_names_keys: "map fst d = map fst d' \<Longrightarrow> wal_names d = wal_names d'"
proof -
  assume "map fst d = map fst d'"
  then have "set (map fst d) = set (map fst d')" by simp
  then show ?thesis by (simp add: wal_names_def)
qed

lemma map_of_crash_dir [wal_simps]:
  "map_of (crash_dir keep_to d) n =
     map_option (\<lambda>f. let c = take (max (synced f) (keep_to n)) (content f)
                     in \<lparr>content = c, synced = length c\<rparr>) (map_of d n)"
  by (induction d) (auto simp: crash_dir_def Let_def)

lemma keys_crash_dir [simp, wal_simps]: "map fst (crash_dir keep_to d) = map fst d"
  by (induction d) (auto simp: crash_dir_def Let_def)

lemma wal_names_crash_dir [simp]: "wal_names (crash_dir keep_to d) = wal_names d"
  by (rule wal_names_keys) simp

lemma keys_update_present: "map_of d n = Some f \<Longrightarrow> map fst (AList.update n f' d) = map fst d"
  by (induction d) (auto split: if_splits)

lemma map_of_update [simp, wal_simps]: "map_of (AList.update n f d) = (map_of d)(n \<mapsto> f)"
  by (simp add: update_conv')

section \<open>Opening\<close>

definition seg_start :: "lsn \<times> wrecord list \<times> bytes \<Rightarrow> segment" where
  "seg_start = (\<lambda>(l, rs, t). \<lparr>seg_path = segment_name l, start_lsn = l, seg_max_lsn = 0\<rparr>)"

definition seg_done :: "lsn \<times> wrecord list \<times> bytes \<Rightarrow> segment \<times> wrecord list" where
  "seg_done = (\<lambda>(l, rs, t).
     (\<lparr>seg_path = segment_name l, start_lsn = l, seg_max_lsn = lsn_max rs\<rparr>, rs))"

lemma list_segments_disk:
  assumes "disk_inv crc d ls"
  shows "list_segments d = map seg_start ls"
proof (rule list_segments_eq)
  show "wal_names d = set (map seg_path (map seg_start ls))"
    using assms by (auto simp: disk_inv_def seg_start_def comp_def split_def)
  show "\<forall>s \<in> set (map seg_start ls). seg_path s = segment_name (start_lsn s) \<and> seg_max_lsn s = 0"
    by (auto simp: seg_start_def)
  show "sorted_wrt (<) (map start_lsn (map seg_start ls))"
    using assms by (simp add: disk_inv_def seg_start_def comp_def split_def)
  show "distinct (map fst d)" using assms by (simp add: disk_inv_def)
qed

text \<open>One turn of the loop of \<open>open\<close>: the file is left with its whole frames only.\<close>

lemma open_step:
  assumes "file_ok crc d (l, rs, t)"
  shows "\<exists>d'. (if of_nat (length (frames crc rs)) < (of_nat (length (frames crc rs @ t)) :: u64)
               then fs_set_len (segment_name l) (of_nat (length (frames crc rs))) d else Ok d) = Ok d' \<and>
           stored crc d' (segment_name l) rs \<and> map fst d' = map fst d \<and>
           (\<forall>n. n \<noteq> segment_name l \<longrightarrow> map_of d' n = map_of d n)"
proof -
  from assms have f: "map_of d (segment_name l)
      = Some \<lparr>content = frames crc rs @ t, synced = length (frames crc rs @ t)\<rparr>"
    and b: "length (frames crc rs @ t) < 2 ^ 64" by (auto simp: file_ok_def)
  have u: "unat (of_nat (length (frames crc rs)) :: u64) = length (frames crc rs)"
    "unat (of_nat (length (frames crc rs @ t)) :: u64) = length (frames crc rs @ t)"
    using b by (simp_all only: unat_of_nat_u64 length_append)
  show ?thesis
  proof (cases "t = []")
    case True
    with f show ?thesis by (simp add: stored_def)
  next
    case False
    then have "of_nat (length (frames crc rs)) < (of_nat (length (frames crc rs @ t)) :: u64)"
      using u by (simp add: word_less_nat_alt del: of_nat_add)
    then show ?thesis
      using f u by (simp add: fs_set_len_def stored_def keys_update_present)
  qed
qed

lemma file_ok_cong: "map_of d' (segment_name (fst y)) = map_of d (segment_name (fst y)) \<Longrightarrow> file_ok crc d' y = file_ok crc d y"
  by (cases y) (simp add: file_ok_def)

text \<open>One turn of the loop: the segment is replayed, its torn tail cut off, and no other file is touched.\<close>

lemma open_loop_turn:
  assumes "file_ok crc d (l, rs, t)"
  shows "\<exists>d1. (\<forall>ls segs recs mx. open_loop crc from_lsn (seg_start (l, rs, t) # ls) d segs recs mx
            = open_loop crc from_lsn ls d1 (segs @ [fst (seg_done (l, rs, t))]) (recs @ filter (\<lambda>r. from_lsn < r_lsn r) rs) (max mx (lsn_max rs))) \<and>
          stored crc d1 (segment_name l) rs \<and> map fst d1 = map fst d \<and> (\<forall>n. n \<noteq> segment_name l \<longrightarrow> map_of d1 n = map_of d n)"
proof -
  from open_step [OF assms] obtain d1 where d1:
    "(if of_nat (length (frames crc rs)) < (of_nat (length (frames crc rs @ t)) :: u64)
      then fs_set_len (segment_name l) (of_nat (length (frames crc rs))) d else Ok d) = Ok d1"
    "stored crc d1 (segment_name l) rs" "map fst d1 = map fst d"
    "\<And>n. n \<noteq> segment_name l \<Longrightarrow> map_of d1 n = map_of d n" by blast
  have "replay_segment crc (segment_name l) d = Ok (rs, lsn_max rs, of_nat (length (frames crc rs)))"
    using assms by (intro replay_segment_frames) (auto simp: file_ok_def)
  moreover have "fs_len (segment_name l) d = Ok (of_nat (length (frames crc rs @ t)))"
    using assms by (simp add: file_ok_def fs_len_def)
  ultimately have "open_loop crc from_lsn (seg_start (l, rs, t) # ls) d segs recs mx
      = open_loop crc from_lsn ls d1 (segs @ [fst (seg_done (l, rs, t))]) (recs @ filter (\<lambda>r. from_lsn < r_lsn r) rs) (max mx (lsn_max rs))"
    for ls segs recs mx using d1(1) by (simp add: seg_start_def seg_done_def split: if_splits)
  with d1(2-4) show ?thesis by blast
qed

lemma open_loop_disk:
  assumes "\<forall>x \<in> set ls. file_ok crc d x" and "distinct (map fst ls)"
  shows "\<exists>d'. open_loop crc from_lsn (map seg_start ls) d segs recs mx
            = Ok (d', segs @ map (fst \<circ> seg_done) ls,
                  recs @ filter (\<lambda>r. from_lsn < r_lsn r) (disk_log ls), max mx (lsn_max (disk_log ls))) \<and>
          (\<forall>(l, rs, t) \<in> set ls. stored crc d' (segment_name l) rs) \<and> map fst d' = map fst d \<and>
          (\<forall>n. n \<notin> segment_name ` fst ` set ls \<longrightarrow> map_of d' n = map_of d n)"
  using assms
proof (induction ls arbitrary: d segs recs mx)
  case Nil
  then show ?case by simp
next
  case (Cons x ls)
  obtain l rs t where x: "x = (l, rs, t)" by (cases x)
  from Cons.prems(1) have "file_ok crc d (l, rs, t)" by (simp add: x)
  from open_loop_turn [OF this, of from_lsn] obtain d1 where d1:
    "\<And>ls segs recs mx. open_loop crc from_lsn (seg_start x # ls) d segs recs mx
       = open_loop crc from_lsn ls d1 (segs @ [fst (seg_done x)]) (recs @ filter (\<lambda>r. from_lsn < r_lsn r) rs) (max mx (lsn_max rs))"
    "stored crc d1 (segment_name l) rs" "map fst d1 = map fst d" "\<And>n. n \<noteq> segment_name l \<Longrightarrow> map_of d1 n = map_of d n"
    unfolding x by blast
  have "file_ok crc d1 y" if y: "y \<in> set ls" for y
  proof -
    have "map_of d1 (segment_name (fst y)) = map_of d (segment_name (fst y))" using Cons.prems(2) y by (intro d1(4)) (auto simp: x)
    then show ?thesis using file_ok_cong [of d1 y d crc] Cons.prems(1) y by simp
  qed
  then have "\<forall>y \<in> set ls. file_ok crc d1 y" by blast
  from Cons.IH [OF this, of "segs @ [fst (seg_done x)]" "recs @ filter (\<lambda>r. from_lsn < r_lsn r) rs" "max mx (lsn_max rs)"] Cons.prems(2)
  obtain d' where d': "open_loop crc from_lsn (map seg_start ls) d1 (segs @ [fst (seg_done x)])
        (recs @ filter (\<lambda>r. from_lsn < r_lsn r) rs) (max mx (lsn_max rs))
      = Ok (d', (segs @ [fst (seg_done x)]) @ map (fst \<circ> seg_done) ls,
          (recs @ filter (\<lambda>r. from_lsn < r_lsn r) rs) @ filter (\<lambda>r. from_lsn < r_lsn r) (disk_log ls),
          max (max mx (lsn_max rs)) (lsn_max (disk_log ls)))"
    "\<forall>(l, rs, t) \<in> set ls. stored crc d' (segment_name l) rs" "map fst d' = map fst d1"
    "\<forall>n. n \<notin> segment_name ` fst ` set ls \<longrightarrow> map_of d' n = map_of d1 n" by auto
  have "map_of d' (segment_name l) = map_of d1 (segment_name l)" using d'(4) Cons.prems(2) by (force simp: x)
  then have "stored crc d' (segment_name l) rs" using d1(2) by (simp add: stored_def)
  moreover have "\<forall>n. n \<notin> segment_name ` fst ` set (x # ls) \<longrightarrow> map_of d' n = map_of d n"
    using d'(4) d1(4) by (auto simp: x)
  ultimately show ?case using d1(1,3) d'(1-3) by (auto simp: x max.assoc)
qed

text \<open>
  Opening a directory as a crash or a clean shutdown leaves it: the replay is the log above
  \<open>from_lsn\<close>, in order, and the log is ready for appending.
\<close>

definition reopened :: "(lsn \<times> wrecord list \<times> bytes) list \<Rightarrow> log" where
  "reopened ls =
     (if ls = [] then [(\<lparr>seg_path = segment_name 0, start_lsn = 0, seg_max_lsn = 0\<rparr>, [])]
      else map seg_done ls)"

lemma log_of_reopened [simp]: "log_of (reopened ls) = disk_log ls"
  by (auto simp: reopened_def log_of_def disk_log_def seg_done_def comp_def split_def
      intro!: arg_cong [where f = concat])

lemma wal_open_empty:
  assumes "disk_inv crc d []" and "0 < m"
  shows "\<exists>d' w. wal_open crc m from_lsn d = Ok (d', w, \<lparr>replay_records = [], replay_max_lsn = 0\<rparr>) \<and>
         wal_inv crc d' w (reopened []) \<and> segment_max_bytes w = m"
proof -
  have names: "wal_names d = {}" and keys: "distinct (map fst d)" using assms(1) by (auto simp: disk_inv_def)
  have fresh: "map_of d (segment_name 0) = None" using names by (force simp: wal_names_def map_of_eq_None_iff)
  have "wal_names (d @ [(segment_name 0, f)]) = {segment_name 0}" for f using names by (auto simp: wal_names_def)
  moreover have "distinct (map fst (d @ [(segment_name 0, f)]))" for f
    using keys fresh by (simp add: map_of_eq_None_iff)
  ultimately show ?thesis using fresh assms(2)
    by (simp add: wal_open_def list_segments_disk [OF assms(1)] fs_open_append_def wal_inv_def reopened_def seg_ok_def stored_def map_add_def)
qed

lemma wal_open_disk:
  assumes "disk_inv crc d ls" and "0 < m"
  shows "\<exists>d' w. wal_open crc m from_lsn d
           = Ok (d', w, \<lparr>replay_records = filter (\<lambda>r. from_lsn < r_lsn r) (disk_log ls),
                         replay_max_lsn = lsn_max (disk_log ls)\<rparr>) \<and>
         wal_inv crc d' w (reopened ls) \<and> segment_max_bytes w = m"
proof -
  from assms(1) have files: "\<forall>x \<in> set ls. file_ok crc d x" and keys: "distinct (map fst d)"
    and srt: "sorted_wrt (<) (map fst ls)" and names: "wal_names d = set (map (segment_name \<circ> fst) ls)"
    by (auto simp: disk_inv_def)
  from srt have "distinct (map fst ls)" by (simp add: strict_sorted_iff)
  from open_loop_disk [OF files this, of from_lsn "[]" "[]" 0] obtain d1 where d1:
    "open_loop crc from_lsn (map seg_start ls) d [] [] 0
       = Ok (d1, map (fst \<circ> seg_done) ls, filter (\<lambda>r. from_lsn < r_lsn r) (disk_log ls),
             lsn_max (disk_log ls))"
    "\<forall>(l, rs, t) \<in> set ls. stored crc d1 (segment_name l) rs" "map fst d1 = map fst d"
    "\<forall>n. n \<notin> segment_name ` fst ` set ls \<longrightarrow> map_of d1 n = map_of d n" by auto
  have names1: "wal_names d1 = set (map (segment_name \<circ> fst) ls)"
    using names wal_names_keys [OF d1(3)] by simp
  show ?thesis
  proof (cases ls rule: rev_cases)
    case Nil
    with wal_open_empty [of crc d m from_lsn] assms show ?thesis by simp
  next
    case (snoc ls' x)
    obtain l rs t where x: "x = (l, rs, t)" by (cases x)
    have st: "stored crc d1 (segment_name l) rs" using d1(2) by (auto simp: snoc x)
    have ok: "\<forall>p \<in> set (map seg_done ls). seg_ok crc d1 p"
      using files d1(2) by (fastforce simp: seg_ok_def seg_done_def file_ok_def)
    have "wal_inv crc d1 \<lparr>segment_max_bytes = m, writer = segment_name l, active = fst (seg_done x),
        active_bytes = of_nat (length (frames crc rs)), sealed = map (fst \<circ> seg_done) ls', scratch = []\<rparr>
        (reopened ls)"
      using ok names1 keys d1(3) \<open>distinct (map fst ls)\<close> assms(2)
      by (simp add: wal_inv_def reopened_def snoc x seg_done_def comp_def split_def)
    then show ?thesis
      using st d1(1)
      by (simp add: wal_open_def list_segments_disk [OF assms(1)] snoc x fs_len_def
          fs_open_append_def stored_def seg_done_def)
  qed
qed

section \<open>Appending\<close>

lemma seg_ok_cong: "map_of d' (seg_path (fst p)) = map_of d (seg_path (fst p)) \<Longrightarrow> seg_ok crc d' p = seg_ok crc d p"
  by (cases p) (simp add: seg_ok_def stored_def)

lemma seg_ok_stored:
  "seg_ok crc d (s, rs) \<Longrightarrow>
     map_of d (seg_path s) = Some \<lparr>content = frames crc rs, synced = length (frames crc rs)\<rparr>"
  by (auto simp: seg_ok_def stored_def)

lemma wal_inv_active:
  assumes "wal_inv crc d w ps"
  obtains qs rs where "ps = qs @ [(active w, rs)]" and "sealed w = map fst qs"
    and "seg_ok crc d (active w, rs)" and "active_bytes w = of_nat (length (frames crc rs))"
proof -
  from assms have f: "map fst ps = sealed w @ [active w]" by (simp add: wal_inv_def)
  then obtain qs p where ps: "ps = qs @ [p]" by (cases ps rule: rev_cases) auto
  with f have "p = (active w, snd p)" "sealed w = map fst qs" by (auto simp: prod_eq_iff)
  moreover from assms have "seg_ok crc d p" "active_bytes w = of_nat (length (frames crc (snd p)))"
    by (auto simp: wal_inv_def ps)
  ultimately show thesis using that [of qs "snd p"] ps by simp
qed

text \<open>The first sequence numbers that name the segments, in the order the segments were created.\<close>

definition wal_starts :: "wal \<Rightarrow> lsn list" where
  "wal_starts w = map start_lsn (sealed w @ [active w])"

lemma wal_inv_starts: "wal_inv crc d w ps \<Longrightarrow> map (start_lsn \<circ> fst) ps = wal_starts w"
  unfolding wal_inv_def wal_starts_def by (metis map_map)

lemma wal_inv_paths:
  assumes "wal_inv crc d w ps" and "p \<in> set ps"
  shows "seg_path (fst p) = segment_name (start_lsn (fst p))"
  using assms by (cases p) (auto simp: wal_inv_def seg_ok_def)

lemma wal_inv_distinct_paths:
  assumes "wal_inv crc d w ps"
  shows "distinct (map (seg_path \<circ> fst) ps)"
proof -
  have "map (seg_path \<circ> fst) ps = map segment_name (map (start_lsn \<circ> fst) ps)"
    using wal_inv_paths [OF assms] by simp
  moreover have "distinct (map (start_lsn \<circ> fst) ps)"
    using assms by (simp add: wal_inv_def)
  ultimately show ?thesis by (simp add: distinct_map inj_on_def)
qed

text \<open>
  What a batch must satisfy to be appended: no record is too large for its frame, and when the batch
  starts a new segment, no segment has the name of its first sequence number. The numbers need not be
  in the order of the appends: concurrent writers take them before they wait for the log.
\<close>

definition batch_ok :: "(bytes \<Rightarrow> u32) \<Rightarrow> wal \<Rightarrow> log \<Rightarrow> wrecord list \<Rightarrow> bool" where
  "batch_ok crc w ps rs \<longleftrightarrow>
     rs \<noteq> [] \<and> list_all fits rs \<and> length (frames crc (log_of ps @ rs)) < 2 ^ 64 \<and>
     (segment_max_bytes w \<le> active_bytes w \<longrightarrow> r_lsn (hd rs) \<notin> set (wal_starts w))"

lemma rotate_fresh:
  assumes inv: "wal_inv crc d w ps" and l: "l \<notin> set (wal_starts w)"
  shows "segment_name l \<notin> fst ` set d"
proof
  assume "segment_name l \<in> fst ` set d"
  then have "segment_name l \<in> wal_names d" by (simp add: wal_names_def)
  then obtain p where p: "p \<in> set ps" "seg_path (fst p) = segment_name l" using inv by (auto simp: wal_inv_def)
  then have "start_lsn (fst p) = l" using wal_inv_paths [OF inv p(1)] by simp
  with l p(1) show False unfolding wal_inv_starts [OF inv, symmetric] by auto
qed

lemma wal_inv_new_segment:
  assumes inv: "wal_inv crc d w ps" and new: "l \<notin> set (wal_starts w)"
    and d1: "map_of d1 = map_of d" "map fst d1 = map fst d" and fresh: "segment_name l \<notin> fst ` set d"
  shows "wal_inv crc (d1 @ [(segment_name l, \<lparr>content = [], synced = 0\<rparr>)])
           (w\<lparr>active := \<lparr>seg_path = segment_name l, start_lsn = l, seg_max_lsn = 0\<rparr>, sealed := sealed w @ [active w],
              writer := segment_name l, active_bytes := 0\<rparr>)
           (ps @ [(\<lparr>seg_path = segment_name l, start_lsn = l, seg_max_lsn = 0\<rparr>, [])])"
proof -
  let ?d2 = "d1 @ [(segment_name l, \<lparr>content = [], synced = 0\<rparr>)]" and ?s = "\<lparr>seg_path = segment_name l, start_lsn = l, seg_max_lsn = 0\<rparr>"
  have none: "map_of d1 (segment_name l) = None" using fresh by (simp add: d1(1) map_of_eq_None_iff)
  have old: "\<forall>p \<in> set ps. seg_ok crc ?d2 p"
  proof
    fix p
    assume p: "p \<in> set ps"
    then have "seg_path (fst p) \<noteq> segment_name l" using wal_inv_paths [OF inv p] p new unfolding wal_inv_starts [OF inv, symmetric] by force
    then have "map_of ?d2 (seg_path (fst p)) = map_of d (seg_path (fst p))"
      unfolding map_of_append d1(1) by (simp add: map_add_def split: option.splits)
    then show "seg_ok crc ?d2 p" using inv p seg_ok_cong unfolding wal_inv_def by blast
  qed
  have ok: "seg_ok crc ?d2 (?s, [])" using none by (simp add: seg_ok_def stored_def map_add_def)
  have "wal_names ?d2 = insert (segment_name l) (wal_names d1)" by (auto simp: wal_names_def)
  then have names: "wal_names ?d2 = insert (segment_name l) (set (map (seg_path \<circ> fst) ps))"
    using wal_names_keys [OF d1(2)] inv by (simp add: wal_inv_def)
  have "distinct (map fst ?d2)" using inv fresh d1(2) [THEN arg_cong, of set] by (simp add: d1(2) wal_inv_def)
  moreover have "distinct (map (start_lsn \<circ> fst) (ps @ [(?s, [])]))"
    using inv new by (simp add: wal_inv_def flip: wal_inv_starts [OF inv])
  ultimately show ?thesis using old ok names inv unfolding wal_inv_def by (simp add: ball_Un)
qed

lemma rotate_ok:
  assumes inv: "wal_inv crc d w ps" and l: "l \<notin> set (wal_starts w)"
  shows "\<exists>d' w'. wal_rotate l (d, w) = Ok (d', w') \<and> start_lsn (active w') = l \<and>
           segment_max_bytes w' = segment_max_bytes w \<and> wal_inv crc d' w' (ps @ [(active w', [])])"
proof -
  from inv obtain rs where act: "seg_ok crc d (active w, rs)" by (rule wal_inv_active)
  note fresh = rotate_fresh [OF assms]
  let ?f = "\<lparr>content = frames crc rs, synced = length (frames crc rs)\<rparr>"
  let ?d1 = "AList.update (seg_path (active w)) ?f d"
  have f: "map_of d (seg_path (active w)) = Some ?f" using act by (rule seg_ok_stored)
  then have same: "map_of ?d1 = map_of d" by (simp add: map_upd_triv)
  have "map_of ?d1 (segment_name l) = None"
    unfolding same using fresh by (simp add: map_of_eq_None_iff)
  moreover have "writer w = seg_path (active w)" using inv by (simp add: wal_inv_def)
  ultimately show ?thesis
    using wal_inv_new_segment [OF inv l same keys_update_present [OF f] fresh] f
    by (simp add: wal_rotate_def fs_sync_def fs_open_append_def Let_def)
qed

text \<open>The state after the write and before the sync, and after the sync.\<close>

lemma write_ok:
  assumes inv: "wal_inv crc d w (qs @ [(active w, rs0)])" and rs: "list_all fits rs"
    and b: "length (frames crc (rs0 @ rs)) < 2 ^ 64"
  defines "f \<equiv> \<lparr>content = frames crc (rs0 @ rs), synced = length (frames crc rs0)\<rparr>"
  shows "\<exists>d'. fs_write (writer w) (frames crc rs) d = Ok d' \<and>
           map_of d' = (map_of d)(seg_path (active w) \<mapsto> f) \<and> map fst d' = map fst d"
proof -
  from inv have "map_of d (seg_path (active w))
        = Some \<lparr>content = frames crc rs0, synced = length (frames crc rs0)\<rparr>"
    and "writer w = seg_path (active w)"
    by (auto simp: wal_inv_def seg_ok_def stored_def)
  then show ?thesis
    by (simp add: fs_write_def f_def keys_update_present)
qed

lemma inv_extend:
  assumes inv: "wal_inv crc d w (qs @ [(active w, rs0)])" and rs: "list_all fits rs"
    and b: "length (frames crc (rs0 @ rs)) < 2 ^ 64"
    and d': "map_of d' = (map_of d)(seg_path (active w) \<mapsto>
               \<lparr>content = frames crc (rs0 @ rs), synced = length (frames crc (rs0 @ rs))\<rparr>)"
    and keys: "map fst d' = map fst d"
    and w': "sealed w' = sealed w" "active w' = (active w)\<lparr>seg_max_lsn := lsn_max (rs0 @ rs)\<rparr>"
      "writer w' = writer w" "active_bytes w' = of_nat (length (frames crc (rs0 @ rs)))"
      "segment_max_bytes w' = segment_max_bytes w"
  shows "wal_inv crc d' w' (qs @ [(active w', rs0 @ rs)])"
proof -
  have old: "seg_ok crc d' p" if p: "p \<in> set qs" for p
  proof -
    have "distinct (map (seg_path \<circ> fst) (qs @ [(active w, rs0)]))"
      using inv by (rule wal_inv_distinct_paths)
    with p have "seg_path (fst p) \<noteq> seg_path (active w)" by (auto simp: image_iff)
    then have "map_of d' (seg_path (fst p)) = map_of d (seg_path (fst p))" by (simp add: d')
    moreover have "seg_ok crc d p" using inv p by (simp add: wal_inv_def)
    ultimately show ?thesis using seg_ok_cong by blast
  qed
  have new: "seg_ok crc d' (active w', rs0 @ rs)"
    using inv rs b by (auto simp: wal_inv_def seg_ok_def stored_def d' w'(2))
  show ?thesis
    using inv old new wal_names_keys [OF keys]
    by (simp add: wal_inv_def w' keys comp_def)
qed

lemma append_batch_max: "rs \<noteq> [] \<Longrightarrow> fold max (map r_lsn (tl rs)) (r_lsn (hd rs)) = lsn_max rs"
  by (cases rs) (simp_all add: lsn_max_def)

text \<open>The log that \<open>append_write\<close> writes to: the old one, or the old one with a fresh segment.\<close>

lemma append_rotates:
  assumes inv: "wal_inv crc d w ps" and b: "batch_ok crc w ps rs"
  shows "\<exists>d1 w1 qs rs0.
           (if segment_max_bytes w \<le> active_bytes w then wal_rotate (r_lsn (hd rs)) (d, w) else Ok (d, w))
             = Ok (d1, w1) \<and>
           wal_inv crc d1 w1 (qs @ [(active w1, rs0)]) \<and> segment_max_bytes w1 = segment_max_bytes w \<and>
           (qs @ [(active w1, rs0)] = ps \<or> segment_max_bytes w \<le> active_bytes w \<and> qs = ps \<and> rs0 = [] \<and> start_lsn (active w1) = r_lsn (hd rs))"
proof (cases "segment_max_bytes w \<le> active_bytes w")
  case True
  with rotate_ok [OF inv, of "r_lsn (hd rs)"] b obtain d1 w1 where
    "wal_rotate (r_lsn (hd rs)) (d, w) = Ok (d1, w1)" "start_lsn (active w1) = r_lsn (hd rs)"
    "segment_max_bytes w1 = segment_max_bytes w" "wal_inv crc d1 w1 (ps @ [(active w1, [])])"
    by (auto simp: batch_ok_def)
  with True show ?thesis by (intro exI [of _ d1] exI [of _ w1] exI [of _ ps] exI [of _ "[]"]) simp
next
  case False
  from inv obtain qs rs0 where "ps = qs @ [(active w, rs0)]" by (rule wal_inv_active)
  with False inv show ?thesis
    by (intro exI [of _ d] exI [of _ w] exI [of _ qs] exI [of _ rs0]) simp
qed

lemma append_write_ok:
  assumes inv: "wal_inv crc d w ps" and b: "batch_ok crc w ps rs"
  shows "\<exists>d0 d1 w1 qs rs0. append_write crc rs (d, w) = Ok (d1, w1) \<and> scratch w1 = frames crc rs \<and>
           wal_inv crc d0 w1 (qs @ [(active w1, rs0)]) \<and> segment_max_bytes w1 = segment_max_bytes w \<and>
           (qs @ [(active w1, rs0)] = ps \<or> segment_max_bytes w \<le> active_bytes w \<and> qs = ps \<and> rs0 = [] \<and> start_lsn (active w1) = r_lsn (hd rs)) \<and>
           length (frames crc (rs0 @ rs)) < 2 ^ 64 \<and>
           map_of d1 = (map_of d0)(seg_path (active w1) \<mapsto>
              \<lparr>content = frames crc (rs0 @ rs), synced = length (frames crc rs0)\<rparr>) \<and>
           map fst d1 = map fst d0"
proof -
  from append_rotates [OF inv b] obtain d0 w0 qs rs0 where rot:
    "(if segment_max_bytes w \<le> active_bytes w then wal_rotate (r_lsn (hd rs)) (d, w) else Ok (d, w)) = Ok (d0, w0)"
    and inv0: "wal_inv crc d0 w0 (qs @ [(active w0, rs0)])" and seg: "segment_max_bytes w0 = segment_max_bytes w"
    and ext: "qs @ [(active w0, rs0)] = ps \<or> segment_max_bytes w \<le> active_bytes w \<and> qs = ps \<and> rs0 = [] \<and> start_lsn (active w0) = r_lsn (hd rs)"
    by blast
  have "log_of ps @ rs = log_of qs @ rs0 @ rs" using ext by auto
  then have small: "length (frames crc (rs0 @ rs)) < 2 ^ 64" using b by (auto simp: batch_ok_def)
  from b have "list_all fits rs" by (simp add: batch_ok_def)
  from write_ok [OF inv0 this small] obtain d1 where d1:
    "fs_write (writer w0) (frames crc rs) d0 = Ok d1"
    "map_of d1 = (map_of d0)(seg_path (active w0) \<mapsto>
       \<lparr>content = frames crc (rs0 @ rs), synced = length (frames crc rs0)\<rparr>)" "map fst d1 = map fst d0"
    by blast
  have "append_write crc rs (d, w) = Ok (d1, w0\<lparr>scratch := frames crc rs\<rparr>)"
    using rot d1(1) by (simp add: append_write_def frame_simps split: if_splits)
  moreover have "wal_inv crc d0 (w0\<lparr>scratch := frames crc rs\<rparr>) (qs @ [(active w0, rs0)])"
    using inv0 by (simp add: wal_inv_def)
  ultimately show ?thesis
    using ext seg small d1(2,3) by (intro exI [of _ d0] exI [of _ d1]) (auto simp del: fun_upd_apply)
qed

lemma append_ok:
  assumes inv: "wal_inv crc d w ps" and b: "batch_ok crc w ps rs"
  shows "\<exists>d' w' ps'. wal_append crc rs (d, w) = Ok (d', w') \<and> wal_inv crc d' w' ps' \<and>
           log_of ps' = log_of ps @ rs \<and> segment_max_bytes w' = segment_max_bytes w \<and>
           (wal_starts w' = wal_starts w \<or> wal_starts w' = wal_starts w @ [r_lsn (hd rs)])"
proof -
  from append_write_ok [OF assms] obtain d0 d1 w1 qs rs0 where
    wrt: "append_write crc rs (d, w) = Ok (d1, w1)" "scratch w1 = frames crc rs"
    and inv0: "wal_inv crc d0 w1 (qs @ [(active w1, rs0)])" and seg: "segment_max_bytes w1 = segment_max_bytes w"
    and ext: "qs @ [(active w1, rs0)] = ps \<or> segment_max_bytes w \<le> active_bytes w \<and> qs = ps \<and> rs0 = [] \<and> start_lsn (active w1) = r_lsn (hd rs)"
    and small: "length (frames crc (rs0 @ rs)) < 2 ^ 64"
    and d1: "map_of d1 = (map_of d0)(seg_path (active w1) \<mapsto>
        \<lparr>content = frames crc (rs0 @ rs), synced = length (frames crc rs0)\<rparr>)" "map fst d1 = map fst d0"
    by blast
  from b have ne: "rs \<noteq> []" and fit: "list_all fits rs" by (auto simp: batch_ok_def)
  from inv0 have wr: "writer w1 = seg_path (active w1)" and mx: "seg_max_lsn (active w1) = lsn_max rs0"
    and by1: "active_bytes w1 = of_nat (length (frames crc rs0))"
    by (auto simp: wal_inv_def seg_ok_def)
  let ?f = "\<lparr>content = frames crc (rs0 @ rs), synced = length (frames crc (rs0 @ rs))\<rparr>"
  let ?d2 = "AList.update (seg_path (active w1)) ?f d1"
  let ?w2 = "w1\<lparr>active_bytes := active_bytes w1 + of_nat (length (scratch w1)),
      active := (active w1)\<lparr>seg_max_lsn := max (seg_max_lsn (active w1))
        (fold max (map r_lsn (tl rs)) (r_lsn (hd rs)))\<rparr>\<rparr>"
  have "wal_append crc rs (d, w) = Ok (?d2, ?w2)"
    using ne wrt(1) by (simp add: wal_append_def append_sync_def fs_sync_def wr d1(1))
  moreover have "wal_inv crc ?d2 ?w2 (qs @ [(active ?w2, rs0 @ rs)])"
  proof (rule inv_extend [OF inv0 fit small])
    show "map_of ?d2 = (map_of d0)(seg_path (active w1) \<mapsto> ?f)" by (simp add: d1(1))
    show "map fst ?d2 = map fst d0"
      using d1 keys_update_present [of d1 "seg_path (active w1)"] by simp
  qed (simp_all add: mx by1 wrt(2) append_batch_max [OF ne])
  moreover have "wal_starts ?w2 = map (start_lsn \<circ> fst) (qs @ [(active w1, rs0)])"
    unfolding wal_inv_starts [OF inv0] by (simp add: wal_starts_def)
  then have "wal_starts ?w2 = wal_starts w \<or> wal_starts ?w2 = wal_starts w @ [r_lsn (hd rs)]"
    using ext by (auto simp flip: wal_inv_starts [OF inv])
  ultimately show ?thesis
    using ext seg by (intro exI [of _ ?d2] exI [of _ ?w2] exI [of _ "qs @ [(active ?w2, rs0 @ rs)]"]) auto
qed

section \<open>Durability\<close>

text \<open>What a crash leaves of an open log, and of a log in the middle of an append.\<close>

lemma crash_dir_synced:
  "map_of d n = Some \<lparr>content = c, synced = length c\<rparr> \<Longrightarrow>
     map_of (crash_dir keep_to d) n = Some \<lparr>content = c, synced = length c\<rparr>"
  by (simp add: wal_simps)

text \<open>
  \<open>open\<close> lists the segments by name, whatever the order in which they were created. What it replays is
  the log up to the order of whole segments, and the log itself when they were created in that order.
\<close>

definition on_disk :: "log \<Rightarrow> segment \<times> wrecord list \<Rightarrow> bytes \<Rightarrow> (lsn \<times> wrecord list \<times> bytes) list" where
  "on_disk qs a t =
     sort_key fst (map (\<lambda>(s, rs). (start_lsn s, rs, [])) qs @ [(start_lsn (fst a), snd a, t)])"

lemma on_disk_log: "mset (disk_log (on_disk qs a t)) = mset (log_of (qs @ [a]))"
proof -
  have c: "mset (disk_log ls) = sum_mset (image_mset (mset \<circ> (fst \<circ> snd)) (mset ls))" for ls
    by (induction ls) (auto simp: disk_log_def)
  have "mset (log_of qs) = sum_mset (image_mset (mset \<circ> snd) (mset qs))"
    by (induction qs) simp_all
  then show ?thesis unfolding c on_disk_def by (simp add: image_mset.compositionality comp_def split_def add.commute)
qed

lemma on_disk_sorted: "sorted (map (start_lsn \<circ> fst) (qs @ [a])) \<Longrightarrow> disk_log (on_disk qs a t) = log_of (qs @ [a])"
proof -
  assume "sorted (map (start_lsn \<circ> fst) (qs @ [a]))"
  then have "on_disk qs a t = map (\<lambda>(s, rs). (start_lsn s, rs, [])) qs @ [(start_lsn (fst a), snd a, t)]"
    unfolding on_disk_def by (intro sort_key_id_if_sorted) (simp add: comp_def split_def)
  then show ?thesis by (simp add: disk_log_def log_of_def comp_def split_def)
qed

lemma on_disk_elem: "x \<in> set (on_disk qs a t) \<longleftrightarrow> x = (start_lsn (fst a), snd a, t) \<or> (\<exists>p \<in> set qs. x = (start_lsn (fst p), snd p, []))"
  by (auto simp: on_disk_def split_def)

lemma disk_inv_of_log:
  assumes inv: "wal_inv crc d w (qs @ [(active w, rs0)])"
    and t: "torn crc t" and fit: "list_all fits rs"
    and b: "length (frames crc (rs0 @ rs) @ t) < 2 ^ 64"
    and names: "wal_names d' = wal_names d" and keys: "distinct (map fst d')"
    and new: "map_of d' (seg_path (active w))
        = Some \<lparr>content = frames crc (rs0 @ rs) @ t, synced = length (frames crc (rs0 @ rs) @ t)\<rparr>"
    and old: "\<And>p. p \<in> set qs \<Longrightarrow> map_of d' (seg_path (fst p)) = map_of d (seg_path (fst p))"
  shows "disk_inv crc d' (on_disk qs (active w, rs0 @ rs) t)"
proof -
  have paths: "seg_path (fst p) = segment_name (start_lsn (fst p))" if "p \<in> set (qs @ [(active w, rs0)])" for p
    using wal_inv_paths [OF inv that] .
  have "file_ok crc d' (start_lsn (fst p), snd p, [])" if p: "p \<in> set qs" for p
  proof -
    have "seg_ok crc d p" using inv p by (auto simp: wal_inv_def)
    moreover have "seg_path (fst p) = segment_name (start_lsn (fst p))" using paths [of p] p by simp
    ultimately show ?thesis
      using old [OF p] by (auto simp: file_ok_def seg_ok_def stored_def split_def)
  qed
  moreover have "file_ok crc d' (start_lsn (active w), rs0 @ rs, t)"
    using inv new paths [of "(active w, rs0)"] t fit b
    by (auto simp: file_ok_def wal_inv_def seg_ok_def)
  moreover have "wal_names d' = set (map (segment_name \<circ> fst) (on_disk qs (active w, rs0 @ rs) t))"
    using inv names paths by (force simp: wal_inv_def image_iff on_disk_def)
  moreover have "distinct (map (start_lsn \<circ> fst) (qs @ [(active w, rs0)]))"
    using inv by (simp add: wal_inv_def)
  then have "distinct (map fst (map (\<lambda>(s, rs). (start_lsn s, rs, [])) qs @ [(start_lsn (active w), rs0 @ rs, t)]))"
    by (simp add: comp_def split_def)
  then have "sorted_wrt (<) (map fst (on_disk qs (active w, rs0 @ rs) t))"
    unfolding on_disk_def fst_conv snd_conv by (rule sort_key_strict)
  ultimately show ?thesis
    using keys by (auto simp: disk_inv_def on_disk_elem)
qed

lemma log_disk:
  assumes inv: "wal_inv crc d w ps" and names: "wal_names d' = wal_names d" and keys: "distinct (map fst d')"
    and all: "\<And>p. p \<in> set ps \<Longrightarrow> map_of d' (seg_path (fst p)) = map_of d (seg_path (fst p))"
  shows "disk_inv crc d' (on_disk (butlast ps) (last ps) [])"
proof -
  from inv obtain qs rs where ps: "ps = qs @ [(active w, rs)]" and ok: "seg_ok crc d (active w, rs)"
    by (rule wal_inv_active)
  have "disk_inv crc d' (on_disk qs (active w, rs @ []) [])"
  proof (rule disk_inv_of_log [where d = d])
    show "wal_inv crc d w (qs @ [(active w, rs)])" using inv ps by simp
    show "map_of d' (seg_path (active w)) =
      Some \<lparr>content = frames crc (rs @ []) @ [], synced = length (frames crc (rs @ []) @ [])\<rparr>"
      using all [of "(active w, rs)"] seg_ok_stored [OF ok] by (simp add: ps)
    show "map_of d' (seg_path (fst p)) = map_of d (seg_path (fst p))" if "p \<in> set qs" for p
      using all [of p] that by (simp add: ps)
    show "length (frames crc (rs @ []) @ []) < 2 ^ 64" using ok by (simp add: seg_ok_def)
  qed (simp_all add: names keys)
  then show ?thesis by (simp add: ps)
qed

lemma wal_inv_on_disk:
  assumes inv: "wal_inv crc d w ps"
  shows "mset (disk_log (on_disk (butlast ps) (last ps) [])) = mset (log_of ps)"
    and "sorted (wal_starts w) \<Longrightarrow> disk_log (on_disk (butlast ps) (last ps) []) = log_of ps"
proof -
  have ne: "ps \<noteq> []" using inv by (auto simp: wal_inv_def)
  then have snoc: "butlast ps @ [last ps] = ps" by (rule append_butlast_last_id)
  show "mset (disk_log (on_disk (butlast ps) (last ps) [])) = mset (log_of ps)"
    using on_disk_log [of "butlast ps" "last ps" "[]"] unfolding snoc .
  show "disk_log (on_disk (butlast ps) (last ps) []) = log_of ps" if "sorted (wal_starts w)"
    using on_disk_sorted [of "butlast ps" "last ps" "[]"] that unfolding snoc wal_inv_starts [OF inv] .
qed

lemma crash_disk:
  assumes inv: "wal_inv crc d w ps"
  shows "disk_inv crc (crash_dir keep_to d) (on_disk (butlast ps) (last ps) [])"
proof (rule log_disk [OF inv])
  fix p
  assume "p \<in> set ps"
  then have "seg_ok crc d (fst p, snd p)" using inv by (auto simp: wal_inv_def)
  from seg_ok_stored [OF this] show "map_of (crash_dir keep_to d) (seg_path (fst p)) = map_of d (seg_path (fst p))"
    by (simp add: crash_dir_synced)
qed (use inv in \<open>simp_all add: wal_inv_def\<close>)

text \<open>Inside an append: the torn batch contributes a prefix of its records.\<close>

lemma crash_in_append_disk:
  assumes inv: "wal_inv crc d w ps" and b: "batch_ok crc w ps rs"
    and wr: "append_write crc rs (d, w) = Ok (d1, w1)"
  shows "\<exists>qs rs0 j t. disk_inv crc (crash_dir keep_to d1) (on_disk qs (active w1, rs0 @ take j rs) t) \<and>
           map (start_lsn \<circ> fst) (qs @ [(active w1, rs0)]) = wal_starts w1 \<and>
           (qs @ [(active w1, rs0)] = ps \<or> segment_max_bytes w \<le> active_bytes w \<and> qs = ps \<and> rs0 = [] \<and> start_lsn (active w1) = r_lsn (hd rs))"
proof -
  from append_write_ok [OF inv b] wr obtain d0 qs rs0 where
    inv0: "wal_inv crc d0 w1 (qs @ [(active w1, rs0)])" and small: "length (frames crc (rs0 @ rs)) < 2 ^ 64"
    and ext: "qs @ [(active w1, rs0)] = ps \<or> segment_max_bytes w \<le> active_bytes w \<and> qs = ps \<and> rs0 = [] \<and> start_lsn (active w1) = r_lsn (hd rs)"
    and d1: "map_of d1 = (map_of d0)(seg_path (active w1) \<mapsto>
        \<lparr>content = frames crc (rs0 @ rs), synced = length (frames crc rs0)\<rparr>)" "map fst d1 = map fst d0"
    by auto
  from b have fit: "list_all fits rs" by (auto simp: batch_ok_def)
  let ?c = "take (max (length (frames crc rs0)) (keep_to (seg_path (active w1)))) (frames crc (rs0 @ rs))"
  obtain j t where t: "?c = frames crc (rs0 @ take j rs) @ t" "torn crc t"
    using take_frames [OF fit, of "max (length (frames crc rs0)) (keep_to (seg_path (active w1)))
      - length (frames crc rs0)" crc]
    by auto
  have "length ?c < 2 ^ 64" using small by (rule le_less_trans [rotated]) simp
  then have tb: "length (frames crc (rs0 @ take j rs) @ t) < 2 ^ 64" by (simp only: t(1))
  have "disk_inv crc (crash_dir keep_to d1) (on_disk qs (active w1, rs0 @ take j rs) t)"
  proof (rule disk_inv_of_log [OF inv0 t(2) _ tb])
    show "list_all fits (take j rs)" using fit by (auto simp: list_all_iff dest: in_set_takeD)
    show "wal_names (crash_dir keep_to d1) = wal_names d0" using wal_names_keys [OF d1(2)] by simp
    show "distinct (map fst (crash_dir keep_to d1))" using inv0 d1(2) by (simp add: wal_inv_def)
    show "map_of (crash_dir keep_to d1) (seg_path (active w1)) =
        Some \<lparr>content = frames crc (rs0 @ take j rs) @ t, synced = length (frames crc (rs0 @ take j rs) @ t)\<rparr>"
      unfolding t(1) [symmetric] by (simp add: map_of_crash_dir d1(1) Let_def)
    show "map_of (crash_dir keep_to d1) (seg_path (fst p)) = map_of d0 (seg_path (fst p))"
      if p: "p \<in> set qs" for p
    proof -
      have "seg_path (fst p) \<noteq> seg_path (active w1)"
        using wal_inv_distinct_paths [OF inv0] p by (auto simp: image_iff)
      moreover have "seg_ok crc d0 (fst p, snd p)" using inv0 p by (auto simp: wal_inv_def)
      ultimately show ?thesis
        using seg_ok_stored [of crc d0 "fst p" "snd p"] by (simp add: map_of_crash_dir d1(1) Let_def)
    qed
  qed
  with wal_inv_starts [OF inv0] ext show ?thesis by blast
qed

section \<open>Truncation\<close>

lemma remove_files_ok:
  assumes "distinct (map seg_path ss)" and "\<forall>s \<in> set ss. map_of d (seg_path s) \<noteq> None"
    and "distinct (map fst d)"
  shows "\<exists>d'. remove_files ss d = Ok d' \<and> distinct (map fst d') \<and>
           fst ` set d' = fst ` set d - seg_path ` set ss \<and>
           (\<forall>n. n \<notin> seg_path ` set ss \<longrightarrow> map_of d' n = map_of d n)"
  using assms
proof (induction ss arbitrary: d)
  case Nil
  then show ?case by simp
next
  case (Cons s ss)
  let ?d1 = "AList.delete (seg_path s) d"
  have "\<forall>x \<in> set ss. map_of ?d1 (seg_path x) \<noteq> None"
    using Cons.prems(1,2) by (auto simp: delete_conv image_iff)
  moreover have "distinct (map fst ?d1)" using Cons.prems(3) by (rule distinct_delete)
  ultimately obtain d' where "remove_files ss ?d1 = Ok d'" "distinct (map fst d')"
    "fst ` set d' = fst ` set ?d1 - seg_path ` set ss"
    "\<forall>n. n \<notin> seg_path ` set ss \<longrightarrow> map_of d' n = map_of ?d1 n"
    using Cons.IH [of ?d1] Cons.prems(1) by auto
  moreover have "set (map fst ?d1) = set (map fst d) - {seg_path s}" unfolding delete_keys by simp
  ultimately show ?case
    using Cons.prems(2) by (auto simp: fs_remove_def delete_conv)
qed

lemma filter_log_covered:
  assumes "\<And>p r. p \<in> set ps \<Longrightarrow> P p \<Longrightarrow> r \<in> set (snd p) \<Longrightarrow> \<not> Q r"
  shows "filter Q (log_of (filter (\<lambda>p. \<not> P p) ps)) = filter Q (log_of ps)"
  using assms
proof (induction ps)
  case (Cons p ps)
  have "P p \<Longrightarrow> filter Q (snd p) = []" using Cons.prems [of p] by (auto simp: filter_empty_conv)
  with Cons show ?case by auto
qed simp

lemma lsn_max_log_covered:
  assumes "\<And>p. p \<in> set ps \<Longrightarrow> P p \<Longrightarrow> lsn_max (snd p) \<le> b"
  shows "max (lsn_max (log_of (filter (\<lambda>p. \<not> P p) ps))) b = max (lsn_max (log_of ps)) b"
  using assms
proof (induction ps)
  case (Cons p ps)
  have IH: "max (lsn_max (log_of (filter (\<lambda>p. \<not> P p) ps))) b = max (lsn_max (log_of ps)) b"
    using Cons by simp
  show ?case
  proof (cases "P p")
    case True
    then have "lsn_max (snd p) \<le> b" using Cons.prems [of p] by simp
    then have "max (max (lsn_max (snd p)) (lsn_max (log_of ps))) b = max (lsn_max (log_of ps)) b"
      by (auto simp: max_def)
    with True IH show ?thesis by simp
  next
    case False
    then show ?thesis using IH by (simp add: max.assoc)
  qed
qed simp

definition kept :: "lsn \<Rightarrow> log \<Rightarrow> log" where
  "kept watermark ps =
     filter (\<lambda>p. \<not> covered watermark (fst p)) (butlast ps) @ [last ps]"

lemma kept_sub: "wal_inv crc d w ps \<Longrightarrow> set (kept wm ps) \<subseteq> set ps"
  by (erule wal_inv_active) (auto simp: kept_def)

text \<open>Removing the covered segments leaves the files of the others alone.\<close>

lemma covered_removed:
  assumes inv: "wal_inv crc d w ps"
  shows "\<exists>d'. remove_files (filter (covered wm) (sealed w)) d = Ok d' \<and> distinct (map fst d') \<and>
           fst ` set d' = fst ` set d - seg_path ` set (filter (covered wm) (sealed w)) \<and>
           (\<forall>n. n \<notin> seg_path ` set (filter (covered wm) (sealed w)) \<longrightarrow> map_of d' n = map_of d n)"
proof -
  from inv obtain qs rs where ps: "ps = qs @ [(active w, rs)]" and sld: "sealed w = map fst qs" by (rule wal_inv_active)
  have "distinct (map seg_path (filter (covered wm) (sealed w)))"
    using wal_inv_distinct_paths [OF inv] by (simp add: ps sld distinct_map_filter comp_def)
  moreover have "map_of d (seg_path s) \<noteq> None" if "s \<in> set (filter (covered wm) (sealed w))" for s
  proof -
    from that have "s \<in> fst ` set ps" by (auto simp: sld ps)
    then obtain rs' where "(s, rs') \<in> set ps" by fastforce
    then have "seg_ok crc d (s, rs')" using inv by (auto simp: wal_inv_def)
    from seg_ok_stored [OF this] show ?thesis by simp
  qed
  moreover have "distinct (map fst d)" using inv by (simp add: wal_inv_def)
  ultimately show ?thesis using remove_files_ok by blast
qed

lemma kept_apart:
  assumes inv: "wal_inv crc d w ps" and p: "p \<in> set (kept wm ps)"
  shows "seg_path (fst p) \<notin> seg_path ` set (filter (covered wm) (sealed w))"
proof
  from inv obtain qs rs where ps: "ps = qs @ [(active w, rs)]" and sld: "sealed w = map fst qs" by (rule wal_inv_active)
  have dp: "distinct (map seg_path (map fst ps))" using wal_inv_distinct_paths [OF inv] by (simp add: comp_def)
  assume "seg_path (fst p) \<in> seg_path ` set (filter (covered wm) (sealed w))"
  then obtain q where q: "q \<in> set qs" "covered wm (fst q)" "seg_path (fst q) = seg_path (fst p)" by (auto simp: sld)
  have "inj_on seg_path (fst ` set ps)" using dp unfolding distinct_map by simp
  moreover have "fst q \<in> fst ` set ps" "fst p \<in> fst ` set ps" using q(1) subsetD [OF kept_sub [OF inv] p] by (auto simp: ps)
  ultimately have "fst q = fst p" using q(3) by (blast dest: inj_onD)
  with q(2) p have "p = (active w, rs)" by (auto simp: kept_def ps)
  with q show False using dp by (auto simp: ps image_iff)
qed

lemma kept_names:
  assumes inv: "wal_inv crc d w ps"
  shows "wal_names d - seg_path ` set (filter (covered wm) (sealed w)) = set (map (seg_path \<circ> fst) (kept wm ps))"
proof (intro equalityI subsetI)
  fix n
  from inv obtain qs rs where ps: "ps = qs @ [(active w, rs)]" and sld: "sealed w = map fst qs" by (rule wal_inv_active)
  assume "n \<in> wal_names d - seg_path ` set (filter (covered wm) (sealed w))"
  then obtain p where "p \<in> set ps" "n = seg_path (fst p)" "n \<notin> seg_path ` set (filter (covered wm) (sealed w))"
    using inv by (auto simp: wal_inv_def)
  then show "n \<in> set (map (seg_path \<circ> fst) (kept wm ps))" by (auto simp: ps sld kept_def)
next
  fix n
  assume "n \<in> set (map (seg_path \<circ> fst) (kept wm ps))"
  then obtain p where p: "p \<in> set (kept wm ps)" "n = seg_path (fst p)" by auto
  have "n \<in> wal_names d" using inv kept_sub [OF inv] p by (auto simp: wal_inv_def)
  then show "n \<in> wal_names d - seg_path ` set (filter (covered wm) (sealed w))" using kept_apart [OF inv p(1)] p(2) by simp
qed

lemma truncate_ok:
  assumes inv: "wal_inv crc d w ps"
  shows "\<exists>d' w'. truncate_through wm (d, w) = Ok (d', w') \<and> wal_inv crc d' w' (kept wm ps) \<and>
           active w' = active w \<and> segment_max_bytes w' = segment_max_bytes w \<and>
           set (sealed w') \<subseteq> set (sealed w) \<and> active_bytes w' = active_bytes w"
proof -
  from inv obtain qs rs where ps: "ps = qs @ [(active w, rs)]" and sld: "sealed w = map fst qs" by (rule wal_inv_active)
  from covered_removed [OF inv, of wm] obtain d' where d': "remove_files (filter (covered wm) (sealed w)) d = Ok d'"
    "distinct (map fst d')" "fst ` set d' = fst ` set d - seg_path ` set (filter (covered wm) (sealed w))"
    "\<forall>n. n \<notin> seg_path ` set (filter (covered wm) (sealed w)) \<longrightarrow> map_of d' n = map_of d n" by blast
  let ?w' = "w\<lparr>sealed := filter (Not \<circ> covered wm) (sealed w)\<rparr>"
  have kp: "kept wm ps = filter (\<lambda>p. \<not> covered wm (fst p)) qs @ [(active w, rs)]" by (simp add: kept_def ps)
  have ok: "seg_ok crc d' p" if p: "p \<in> set (kept wm ps)" for p
  proof -
    have "map_of d' (seg_path (fst p)) = map_of d (seg_path (fst p))" using d'(4) kept_apart [OF inv p] by blast
    moreover have "seg_ok crc d p" using inv kept_sub [OF inv] p by (auto simp: wal_inv_def)
    ultimately show ?thesis using seg_ok_cong by blast
  qed
  have "wal_names d' = wal_names d - seg_path ` set (filter (covered wm) (sealed w))"
    using d'(3) by (auto simp: wal_names_def)
  then have names: "wal_names d' = set (map (seg_path \<circ> fst) (kept wm ps))" using kept_names [OF inv] by simp
  have "distinct (map (start_lsn \<circ> fst) ps)" using inv by (simp add: wal_inv_def)
  then have srt: "distinct (map (start_lsn \<circ> fst) (kept wm ps))"
    unfolding kp by (auto simp: ps distinct_map_filter image_iff)
  have fst: "map fst (kept wm ps) = sealed ?w' @ [active ?w']" by (simp add: kp sld filter_map comp_def)
  have "wal_inv crc d' ?w' (kept wm ps)"
    using inv ok names srt fst d'(2) unfolding wal_inv_def by (simp add: kept_def)
  then show ?thesis
    using d'(1) by (simp add: truncate_through_def partition_filter1 partition_filter2 Let_def split_def)
qed

lemma kept_above:
  assumes "wal_inv crc d w ps"
  shows "filter (\<lambda>r. wm < r_lsn r) (log_of (kept wm ps)) = filter (\<lambda>r. wm < r_lsn r) (log_of ps)"
    and "max (lsn_max (log_of (kept wm ps))) wm = max (lsn_max (log_of ps)) wm"
proof -
  from assms obtain qs rs where ps: "ps = qs @ [(active w, rs)]" by (rule wal_inv_active)
  have mx: "lsn_max (snd p) \<le> wm" if "p \<in> set qs" "covered wm (fst p)" for p
    using that assms by (cases p) (auto simp: ps wal_inv_def seg_ok_def covered_def)
  show "filter (\<lambda>r. wm < r_lsn r) (log_of (kept wm ps)) = filter (\<lambda>r. wm < r_lsn r) (log_of ps)"
    using filter_log_covered [of qs "\<lambda>p. covered wm (fst p)" "\<lambda>r. wm < r_lsn r"] mx
    by (auto simp: kept_def ps lsn_max_le_iff not_less)
  have "max (lsn_max (log_of (filter (\<lambda>p. \<not> covered wm (fst p)) qs))) wm = max (lsn_max (log_of qs)) wm"
    using mx by (intro lsn_max_log_covered) auto
  then show "max (lsn_max (log_of (kept wm ps))) wm = max (lsn_max (log_of ps)) wm"
    by (simp add: kept_def ps) (rule max_cong_mid)
qed

section \<open>Properties\<close>

text \<open>
  Replaying a segment that was cut at an arbitrary byte returns exactly the records whose frames
  are whole, no fewer and no more, their highest sequence number and the length of the whole frames;
  it never fails.
\<close>

theorem replay_cut_segment:
  assumes "list_all fits rs" and "map_of d path = Some f"
    and "content f = take n (fold (encode crc) rs [])"
  shows "\<exists>j. replay_segment crc path d
               = Ok (take j rs, lsn_max (take j rs), of_nat (length (frames crc (take j rs)))) \<and>
             length (frames crc (take j rs)) \<le> n \<and>
             (j < length rs \<longrightarrow> n < length (frames crc (take (Suc j) rs)))"
proof -
  from take_frames_max [OF assms(1)] obtain j t where
    "take n (frames crc rs) = frames crc (take j rs) @ t" "torn crc t"
    "length (frames crc (take j rs)) \<le> n"
    "j < length rs \<longrightarrow> n < length (frames crc (take (Suc j) rs))" by blast
  moreover have "list_all fits (take j rs)" using assms(1) by (auto simp: list_all_iff dest: in_set_takeD)
  ultimately show ?thesis
    using replay_segment_frames [OF assms(2), of crc "take j rs" t] assms(3)
    by (auto simp: fold_encode)
qed

theorem replay_cut_segment_witness:
  "\<exists>j. replay_segment (\<lambda>_. 0) ''a''
         [(''a'', \<lparr>content = take 30 (fold (encode (\<lambda>_. 0)) [record_put [1] 1 [2], record_delete [1] 2] []), synced = 0\<rparr>)]
        = Ok (take j [record_put [1] 1 [2], record_delete [1] 2],
              lsn_max (take j [record_put [1] 1 [2], record_delete [1] 2]),
              of_nat (length (frames (\<lambda>_. 0) (take j [record_put [1] 1 [2], record_delete [1] 2])))) \<and>
       length (frames (\<lambda>_. 0) (take j [record_put [1] 1 [2], record_delete [1] 2])) \<le> 30 \<and>
       (j < length [record_put [1] 1 [2], record_delete [1] 2] \<longrightarrow>
          30 < length (frames (\<lambda>_. 0) (take (Suc j) [record_put [1] 1 [2], record_delete [1] 2])))"
  by (rule replay_cut_segment [where f = "\<lparr>content = take 30 (fold (encode (\<lambda>_. 0))
          [record_put [1] 1 [2], record_delete [1] 2] []), synced = 0\<rparr>"])
    (simp_all add: fits_def record_put_def record_delete_def)

text \<open>
  C19. Recovery. Opening a directory as a crash or a clean shutdown leaves it, with torn tails in any
  of its segments, returns exactly the records above \<open>from_lsn\<close> in log order and the highest
  sequence number on disk, cuts the torn tails off and leaves the log ready for appending.
\<close>

theorem wal_open_recovers:
  assumes "disk_inv crc d ls" and "0 < m"
  shows "\<exists>d' w. wal_open crc m from_lsn d
           = Ok (d', w, \<lparr>replay_records = filter (\<lambda>r. from_lsn < r_lsn r) (disk_log ls),
                         replay_max_lsn = lsn_max (disk_log ls)\<rparr>) \<and>
         wal_inv crc d' w (reopened ls) \<and> log_of (reopened ls) = disk_log ls \<and> segment_max_bytes w = m"
  using wal_open_disk [OF assms] by simp

theorem wal_open_recovers_witness:
  "\<exists>d' w. wal_open (\<lambda>_. 0) 100 0
       [(segment_name 7, \<lparr>content = frames (\<lambda>_. 0) [record_put [1] 7 [2]] @ [9], synced = 28\<rparr>)]
     = Ok (d', w, \<lparr>replay_records = filter (\<lambda>r. 0 < r_lsn r) (disk_log [(7, [record_put [1] 7 [2]], [9])]),
                   replay_max_lsn = lsn_max (disk_log [(7, [record_put [1] 7 [2]], [9])])\<rparr>) \<and>
     wal_inv (\<lambda>_. 0) d' w (reopened [(7, [record_put [1] 7 [2]], [9])]) \<and>
     log_of (reopened [(7, [record_put [1] 7 [2]], [9])]) = disk_log [(7, [record_put [1] 7 [2]], [9])] \<and>
     segment_max_bytes w = 100"
  by (rule wal_open_recovers)
    (auto simp: disk_inv_def file_ok_def wal_names_def fits_def record_put_def torn_def decode_def
      frame_header_len_def length_frame)

text \<open>What an open finds of a log that was killed between two operations.\<close>

lemma crash_replay:
  assumes "wal_inv crc d w ps" and "0 < m"
  shows "\<exists>d2 w2 rp. wal_open crc m from_lsn (crash_dir keep_to d) = Ok (d2, w2, rp) \<and>
           mset (replay_records rp) = mset (filter (\<lambda>r. from_lsn < r_lsn r) (log_of ps)) \<and>
           replay_max_lsn rp = lsn_max (log_of ps) \<and>
           (sorted (wal_starts w) \<longrightarrow> replay_records rp = filter (\<lambda>r. from_lsn < r_lsn r) (log_of ps))"
  using wal_open_disk [OF crash_disk [OF assms(1)] assms(2), of from_lsn keep_to] wal_inv_on_disk [OF assms(1)]
    lsn_max_perm [OF wal_inv_on_disk(1) [OF assms(1)]] by (auto simp: mset_filter)

text \<open>
  C18. Durability. An append of an admissible batch succeeds, extends the log by exactly the batch, and
  whatever a crash after its return leaves of the files, the next open replays every record of the
  log and of the batch above \<open>from_lsn\<close>, each once, and reports the highest sequence number; in the order
  of the log when its segments were created in the order of their names. The sequence numbers may come in
  any order, as concurrent writers bring them.
\<close>

theorem append_durable:
  assumes "wal_inv crc d w ps" and "batch_ok crc w ps rs" and "0 < m"
  shows "\<exists>d' w' ps'. wal_append crc rs (d, w) = Ok (d', w') \<and> wal_inv crc d' w' ps' \<and>
           log_of ps' = log_of ps @ rs \<and>
           (\<forall>keep_to from_lsn. \<exists>d2 w2 rp. wal_open crc m from_lsn (crash_dir keep_to d') = Ok (d2, w2, rp) \<and>
              mset (replay_records rp) = mset (filter (\<lambda>r. from_lsn < r_lsn r) (log_of ps @ rs)) \<and>
              replay_max_lsn rp = lsn_max (log_of ps @ rs) \<and>
              (sorted (wal_starts w') \<longrightarrow> replay_records rp = filter (\<lambda>r. from_lsn < r_lsn r) (log_of ps @ rs)))"
proof -
  from append_ok [OF assms(1,2)] obtain d' w' ps' where ok: "wal_append crc rs (d, w) = Ok (d', w')"
    "wal_inv crc d' w' ps'" "log_of ps' = log_of ps @ rs" by blast
  with crash_replay [OF ok(2) assms(3)] show ?thesis by metis
qed

definition sample_log :: log where
  "sample_log = [(\<lparr>seg_path = segment_name 0, start_lsn = 0, seg_max_lsn = 3\<rparr>, [record_put [1] 3 [2]])]"

definition sample_dir :: dir where
  "sample_dir = [(segment_name 0, \<lparr>content = frames (\<lambda>_. 0) [record_put [1] 3 [2]], synced = 27\<rparr>)]"

definition sample_wal :: wal where
  "sample_wal = \<lparr>segment_max_bytes = 20, writer = segment_name 0,
     active = \<lparr>seg_path = segment_name 0, start_lsn = 0, seg_max_lsn = 3\<rparr>,
     active_bytes = 27, sealed = [], scratch = []\<rparr>"

lemma sample_inv: "wal_inv (\<lambda>_. 0) sample_dir sample_wal sample_log"
  by (auto simp: wal_inv_def sample_dir_def sample_wal_def sample_log_def seg_ok_def stored_def fits_def
      record_put_def length_frame wal_names_def)

lemma sample_batch_ok: "batch_ok (\<lambda>_. 0) sample_wal sample_log [record_delete [1] 4, record_put [5] 5 [6]]"
  by (simp add: batch_ok_def wal_starts_def sample_wal_def sample_log_def fits_def record_put_def record_delete_def length_frame)

text \<open>A batch with a number below one that is already in the log.\<close>

lemma sample_late_ok: "batch_ok (\<lambda>_. 0) sample_wal sample_log [record_delete [1] 2, record_put [5] 5 [6]]"
  by (simp add: batch_ok_def wal_starts_def sample_wal_def sample_log_def fits_def record_put_def record_delete_def length_frame)

theorem append_durable_witness:
  "\<exists>d' w' ps'. wal_append (\<lambda>_. 0) [record_delete [1] 2, record_put [5] 5 [6]] (sample_dir, sample_wal) = Ok (d', w') \<and>
     wal_inv (\<lambda>_. 0) d' w' ps' \<and>
     log_of ps' = log_of sample_log @ [record_delete [1] 2, record_put [5] 5 [6]] \<and>
     (\<forall>keep_to from_lsn. \<exists>d2 w2 rp. wal_open (\<lambda>_. 0) 20 from_lsn (crash_dir keep_to d') = Ok (d2, w2, rp) \<and>
        mset (replay_records rp) = mset (filter (\<lambda>r. from_lsn < r_lsn r) (log_of sample_log @ [record_delete [1] 2, record_put [5] 5 [6]])) \<and>
        replay_max_lsn rp = lsn_max (log_of sample_log @ [record_delete [1] 2, record_put [5] 5 [6]]) \<and>
        (sorted (wal_starts w') \<longrightarrow>
           replay_records rp = filter (\<lambda>r. from_lsn < r_lsn r) (log_of sample_log @ [record_delete [1] 2, record_put [5] 5 [6]])))"
  using sample_inv sample_late_ok by (rule append_durable) simp

text \<open>
  A crash between the write and the sync of an append loses nothing that was acknowledged before,
  and keeps a prefix of the batch in flight: no record of it appears without the ones before it.
\<close>

theorem crash_in_append_prefix:
  assumes "wal_inv crc d w ps" and "batch_ok crc w ps rs" and "0 < m"
    and "append_write crc rs (d, w) = Ok (d1, w1)"
  shows "\<exists>d2 w2 rp j. wal_open crc m from_lsn (crash_dir keep_to d1) = Ok (d2, w2, rp) \<and>
           mset (replay_records rp) = mset (filter (\<lambda>r. from_lsn < r_lsn r) (log_of ps @ take j rs)) \<and>
           replay_max_lsn rp = lsn_max (log_of ps @ take j rs) \<and>
           (sorted (wal_starts w1) \<longrightarrow> replay_records rp = filter (\<lambda>r. from_lsn < r_lsn r) (log_of ps @ take j rs))"
proof -
  from crash_in_append_disk [OF assms(1,2,4), of keep_to] obtain qs rs0 j t where
    d: "disk_inv crc (crash_dir keep_to d1) (on_disk qs (active w1, rs0 @ take j rs) t)"
    and st: "map (start_lsn \<circ> fst) (qs @ [(active w1, rs0)]) = wal_starts w1"
    and ext: "qs @ [(active w1, rs0)] = ps \<or> segment_max_bytes w \<le> active_bytes w \<and> qs = ps \<and> rs0 = [] \<and> start_lsn (active w1) = r_lsn (hd rs)" by blast
  have log: "log_of (qs @ [(active w1, rs0 @ take j rs)]) = log_of ps @ take j rs" using ext by auto
  have "map (start_lsn \<circ> fst) (qs @ [(active w1, rs0 @ take j rs)]) = wal_starts w1" using st by simp
  note od = on_disk_log [of qs "(active w1, rs0 @ take j rs)" t, unfolded log]
    on_disk_sorted [of qs "(active w1, rs0 @ take j rs)" t, unfolded log this]
  from wal_open_disk [OF d assms(3), of from_lsn] obtain d2 w2 where
    o: "wal_open crc m from_lsn (crash_dir keep_to d1)
      = Ok (d2, w2, \<lparr>replay_records = filter (\<lambda>r. from_lsn < r_lsn r) (disk_log (on_disk qs (active w1, rs0 @ take j rs) t)),
            replay_max_lsn = lsn_max (disk_log (on_disk qs (active w1, rs0 @ take j rs) t))\<rparr>)" by blast
  show ?thesis
    by (intro exI conjI, rule o) (simp_all only: replay.simps mset_filter od lsn_max_perm [OF od(1)] cong: imp_cong, simp_all)
qed

theorem crash_in_append_prefix_witness:
  "\<exists>d1 w1 d2 w2 rp j.
     append_write (\<lambda>_. 0) [record_delete [1] 4, record_put [5] 5 [6]] (sample_dir, sample_wal) = Ok (d1, w1) \<and>
     wal_open (\<lambda>_. 0) 20 2 (crash_dir (\<lambda>_. 30) d1) = Ok (d2, w2, rp) \<and>
     mset (replay_records rp) = mset (filter (\<lambda>r. 2 < r_lsn r) (log_of sample_log @ take j [record_delete [1] 4, record_put [5] 5 [6]]))"
proof -
  from append_write_ok [OF sample_inv sample_batch_ok] obtain d1 w1 where
    a: "append_write (\<lambda>_. 0) [record_delete [1] 4, record_put [5] 5 [6]] (sample_dir, sample_wal) = Ok (d1, w1)"
    by blast
  from crash_in_append_prefix [OF sample_inv sample_batch_ok _ this, of 20 2 "\<lambda>_. 30"] obtain d2 w2 rp j where
    "wal_open (\<lambda>_. 0) 20 2 (crash_dir (\<lambda>_. 30) d1) = Ok (d2, w2, rp)"
    "mset (replay_records rp) = mset (filter (\<lambda>r. 2 < r_lsn r) (log_of sample_log @ take j [record_delete [1] 4, record_put [5] 5 [6]]))"
    by auto
  with a show ?thesis by blast
qed

text \<open>
  C20. Truncation succeeds, leaves the active segment alone, and changes nothing of what a later open
  from the watermark sees: the same records above it, and the same floor for the next sequence number,
  also across a crash; in the same order when the segments were created in the order of their names.
\<close>

theorem truncate_keeps_suffix:
  assumes "wal_inv crc d w ps" and "0 < m"
  shows "\<exists>d' w' ps' mx. truncate_through wm (d, w) = Ok (d', w') \<and> wal_inv crc d' w' ps' \<and>
           active w' = active w \<and>
           filter (\<lambda>r. wm < r_lsn r) (log_of ps') = filter (\<lambda>r. wm < r_lsn r) (log_of ps) \<and>
           max mx wm = max (lsn_max (log_of ps)) wm \<and>
           (\<forall>keep_to. \<exists>d2 w2 rp. wal_open crc m wm (crash_dir keep_to d') = Ok (d2, w2, rp) \<and>
              mset (replay_records rp) = mset (filter (\<lambda>r. wm < r_lsn r) (log_of ps)) \<and> replay_max_lsn rp = mx \<and>
              (sorted (wal_starts w') \<longrightarrow> replay_records rp = filter (\<lambda>r. wm < r_lsn r) (log_of ps)))"
proof -
  from truncate_ok [OF assms(1)] obtain d' w' where t: "truncate_through wm (d, w) = Ok (d', w')"
    "wal_inv crc d' w' (kept wm ps)" "active w' = active w" by blast
  note k = kept_above [OF assms(1), of wm]
  with t crash_replay [OF t(2) assms(2), of wm] show ?thesis by metis
qed

theorem truncate_keeps_suffix_witness:
  "\<exists>d' w' ps' mx. truncate_through 3 (sample_dir, sample_wal) = Ok (d', w') \<and> wal_inv (\<lambda>_. 0) d' w' ps' \<and>
     active w' = active sample_wal \<and>
     filter (\<lambda>r. 3 < r_lsn r) (log_of ps') = filter (\<lambda>r. 3 < r_lsn r) (log_of sample_log) \<and>
     max mx 3 = max (lsn_max (log_of sample_log)) 3 \<and>
     (\<forall>keep_to. \<exists>d2 w2 rp. wal_open (\<lambda>_. 0) 20 3 (crash_dir keep_to d') = Ok (d2, w2, rp) \<and>
        mset (replay_records rp) = mset (filter (\<lambda>r. 3 < r_lsn r) (log_of sample_log)) \<and> replay_max_lsn rp = mx \<and>
        (sorted (wal_starts w') \<longrightarrow> replay_records rp = filter (\<lambda>r. 3 < r_lsn r) (log_of sample_log)))"
  using sample_inv by (rule truncate_keeps_suffix) simp

text \<open>
  C21. A tail of zeros stops recovery. The checksum of nothing is zero, so eight zero bytes are a whole
  frame with an empty payload and a matching checksum: a segment whose tail was allocated and never
  written, as a file system may leave it after a power cut, is not taken for a torn tail. Opening the
  log fails, and with it the engine, although every record before the zeros is intact.
\<close>

theorem zero_tail_stops_open:
  assumes "crc [] = 0" and "list_all fits rs" and "8 \<le> n"
  shows "wal_open crc m from_lsn [(segment_name l, \<lparr>content = frames crc rs @ replicate n 0, synced = k\<rparr>)]
           = Err (CorruptWal (segment_name l) (of_nat (length (frames crc rs))) ''payload shorter than fixed header'')"
proof -
  have "decode crc (replicate n 0) (segment_name l) off
      = Err (CorruptWal (segment_name l) off ''payload shorter than fixed header'')" for off
    using assms(1,3) by (rule decode_zeros)
  with replay_loop_prefix [OF assms(2), of crc "[]" "replicate n 0" "segment_name l" 0 "[]"]
  have "replay_segment crc (segment_name l) [(segment_name l, \<lparr>content = frames crc rs @ replicate n 0, synced = k\<rparr>)]
      = Err (CorruptWal (segment_name l) (of_nat (length (frames crc rs))) ''payload shorter than fixed header'')"
    by (simp add: replay_segment_def fs_read_def replay_loop.simps [of crc "frames crc rs @ replicate n 0" _ "length (frames crc rs)"])
  then show ?thesis by (simp add: wal_open_def list_segments_def List.map_filter_def)
qed

theorem zero_tail_stops_open_witness:
  "wal_open (\<lambda>_. 0) 100 0 [(segment_name 7, \<lparr>content = frames (\<lambda>_. 0) [record_put [1] 7 [2]] @ replicate 9 0, synced = 27\<rparr>)]
     = Err (CorruptWal (segment_name 7) (of_nat (length (frames (\<lambda>_. 0) [record_put [1] 7 [2]]))) ''payload shorter than fixed header'')"
  by (rule zero_tail_stops_open) (simp_all add: fits_def record_put_def)

end
