(* ===== verification/Memtable_Set.thy ===== *)
theory Memtable_Set
  imports Wal_Log "HOL-Library.Multiset"
begin

text \<open>
  The in-memory level, from \<^verbatim>\<open>src/src/memtable.rs\<close>: \<open>Entry\<close>, \<open>Lookup\<close>, \<open>Memtable\<close> and
  \<open>MemtableSet\<close>.

  \<^verbatim>\<open>crossbeam_skiplist::SkipMap\<close> is code of another crate: the definitions take its operations as
  the argument \<open>sm\<close>, and the locale \<open>skipmap\<close> states what its documentation promises, through the
  entries its iterator yields. \<open>alist_map\<close> is a concrete map that keeps those promises.
  An \<open>Arc<Memtable>\<close> is a memtable with the address it was allocated at, so that \<open>Arc::ptr_eq\<close>
  compares addresses. \<open>MemtableSet::insert\<close> holds the read lock while it inserts and \<open>freeze\<close>
  takes the write lock, so a frozen memtable never changes and a set is a plain value here.

  Shown: a memtable holds, for each key, the record of the highest sequence number whatever the
  order of arrival; a lookup through the set is the newest level's answer (locale \<open>level\<close>);
  freezing and retiring do what the flush protocol needs; the queue never exceeds its limit.
\<close>

section \<open>Entries and lookups\<close>

record entry =
  e_lsn :: lsn
  e_op :: op
  e_value :: bytes

datatype lookup = Found bytes | Deleted | Missing

section \<open>The skip map\<close>

record 'm skipmap_api =
  sm_new :: 'm
  sm_compare_insert :: "'m \<Rightarrow> bytes \<Rightarrow> entry \<Rightarrow> (entry \<Rightarrow> bool) \<Rightarrow> 'm"
  sm_get :: "'m \<Rightarrow> bytes \<Rightarrow> entry option"
  sm_iter :: "'m \<Rightarrow> (bytes \<times> entry) list"
  sm_len :: "'m \<Rightarrow> nat"
  sm_is_empty :: "'m \<Rightarrow> bool"

section \<open>Memtable\<close>

record 'm memtable =
  mt_map :: 'm
  mt_approx_bytes :: u64
  mt_max_lsn :: lsn

definition memtable_new :: "'m skipmap_api \<Rightarrow> 'm memtable" where
  "memtable_new sm = \<lparr>mt_map = sm_new sm, mt_approx_bytes = 0, mt_max_lsn = 0\<rparr>"

definition memtable_insert :: "'m skipmap_api \<Rightarrow> wrecord \<Rightarrow> 'm memtable \<Rightarrow> 'm memtable" where
  "memtable_insert sm r mt =
     (let size = heap_size r; l = r_lsn r
      in \<lparr>mt_map = sm_compare_insert sm (mt_map mt) (r_key r)
                     \<lparr>e_lsn = l, e_op = r_op r, e_value = r_value r\<rparr> (\<lambda>existing. e_lsn existing < l),
          mt_approx_bytes = mt_approx_bytes mt + size,
          mt_max_lsn = max (mt_max_lsn mt) l\<rparr>)"

definition memtable_get :: "'m skipmap_api \<Rightarrow> 'm memtable \<Rightarrow> bytes \<Rightarrow> lookup" where
  "memtable_get sm mt k =
     (case sm_get sm (mt_map mt) k of
        None \<Rightarrow> Missing
      | Some e \<Rightarrow> (case e_op e of Put \<Rightarrow> Found (e_value e) | Delete \<Rightarrow> Deleted))"

definition memtable_len :: "'m skipmap_api \<Rightarrow> 'm memtable \<Rightarrow> nat" where
  "memtable_len sm mt = sm_len sm (mt_map mt)"

definition memtable_is_empty :: "'m skipmap_api \<Rightarrow> 'm memtable \<Rightarrow> bool" where
  "memtable_is_empty sm mt = sm_is_empty sm (mt_map mt)"

definition memtable_iter :: "'m skipmap_api \<Rightarrow> 'm memtable \<Rightarrow> (bytes \<times> entry) list" where
  "memtable_iter sm mt = sm_iter sm (mt_map mt)"

section \<open>The set of memtables\<close>

type_synonym 'm arc = "nat \<times> 'm memtable"

record 'm memtable_set =
  ms_active :: "'m arc"
  ms_frozen :: "'m arc list"
  ms_max_bytes :: u64
  ms_max_frozen :: nat
  ms_next :: nat

definition memtable_set_new :: "'m skipmap_api \<Rightarrow> u64 \<Rightarrow> nat \<Rightarrow> 'm memtable_set res" where
  "memtable_set_new sm max_bytes max_frozen =
     (if 0 < max_frozen
      then Ok \<lparr>ms_active = (0, memtable_new sm), ms_frozen = [], ms_max_bytes = max_bytes,
               ms_max_frozen = max_frozen, ms_next = 1\<rparr>
      else Panic ''max_frozen must leave room for one flush'')"

definition set_insert :: "'m skipmap_api \<Rightarrow> wrecord \<Rightarrow> 'm memtable_set \<Rightarrow> 'm memtable_set" where
  "set_insert sm r s = s\<lparr>ms_active := (fst (ms_active s), memtable_insert sm r (snd (ms_active s)))\<rparr>"

text \<open>The loop over the frozen memtables, newest first.\<close>

fun get_frozen :: "'m skipmap_api \<Rightarrow> 'm arc list \<Rightarrow> bytes \<Rightarrow> lookup" where
  "get_frozen sm [] k = Missing"
| "get_frozen sm (mt # mts) k =
     (case memtable_get sm (snd mt) k of Missing \<Rightarrow> get_frozen sm mts k | hit \<Rightarrow> hit)"

definition set_get :: "'m skipmap_api \<Rightarrow> 'm memtable_set \<Rightarrow> bytes \<Rightarrow> lookup" where
  "set_get sm s k =
     (case memtable_get sm (snd (ms_active s)) k of
        Missing \<Rightarrow> get_frozen sm (rev (ms_frozen s)) k
      | hit \<Rightarrow> hit)"

definition should_freeze :: "'m memtable_set \<Rightarrow> bool" where
  "should_freeze s \<longleftrightarrow> ms_max_bytes s \<le> mt_approx_bytes (snd (ms_active s))"

definition stalled :: "'m memtable_set \<Rightarrow> bool" where
  "stalled s \<longleftrightarrow> ms_max_frozen s \<le> length (ms_frozen s)"

definition freeze :: "'m skipmap_api \<Rightarrow> 'm memtable_set \<Rightarrow> ('m memtable_set \<times> 'm arc option) res" where
  "freeze sm s =
     (if ms_max_frozen s \<le> length (ms_frozen s) then Err (WriteStalled (length (ms_frozen s)))
      else if memtable_is_empty sm (snd (ms_active s)) then Ok (s, None)
      else
        let frozen = ms_active s
        in Ok (s\<lparr>ms_active := (ms_next s, memtable_new sm),
                 ms_frozen := ms_frozen s @ [frozen],
                 ms_next := Suc (ms_next s)\<rparr>, Some frozen))"

definition retire :: "'m arc \<Rightarrow> 'm memtable_set \<Rightarrow> 'm memtable_set" where
  "retire flushed s = s\<lparr>ms_frozen := filter (\<lambda>mt. fst mt \<noteq> fst flushed) (ms_frozen s)\<rparr>"

definition frozen_count :: "'m memtable_set \<Rightarrow> nat" where
  "frozen_count s = length (ms_frozen s)"

definition set_approx_bytes :: "'m memtable_set \<Rightarrow> u64" where
  "set_approx_bytes s =
     mt_approx_bytes (snd (ms_active s)) + sum_list (map (mt_approx_bytes \<circ> snd) (ms_frozen s))"

section \<open>Levels\<close>

text \<open>
  What a level knows is a partial map from keys to the last operation on them. \<open>lookup_of\<close> is the
  answer a level gives from that knowledge: a tombstone is an answer, an absent key is not.
\<close>

type_synonym view = "bytes \<rightharpoonup> op \<times> bytes"

definition lookup_of :: "(op \<times> bytes) option \<Rightarrow> lookup" where
  "lookup_of x =
     (case x of None \<Rightarrow> Missing | Some (Put, v) \<Rightarrow> Found v | Some (Delete, _) \<Rightarrow> Deleted)"

definition or_else :: "lookup \<Rightarrow> lookup \<Rightarrow> lookup" where
  "or_else a b = (case a of Missing \<Rightarrow> b | hit \<Rightarrow> hit)"

lemma lookup_of_simps [simp, level_simps]:
  "lookup_of None = Missing"
  "lookup_of (Some (Put, v)) = Found v"
  "lookup_of (Some (Delete, v)) = Deleted"
  by (simp_all add: lookup_of_def)

lemma lookup_of_Missing [simp]: "lookup_of x = Missing \<longleftrightarrow> x = None"
  by (auto simp: lookup_of_def split: option.splits op.splits)

lemma lookup_of_map_add [level_simps]:
  "lookup_of ((older ++ newer) k) = or_else (lookup_of (newer k)) (lookup_of (older k))"
  by (cases "newer k") (auto simp: or_else_def map_add_def lookup_of_def split: option.splits op.splits)

text \<open>
  The contract every level of the store has: its \<open>get\<close> answers from its view. Stacking levels
  then stacks views, newest on the right.
\<close>

locale level =
  fixes level_get :: "'s \<Rightarrow> bytes \<Rightarrow> lookup"
    and level_view :: "'s \<Rightarrow> view"
  assumes get_view: "level_get s k = lookup_of (level_view s k)"
begin

lemma missing_falls_through:
  "or_else (level_get s k) (lookup_of (older k)) = lookup_of ((older ++ level_view s) k)"
  by (simp add: get_view lookup_of_map_add)

lemma tombstone_answers: "level_view s k = Some (Delete, v) \<Longrightarrow> or_else (level_get s k) below = Deleted"
  by (simp add: get_view or_else_def)

fun stack_get :: "'s list \<Rightarrow> bytes \<Rightarrow> lookup" where
  "stack_get [] k = Missing"
| "stack_get (s # ss) k = or_else (level_get s k) (stack_get ss k)"

fun stack_view :: "'s list \<Rightarrow> view" where
  "stack_view [] = Map.empty"
| "stack_view (s # ss) = stack_view ss ++ level_view s"

lemma stack_get_view: "stack_get ss k = lookup_of (stack_view ss k)"
  by (induction ss) (simp_all add: missing_falls_through)

end

section \<open>The skip map's contract\<close>

locale skipmap =
  fixes sm :: "'m skipmap_api"
  assumes iter_new: "sm_iter sm (sm_new sm) = []"
    and iter_sorted: "sorted_wrt (<) (map fst (sm_iter sm m))"
    and get_iter: "sm_get sm m k = map_of (sm_iter sm m) k"
    and insert_iter: "map_of (sm_iter sm (sm_compare_insert sm m k e p)) =
          (case map_of (sm_iter sm m) k of
             None \<Rightarrow> (map_of (sm_iter sm m))(k \<mapsto> e)
           | Some e0 \<Rightarrow> if p e0 then (map_of (sm_iter sm m))(k \<mapsto> e) else map_of (sm_iter sm m))"
    and len_iter: "sm_len sm m = length (sm_iter sm m)"
    and is_empty_iter: "sm_is_empty sm m \<longleftrightarrow> sm_iter sm m = []"

text \<open>The record a memtable must hold for each key: the one of the highest sequence number.\<close>

definition entry_of :: "wrecord \<Rightarrow> entry" where
  "entry_of r = \<lparr>e_lsn = r_lsn r, e_op = r_op r, e_value = r_value r\<rparr>"

definition upsert :: "wrecord \<Rightarrow> (bytes \<rightharpoonup> entry) \<Rightarrow> (bytes \<rightharpoonup> entry)" where
  "upsert r m =
     (case m (r_key r) of
        None \<Rightarrow> m(r_key r \<mapsto> entry_of r)
      | Some e0 \<Rightarrow> if e_lsn e0 < r_lsn r then m(r_key r \<mapsto> entry_of r) else m)"

definition newest :: "wrecord list \<Rightarrow> bytes \<rightharpoonup> entry" where
  "newest rs = fold upsert rs Map.empty"

definition winner :: "wrecord list \<Rightarrow> bytes \<Rightarrow> wrecord \<Rightarrow> bool" where
  "winner rs k r \<longleftrightarrow>
     r \<in> set rs \<and> r_key r = k \<and> (\<forall>r' \<in> set rs. r_key r' = k \<longrightarrow> r_lsn r' \<le> r_lsn r)"

text \<open>Applying records in log order: the specification of the store as a map.\<close>

definition apply_rec :: "wrecord \<Rightarrow> view \<Rightarrow> view" where
  "apply_rec r m = m(r_key r \<mapsto> (r_op r, r_value r))"

definition apply_log :: "wrecord list \<Rightarrow> view" where
  "apply_log rs = fold apply_rec rs Map.empty"

lemma newest_snoc [simp]: "newest (rs @ [r]) = upsert r (newest rs)"
  by (simp add: newest_def)

lemma newest_Nil [simp]: "newest [] = Map.empty"
  by (simp add: newest_def)

lemma apply_log_simps [simp, level_simps]:
  "apply_log [] = Map.empty"
  "apply_log (rs @ [r]) = (apply_log rs)(r_key r \<mapsto> (r_op r, r_value r))"
  by (simp_all add: apply_log_def apply_rec_def)

lemma newest_None: "newest rs k = None \<longleftrightarrow> k \<notin> r_key ` set rs"
  by (induction rs rule: rev_induct) (auto simp: upsert_def split: option.splits)

lemma newest_winner:
  "newest rs k = Some e \<Longrightarrow> \<exists>r. winner rs k r \<and> e = entry_of r"
proof (induction rs arbitrary: e rule: rev_induct)
  case Nil
  then show ?case by simp
next
  case (snoc r rs)
  consider (other) "r_key r \<noteq> k" | (first) "r_key r = k" "newest rs k = None"
    | (clash) e0 where "r_key r = k" "newest rs k = Some e0" by blast
  then show ?case
  proof cases
    case other
    with snoc.prems have "newest rs k = Some e" by (auto simp: upsert_def split: option.splits if_splits)
    from snoc.IH [OF this] other show ?thesis by (force simp: winner_def)
  next
    case first
    from first(2) have "k \<notin> r_key ` set rs" by (simp add: newest_None)
    with first(1) have "winner (rs @ [r]) k r" by (auto simp: winner_def image_iff)
    moreover have "e = entry_of r" using first snoc.prems by (simp add: upsert_def)
    ultimately show ?thesis by blast
  next
    case clash
    from snoc.IH [OF clash(2)] obtain r0 where r0: "winner rs k r0" "e0 = entry_of r0" by blast
    show ?thesis
    proof (cases "r_lsn r0 < r_lsn r")
      case True
      with snoc.prems clash r0 have "e = entry_of r" by (simp add: upsert_def entry_of_def)
      moreover have "winner (rs @ [r]) k r"
        using True r0(1) clash(1) by (auto simp: winner_def intro: order_trans less_imp_le)
      ultimately show ?thesis by blast
    next
      case False
      with snoc.prems clash r0 have "e = entry_of r0" by (simp add: upsert_def entry_of_def)
      moreover have "winner (rs @ [r]) k r0" using False r0(1) by (auto simp: winner_def)
      ultimately show ?thesis by blast
    qed
  qed
qed

lemma winner_unique:
  "distinct (map r_lsn rs) \<Longrightarrow> winner rs k r \<Longrightarrow> winner rs k r' \<Longrightarrow> r = r'"
  unfolding winner_def distinct_map by (metis inj_onD order_antisym)

lemma newest_perm:
  assumes "mset rs = mset rs'" and "distinct (map r_lsn rs)"
  shows "newest rs = newest rs'"
proof
  fix k
  have st: "set rs = set rs'" using assms(1) by (rule mset_eq_setD)
  show "newest rs k = newest rs' k"
  proof (cases "newest rs k")
    case None
    then show ?thesis using st by (metis newest_None)
  next
    case (Some e)
    then obtain e' where e': "newest rs' k = Some e'" using st newest_None by (metis not_Some_eq option.distinct(1))
    from newest_winner [OF Some] newest_winner [OF e'] obtain r r'
      where "winner rs k r" "e = entry_of r" "winner rs' k r'" "e' = entry_of r'" by blast
    moreover have "winner rs' k = winner rs k" using st by (simp add: winner_def fun_eq_iff)
    ultimately show ?thesis using Some e' winner_unique [OF assms(2)] by metis
  qed
qed

lemma newest_apply_log:
  assumes "sorted_wrt (<) (map r_lsn rs)"
  shows "map_option (\<lambda>e. (e_op e, e_value e)) (newest rs k) = apply_log rs k"
  using assms
proof (induction rs rule: rev_induct)
  case Nil
  then show ?case by simp
next
  case (snoc r rs)
  have "e_lsn e0 < r_lsn r" if "newest rs (r_key r) = Some e0" for e0
    using newest_winner [OF that] snoc.prems by (auto simp: winner_def entry_of_def sorted_wrt_append)
  then show ?case
    using snoc by (auto simp: upsert_def entry_of_def sorted_wrt_append split: option.splits)
qed

section \<open>Memtables over the skip map\<close>

definition mt_of :: "'m skipmap_api \<Rightarrow> wrecord list \<Rightarrow> 'm memtable" where
  "mt_of sm rs = fold (memtable_insert sm) rs (memtable_new sm)"

definition mt_view :: "'m skipmap_api \<Rightarrow> 'm memtable \<Rightarrow> view" where
  "mt_view sm mt k = map_option (\<lambda>e. (e_op e, e_value e)) (map_of (sm_iter sm (mt_map mt)) k)"

definition set_view :: "'m skipmap_api \<Rightarrow> 'm memtable_set \<Rightarrow> view" where
  "set_view sm s =
     foldl (++) Map.empty (map (mt_view sm \<circ> snd) (ms_frozen s)) ++ mt_view sm (snd (ms_active s))"

lemma mt_of_simps [simp]:
  "mt_of sm [] = memtable_new sm"
  "mt_of sm (rs @ [r]) = memtable_insert sm r (mt_of sm rs)"
  by (simp_all add: mt_of_def)

lemma mt_of_max_lsn [simp]: "mt_max_lsn (mt_of sm rs) = lsn_max rs"
  by (induction rs rule: rev_induct) (simp_all add: memtable_new_def memtable_insert_def Let_def max.commute)

lemma mt_of_approx_bytes: "mt_approx_bytes (mt_of sm rs) = sum_list (map heap_size rs)"
  by (induction rs rule: rev_induct) (simp_all add: memtable_new_def memtable_insert_def Let_def)

text \<open>A memtable that received some records, in any order.\<close>

definition mt_holds :: "'m skipmap_api \<Rightarrow> 'm memtable \<Rightarrow> wrecord list \<Rightarrow> bool" where
  "mt_holds sm m rs \<longleftrightarrow> (\<exists>rs'. mset rs' = mset rs \<and> m = mt_of sm rs')"

lemma mt_holds_of: "mset rs' = mset rs \<Longrightarrow> mt_holds sm (mt_of sm rs') rs"
  by (auto simp: mt_holds_def)

lemma mt_holds_new [simp]: "mt_holds sm (memtable_new sm) []"
  using mt_holds_of [of "[]" "[]" sm] by simp

lemma mt_holds_insert: "mt_holds sm m rs \<Longrightarrow> mt_holds sm (memtable_insert sm r m) (rs @ [r])"
  unfolding mt_holds_def by (metis mset_append mt_of_simps(2))

lemma mt_holds_fold: "mt_holds sm m rs \<Longrightarrow> mset (rs @ xs) = mset ys \<Longrightarrow> mt_holds sm (fold (memtable_insert sm) xs m) ys"
  unfolding mt_holds_def mt_of_def by (metis comp_apply fold_append mset_append)

lemma mt_holds_max_lsn: "mt_holds sm m rs \<Longrightarrow> mt_max_lsn m = lsn_max rs"
  by (auto simp: mt_holds_def intro: lsn_max_perm)

lemma mt_holds_approx_bytes: "mt_holds sm m rs \<Longrightarrow> mt_approx_bytes m = sum_list (map heap_size rs)"
  unfolding mt_holds_def by (metis mset_map mt_of_approx_bytes sum_mset_sum_list)

lemma mt_holds_Nil: "mt_holds sm m [] \<Longrightarrow> m = memtable_new sm"
  by (auto simp: mt_holds_def)

context skipmap
begin

lemma memtable_level: "level (memtable_get sm) (mt_view sm)"
  by unfold_locales
    (auto simp: memtable_get_def mt_view_def get_iter lookup_of_def split: option.splits op.splits)

lemma mt_of_iter: "map_of (sm_iter sm (mt_map (mt_of sm rs))) = newest rs"
proof (induction rs rule: rev_induct)
  case Nil
  then show ?case by (simp add: memtable_new_def iter_new)
next
  case (snoc r rs)
  then show ?case
    by (auto simp: memtable_insert_def insert_iter upsert_def entry_of_def Let_def split: option.splits)
qed

lemma mt_of_view: "mt_view sm (mt_of sm rs) k = map_option (\<lambda>e. (e_op e, e_value e)) (newest rs k)"
  by (simp add: mt_view_def mt_of_iter)

lemma mt_of_view_sorted: "sorted_wrt (<) (map r_lsn rs) \<Longrightarrow> mt_view sm (mt_of sm rs) = apply_log rs"
  by (simp add: fun_eq_iff mt_of_view newest_apply_log)

lemma mt_of_is_empty: "memtable_is_empty sm (mt_of sm rs) \<longleftrightarrow> rs = []"
proof -
  have "memtable_is_empty sm (mt_of sm rs) \<longleftrightarrow> newest rs = Map.empty"
    by (simp add: memtable_is_empty_def is_empty_iter flip: mt_of_iter)
  also have "\<dots> \<longleftrightarrow> rs = []" by (cases rs) (auto simp: fun_eq_iff newest_None)
  finally show ?thesis .
qed

lemma mt_holds_is_empty: "mt_holds sm m rs \<Longrightarrow> memtable_is_empty sm m \<longleftrightarrow> rs = []"
  unfolding mt_holds_def by (metis mset_zero_iff mt_of_is_empty)

lemma mt_holds_newest: "mt_holds sm m rs \<Longrightarrow> sorted_wrt (<) (map r_lsn rs) \<Longrightarrow> map_of (sm_iter sm (mt_map m)) = newest rs"
  unfolding mt_holds_def strict_sorted_iff using mt_of_iter newest_perm by metis

lemma mt_holds_view: "mt_holds sm m rs \<Longrightarrow> sorted_wrt (<) (map r_lsn rs) \<Longrightarrow> mt_view sm m = apply_log rs"
  by (simp add: fun_eq_iff mt_view_def mt_holds_newest newest_apply_log)

lemma iter_unique: "map_of (sm_iter sm m) = map_of (sm_iter sm m') \<Longrightarrow> sm_iter sm m = sm_iter sm m'"
  using iter_sorted [of m] iter_sorted [of m']
  by (intro sorted_map_unique [of fst]) (auto simp: strict_sorted_iff map_of_inject_set)

lemma get_frozen_view: "get_frozen sm mts k = lookup_of (foldl (++) Map.empty (map (mt_view sm \<circ> snd) (rev mts)) k)"
proof (induction mts)
  case Nil
  then show ?case by simp
next
  case (Cons mt mts)
  have "get_frozen sm (mt # mts) k = or_else (memtable_get sm (snd mt) k) (get_frozen sm mts k)"
    by (auto simp: or_else_def split: lookup.splits)
  then show ?case by (simp add: Cons level.missing_falls_through [OF memtable_level])
qed

lemma set_level: "level (set_get sm) (set_view sm)"
proof
  fix s k
  have "set_get sm s k = or_else (memtable_get sm (snd (ms_active s)) k) (get_frozen sm (rev (ms_frozen s)) k)"
    by (auto simp: set_get_def or_else_def split: lookup.splits)
  then show "set_get sm s k = lookup_of (set_view sm s k)"
    by (simp add: get_frozen_view level.missing_falls_through [OF memtable_level] set_view_def)
qed

lemma set_insert_view:
  assumes "snd (ms_active s) = mt_of sm rs" and "sorted_wrt (<) (map r_lsn (rs @ [r]))"
  shows "set_view sm (set_insert sm r s) = (set_view sm s)(r_key r \<mapsto> (r_op r, r_value r))"
proof -
  have "mt_view sm (memtable_insert sm r (mt_of sm rs)) = (mt_view sm (mt_of sm rs))(r_key r \<mapsto> (r_op r, r_value r))"
    using assms(2) mt_of_view_sorted [of "rs @ [r]"] mt_of_view_sorted [of rs]
    by (simp add: sorted_wrt_append)
  then show ?thesis using assms(1) by (simp add: set_view_def set_insert_def)
qed

lemma new_view: "mt_view sm (memtable_new sm) = Map.empty"
  by (simp add: fun_eq_iff mt_view_def memtable_new_def iter_new)

text \<open>Freezing moves a memtable and changes no answer.\<close>

lemma freeze_view: "freeze sm s = Ok (s', x) \<Longrightarrow> set_view sm s' = set_view sm s"
  by (auto simp: freeze_def Let_def set_view_def new_view split: if_splits)

end

section \<open>The queue of frozen memtables\<close>

text \<open>Addresses are distinct and below the next one; the queue respects its limit.\<close>

definition set_inv :: "'m memtable_set \<Rightarrow> bool" where
  "set_inv s \<longleftrightarrow>
     distinct (map fst (ms_frozen s @ [ms_active s])) \<and>
     (\<forall>mt \<in> set (ms_frozen s @ [ms_active s]). fst mt < ms_next s) \<and>
     length (ms_frozen s) \<le> ms_max_frozen s \<and> 0 < ms_max_frozen s"

lemma memtable_set_new_inv: "memtable_set_new sm b n = Ok s \<Longrightarrow> set_inv s"
  by (auto simp: memtable_set_new_def set_inv_def split: if_splits)

lemma set_insert_inv: "set_inv s \<Longrightarrow> set_inv (set_insert sm r s)"
  by (auto simp: set_inv_def set_insert_def)

lemma freeze_inv: "set_inv s \<Longrightarrow> freeze sm s = Ok (s', x) \<Longrightarrow> set_inv s'"
proof -
  assume inv: "set_inv s" and f: "freeze sm s = Ok (s', x)"
  from f consider "s' = s"
    | "s' = s\<lparr>ms_active := (ms_next s, memtable_new sm), ms_frozen := ms_frozen s @ [ms_active s],
          ms_next := Suc (ms_next s)\<rparr>" "length (ms_frozen s) < ms_max_frozen s"
    by (auto simp: freeze_def Let_def split: if_splits)
  then show ?thesis
  proof cases
    case 2
    have "\<forall>mt \<in> set (ms_frozen s @ [ms_active s]). fst mt < ms_next s" using inv by (simp add: set_inv_def)
    then have "ms_next s \<notin> fst ` set (ms_frozen s @ [ms_active s])" by (metis imageE less_irrefl)
    with inv 2 show ?thesis by (auto simp: set_inv_def less_Suc_eq)
  qed (use inv in simp)
qed

lemma retire_inv: "set_inv s \<Longrightarrow> set_inv (retire mt s)"
proof -
  assume inv: "set_inv s"
  let ?xs = "filter (\<lambda>x. fst x \<noteq> fst mt) (ms_frozen s)"
  have "length ?xs \<le> ms_max_frozen s"
    using inv by (intro le_trans [OF length_filter_le]) (simp add: set_inv_def)
  moreover have "distinct (map fst ?xs)" using inv by (simp add: set_inv_def distinct_map_filter)
  ultimately show ?thesis using inv by (auto simp: set_inv_def retire_def)
qed

lemma retire_oldest:
  assumes "set_inv s" and "ms_frozen s = mt # mts"
  shows "ms_frozen (retire mt s) = mts"
proof -
  have "filter (\<lambda>x. fst x \<noteq> fst mt) mts = mts"
    using assms by (auto simp: set_inv_def filter_id_conv image_iff)
  then show ?thesis using assms(2) by (simp add: retire_def)
qed

text \<open>
  Every operation on the set keeps the invariant, which is the contract the engine relies on.
\<close>

locale memtable_queue =
  fixes q_inv :: "'s \<Rightarrow> bool"
    and q_freeze :: "'s \<Rightarrow> ('s \<times> 'a option) res"
    and q_retire :: "'a \<Rightarrow> 's \<Rightarrow> 's"
    and q_frozen :: "'s \<Rightarrow> 'a list"
    and q_max :: "'s \<Rightarrow> nat"
  assumes freeze_keeps: "q_inv s \<Longrightarrow> q_freeze s = Ok (s', x) \<Longrightarrow> q_inv s'"
    and retire_keeps: "q_inv s \<Longrightarrow> q_inv (q_retire a s)"
    and freeze_queues: "q_freeze s = Ok (s', x) \<Longrightarrow>
          q_frozen s' = q_frozen s @ (case x of None \<Rightarrow> [] | Some a \<Rightarrow> [a]) \<and> q_max s' = q_max s"
    and freeze_full: "q_max s \<le> length (q_frozen s) \<Longrightarrow> q_freeze s = Err (WriteStalled (length (q_frozen s)))"
    and retire_undoes: "q_inv s \<Longrightarrow> q_frozen s = xs @ [a] \<Longrightarrow> q_frozen (q_retire a s) = xs"
    and inv_bounded: "q_inv s \<Longrightarrow> length (q_frozen s) \<le> q_max s"
begin

text \<open>A flush cycle, freezing and then retiring what was frozen, leaves the queue as it was.\<close>

lemma freeze_retire:
  assumes "q_inv s" and "q_freeze s = Ok (s', Some a)"
  shows "q_frozen (q_retire a s') = q_frozen s" and "q_inv (q_retire a s')"
  using freeze_queues [OF assms(2)] freeze_keeps [OF assms] by (auto intro: retire_undoes retire_keeps)

text \<open>Freezing without ever retiring comes to a stop, and the stop is a \<open>WriteStalled\<close>.\<close>

fun freeze_all :: "nat \<Rightarrow> 's \<Rightarrow> 's res" where
  "freeze_all 0 s = Ok s"
| "freeze_all (Suc n) s = bind_res (q_freeze s) (\<lambda>(s', _). freeze_all n s')"

lemma freeze_all_bounded: "q_inv s \<Longrightarrow> freeze_all n s = Ok s' \<Longrightarrow> q_inv s' \<and> length (q_frozen s') \<le> q_max s'"
  by (induction n arbitrary: s) (auto simp: bind_res_Ok_iff inv_bounded dest: freeze_keeps)

end

lemma retire_newest:
  assumes "set_inv s" and "ms_frozen s = mts @ [mt]"
  shows "ms_frozen (retire mt s) = mts"
proof -
  have "filter (\<lambda>x. fst x \<noteq> fst mt) mts = mts"
    using assms by (auto simp: set_inv_def filter_id_conv image_iff)
  then show ?thesis using assms(2) by (simp add: retire_def)
qed

interpretation mq: memtable_queue set_inv "freeze sm" retire ms_frozen ms_max_frozen
proof (unfold_locales, goal_cases)
  case (1 s s' x) then show ?case by (rule freeze_inv)
next
  case (2 s a) then show ?case by (rule retire_inv)
next
  case (3 s s' x) then show ?case by (auto simp: freeze_def Let_def split: if_splits)
next
  case (4 s) then show ?case by (simp add: freeze_def)
next
  case (5 s xs a) then show ?case by (rule retire_newest)
next
  case (6 s) then show ?case by (simp add: set_inv_def)
qed

section \<open>A concrete ordered map\<close>

text \<open>
  An association list, newest binding first, with the operations of the skip map: it shows that the
  contract can be met, and witnesses evaluate with it.
\<close>

definition alist_iter :: "(bytes \<times> entry) list \<Rightarrow> (bytes \<times> entry) list" where
  "alist_iter m = map (\<lambda>k. (k, the (map_of m k))) (sort (remdups (map fst m)))"

definition alist_map :: "(bytes \<times> entry) list skipmap_api" where
  "alist_map =
     \<lparr>sm_new = [],
      sm_compare_insert = (\<lambda>m k e p. case map_of m k of
          None \<Rightarrow> (k, e) # m
        | Some e0 \<Rightarrow> if p e0 then (k, e) # m else m),
      sm_get = map_of,
      sm_iter = alist_iter,
      sm_len = (\<lambda>m. length (remdups (map fst m))),
      sm_is_empty = (\<lambda>m. m = [])\<rparr>"

lemma map_of_alist_iter: "map_of (alist_iter m) = map_of m"
proof
  fix k
  have "map_of (map (\<lambda>k. (k, the (map_of m k))) ks) k = (if k \<in> set ks then Some (the (map_of m k)) else None)" for ks
    by (induction ks) auto
  then have "map_of (alist_iter m) k = (if k \<in> fst ` set m then Some (the (map_of m k)) else None)"
    by (simp add: alist_iter_def)
  also have "\<dots> = map_of m k" using map_of_eq_None_iff [of m k] by auto
  finally show "map_of (alist_iter m) k = map_of m k" .
qed

lemma keys_alist_iter: "map fst (alist_iter m) = sort (remdups (map fst m))"
  by (simp add: alist_iter_def comp_def)

interpretation am: skipmap alist_map
proof (unfold_locales, goal_cases)
  case 1
  then show ?case by (simp add: alist_map_def alist_iter_def)
next
  case (2 m)
  then show ?case by (simp add: alist_map_def keys_alist_iter strict_sorted_iff)
next
  case (3 m k)
  then show ?case by (simp add: alist_map_def map_of_alist_iter)
next
  case (4 m k e p)
  then show ?case by (auto simp: alist_map_def map_of_alist_iter split: option.splits)
next
  case (5 m)
  then show ?case by (simp add: alist_map_def alist_iter_def)
next
  case (6 m)
  then show ?case by (simp add: alist_map_def alist_iter_def) (metis length_0_conv length_sort remdups_eq_nil_iff map_is_Nil_conv)
qed

interpretation mt_level: level "memtable_get alist_map" "mt_view alist_map"
  by (rule am.memtable_level)

interpretation set_level: level "set_get alist_map" "set_view alist_map"
  by (rule am.set_level)

section \<open>Properties\<close>

text \<open>
  The order of sequence numbers wins, not the order of arrival: two memtables that received the
  same records in different orders answer every lookup alike, iterate alike, and report the same size
  and the same highest sequence number.
\<close>

theorem arrival_order_irrelevant:
  assumes "skipmap sm" and "mset rs = mset rs'" and "distinct (map r_lsn rs)"
  shows "memtable_get sm (mt_of sm rs) k = memtable_get sm (mt_of sm rs') k \<and>
         memtable_iter sm (mt_of sm rs) = memtable_iter sm (mt_of sm rs') \<and>
         mt_max_lsn (mt_of sm rs) = mt_max_lsn (mt_of sm rs') \<and>
         mt_approx_bytes (mt_of sm rs) = mt_approx_bytes (mt_of sm rs')"
proof -
  have same: "map_of (sm_iter sm (mt_map (mt_of sm rs))) = map_of (sm_iter sm (mt_map (mt_of sm rs')))"
    using newest_perm [OF assms(2,3)] by (simp add: skipmap.mt_of_iter [OF assms(1)])
  have "lsn_max rs = lsn_max rs'"
    using mset_eq_setD [OF assms(2)] by (intro order_antisym) (auto simp: lsn_max_le_iff intro: lsn_max_ge)
  moreover have "sum_list (map heap_size rs) = sum_list (map heap_size rs')"
    using assms(2) by (metis mset_map sum_mset_sum_list)
  ultimately show ?thesis
    using skipmap.iter_unique [OF assms(1) same] same
    by (simp add: memtable_get_def memtable_iter_def skipmap.get_iter [OF assms(1)] mt_of_approx_bytes)
qed

theorem arrival_order_irrelevant_witness:
  "memtable_get alist_map (mt_of alist_map [record_put [1] 2 [8], record_put [1] 1 [7]]) [1]
     = memtable_get alist_map (mt_of alist_map [record_put [1] 1 [7], record_put [1] 2 [8]]) [1] \<and>
   memtable_iter alist_map (mt_of alist_map [record_put [1] 2 [8], record_put [1] 1 [7]])
     = memtable_iter alist_map (mt_of alist_map [record_put [1] 1 [7], record_put [1] 2 [8]]) \<and>
   mt_max_lsn (mt_of alist_map [record_put [1] 2 [8], record_put [1] 1 [7]])
     = mt_max_lsn (mt_of alist_map [record_put [1] 1 [7], record_put [1] 2 [8]]) \<and>
   mt_approx_bytes (mt_of alist_map [record_put [1] 2 [8], record_put [1] 1 [7]])
     = mt_approx_bytes (mt_of alist_map [record_put [1] 1 [7], record_put [1] 2 [8]])"
  by (rule arrival_order_irrelevant [OF am.skipmap_axioms]) (simp_all add: record_put_def)

text \<open>
  A lookup in a memtable gives the value, or the tombstone, of the record with the highest
  sequence number among the records of that key, and misses exactly when there is none.
\<close>

theorem memtable_get_newest:
  assumes "skipmap sm"
  shows "(\<exists>r. winner rs k r \<and> memtable_get sm (mt_of sm rs) k
                 = (case r_op r of Put \<Rightarrow> Found (r_value r) | Delete \<Rightarrow> Deleted)) \<or>
         (memtable_get sm (mt_of sm rs) k = Missing \<and> k \<notin> r_key ` set rs)"
proof -
  have get: "memtable_get sm (mt_of sm rs) k
      = (case newest rs k of None \<Rightarrow> Missing | Some e \<Rightarrow> (case e_op e of Put \<Rightarrow> Found (e_value e) | Delete \<Rightarrow> Deleted))"
    by (simp add: memtable_get_def skipmap.get_iter [OF assms] skipmap.mt_of_iter [OF assms])
  show ?thesis
  proof (cases "newest rs k")
    case None
    with get have "memtable_get sm (mt_of sm rs) k = Missing" by simp
    with None show ?thesis by (simp add: newest_None)
  next
    case (Some e)
    from newest_winner [OF Some] obtain r where "winner rs k r" "e = entry_of r" by blast
    moreover from this get Some have "memtable_get sm (mt_of sm rs) k
        = (case r_op r of Put \<Rightarrow> Found (r_value r) | Delete \<Rightarrow> Deleted)"
      by (simp add: entry_of_def split: op.splits)
    ultimately show ?thesis by blast
  qed
qed

theorem memtable_get_newest_witness:
  "(\<exists>r. winner [record_put [1] 2 [8], record_put [1] 1 [7]] [1] r \<and>
        memtable_get alist_map (mt_of alist_map [record_put [1] 2 [8], record_put [1] 1 [7]]) [1]
          = (case r_op r of Put \<Rightarrow> Found (r_value r) | Delete \<Rightarrow> Deleted)) \<or>
   (memtable_get alist_map (mt_of alist_map [record_put [1] 2 [8], record_put [1] 1 [7]]) [1] = Missing \<and>
      [1] \<notin> r_key ` set [record_put [1] 2 [8], record_put [1] 1 [7]])"
  using am.skipmap_axioms by (rule memtable_get_newest)

text \<open>
  C25. Lookups through the set. The answer is that of the newest level that knows the key, a tombstone
  included; freezing the active memtable changes no answer, and a write in sequence order changes the
  answer for its own key only.
\<close>

theorem set_get_levels:
  assumes "skipmap sm"
  shows "set_get sm s k = lookup_of (set_view sm s k) \<and>
         (freeze sm s = Ok (s', x) \<longrightarrow> set_get sm s' k = set_get sm s k) \<and>
         (snd (ms_active s) = mt_of sm rs \<and> sorted_wrt (<) (map r_lsn (rs @ [r])) \<longrightarrow>
            set_get sm (set_insert sm r s) k =
              (if k = r_key r then (case r_op r of Put \<Rightarrow> Found (r_value r) | Delete \<Rightarrow> Deleted)
               else set_get sm s k))"
proof -
  note get = level.get_view [OF skipmap.set_level [OF assms]]
  have "lookup_of (Some (r_op r, r_value r)) = (case r_op r of Put \<Rightarrow> Found (r_value r) | Delete \<Rightarrow> Deleted)"
    by (cases "r_op r") simp_all
  then show ?thesis
    using skipmap.freeze_view [OF assms, of s s' x] skipmap.set_insert_view [OF assms, of s rs r]
    by (auto simp: get)
qed

theorem set_get_levels_witness:
  "set_get alist_map \<lparr>ms_active = (0, mt_of alist_map []), ms_frozen = [], ms_max_bytes = 9, ms_max_frozen = 1, ms_next = 1\<rparr> [1]
     = lookup_of (set_view alist_map \<lparr>ms_active = (0, mt_of alist_map []), ms_frozen = [], ms_max_bytes = 9,
         ms_max_frozen = 1, ms_next = 1\<rparr> [1]) \<and>
   set_get alist_map (set_insert alist_map (record_put [1] 5 [6])
       \<lparr>ms_active = (0, mt_of alist_map []), ms_frozen = [], ms_max_bytes = 9, ms_max_frozen = 1, ms_next = 1\<rparr>) [1] = Found [6]"
  using set_get_levels [OF am.skipmap_axioms, of
      "\<lparr>ms_active = (0, mt_of alist_map []), ms_frozen = [], ms_max_bytes = 9, ms_max_frozen = 1, ms_next = 1\<rparr>"
      "[1]" _ _ "[]" "record_put [1] 5 [6]"]
  by (simp add: record_put_def)

text \<open>
  C26. The queue of frozen memtables. Its length never exceeds the limit and its addresses stay
  distinct, whatever operation runs; a full queue makes \<open>freeze\<close> fail with the length of the queue and
  leaves everything as it was; and retiring what was just frozen gives the old queue back.
\<close>

theorem queue_bounded:
  assumes "set_inv s"
  shows "length (ms_frozen s) \<le> ms_max_frozen s \<and> set_inv (set_insert sm r s) \<and> set_inv (retire mt s) \<and>
         (stalled s \<longleftrightarrow> freeze sm s = Err (WriteStalled (frozen_count s))) \<and>
         (\<forall>s' x. freeze sm s = Ok (s', x) \<longrightarrow> set_inv s' \<and>
            (case x of None \<Rightarrow> s' = s
             | Some frozen \<Rightarrow> frozen = ms_active s \<and> frozen_count s' = frozen_count s + 1 \<and>
                 ms_frozen (retire frozen s') = ms_frozen s))"
proof -
  have some: "frozen = ms_active s \<and> frozen_count s' = frozen_count s + 1 \<and>
        ms_frozen (retire frozen s') = ms_frozen s"
    if f: "freeze sm s = Ok (s', Some frozen)" for s' frozen
  proof -
    have "frozen = ms_active s" using f by (auto simp: freeze_def Let_def split: if_splits)
    with mq.freeze_retire(1) [OF assms f] mq.freeze_queues [OF f] show ?thesis
      by (simp add: frozen_count_def)
  qed
  have none: "s' = s" if "freeze sm s = Ok (s', None)" for s'
    using that by (auto simp: freeze_def Let_def split: if_splits)
  have "stalled s \<longleftrightarrow> freeze sm s = Err (WriteStalled (frozen_count s))"
    by (simp add: stalled_def freeze_def frozen_count_def Let_def)
  moreover have "set_inv s' \<and> (case x of None \<Rightarrow> s' = s
      | Some frozen \<Rightarrow> frozen = ms_active s \<and> frozen_count s' = frozen_count s + 1 \<and>
          ms_frozen (retire frozen s') = ms_frozen s)" if f: "freeze sm s = Ok (s', x)" for s' x
    using freeze_inv [OF assms f] none some f by (cases x) auto
  ultimately show ?thesis
    using mq.inv_bounded [OF assms] set_insert_inv [OF assms] retire_inv [OF assms] by blast
qed

theorem queue_bounded_witness:
  "set_inv (retire (3, memtable_new alist_map) \<lparr>ms_active = (0, memtable_new alist_map), ms_frozen = [], ms_max_bytes = 9,
     ms_max_frozen = 1, ms_next = 1\<rparr>)"
  using queue_bounded [of "\<lparr>ms_active = (0, memtable_new alist_map), ms_frozen = [], ms_max_bytes = 9, ms_max_frozen = 1, ms_next = 1\<rparr>"
      alist_map]
  by (simp add: set_inv_def)

end
