(* ===== verification/Latency_Shim.thy ===== *)
theory Latency_Shim
  imports HG_Prelude
begin

text \<open>
  The latency shim around the object store, from \<^verbatim>\<open>src/src/store/latency.rs\<close>: the latency of one class
  of operation, the profile, the counters, and \<open>LatencyStore\<close> with every method it intercepts.

  A \<open>Duration\<close> is a number of nanoseconds. Floating-point numbers are a type \<open>'f\<close> with the operations
  of \<open>f64_ops\<close>, an argument: nothing here depends on their rounding. The random numbers are read off a
  tape, and a state holds the position reached. The wrapped store is an argument too: a function from
  requests and its own state to responses.

  Shown: the shim changes no answer and no state of the store it wraps; every method counts once, in
  its own class, and adds exactly its own delay; a profile of zeros adds none and draws no random
  number; \<open>charge_for\<close> adds one independent draw per operation.
\<close>

section \<open>Floating point and randomness\<close>

type_synonym duration = nat

definition from_millis :: "u64 \<Rightarrow> duration" where
  "from_millis ms = unat ms * 1000000"

record 'f f64_ops =
  f_secs :: "duration \<Rightarrow> 'f"
  f_div :: "'f \<Rightarrow> 'f \<Rightarrow> 'f"
  f_mul :: "'f \<Rightarrow> 'f \<Rightarrow> 'f"
  f_gt_one :: "'f \<Rightarrow> bool"
  f_is_zero :: "'f \<Rightarrow> bool"
  f_ln :: "'f \<Rightarrow> 'f"
  f_exp :: "'f \<Rightarrow> 'f"
  f_sqrt :: "'f \<Rightarrow> 'f"
  f_cos :: "'f \<Rightarrow> 'f"
  f_zero :: 'f
  f_minus_two :: 'f
  f_tau :: 'f
  f_z99 :: 'f
  dur_mul_f64 :: "duration \<Rightarrow> 'f \<Rightarrow> duration"

type_synonym 'f tape = "nat \<Rightarrow> 'f \<times> 'f"

section \<open>One class of operation\<close>

record 'f op_latency =
  median :: duration
  sigma :: 'f

definition op_zero :: "'f f64_ops \<Rightarrow> 'f op_latency" where
  "op_zero F = \<lparr>median = 0, sigma = f_zero F\<rparr>"

definition from_p50_p99 :: "'f f64_ops \<Rightarrow> duration \<Rightarrow> duration \<Rightarrow> 'f op_latency" where
  "from_p50_p99 F p50 p99 =
     (if p50 = 0 then op_zero F
      else
        let ratio = f_div F (f_secs F p99) (f_secs F p50);
            s = (if f_gt_one F ratio then f_div F (f_ln F ratio) (f_z99 F) else f_zero F)
        in \<lparr>median = p50, sigma = s\<rparr>)"

definition op_fixed :: "'f f64_ops \<Rightarrow> duration \<Rightarrow> 'f op_latency" where
  "op_fixed F d = \<lparr>median = d, sigma = f_zero F\<rparr>"

definition op_is_zero :: "'f op_latency \<Rightarrow> bool" where
  "op_is_zero x \<longleftrightarrow> median x = 0"

definition standard_normal :: "'f f64_ops \<Rightarrow> 'f \<Rightarrow> 'f \<Rightarrow> 'f" where
  "standard_normal F u1 u2 =
     f_mul F (f_sqrt F (f_mul F (f_minus_two F) (f_ln F u1))) (f_cos F (f_mul F (f_tau F) u2))"

definition draw :: "'f f64_ops \<Rightarrow> 'f tape \<Rightarrow> 'f op_latency \<Rightarrow> nat \<Rightarrow> duration \<times> nat" where
  "draw F tape x pos =
     (if median x = 0 then (0, pos)
      else if f_is_zero F (sigma x) then (median x, pos)
      else
        let (u1, u2) = tape pos
        in (dur_mul_f64 F (median x) (f_exp F (f_mul F (sigma x) (standard_normal F u1 u2))), Suc pos))"

section \<open>Profiles\<close>

record 'f latency_profile =
  lp_get :: "'f op_latency"
  lp_put :: "'f op_latency"
  lp_list :: "'f op_latency"
  lp_delete :: "'f op_latency"

definition profile_none :: "'f f64_ops \<Rightarrow> 'f latency_profile" where
  "profile_none F = \<lparr>lp_get = op_zero F, lp_put = op_zero F, lp_list = op_zero F, lp_delete = op_zero F\<rparr>"

definition s3_same_region :: "'f f64_ops \<Rightarrow> 'f latency_profile" where
  "s3_same_region F =
     \<lparr>lp_get = from_p50_p99 F (from_millis 26) (from_millis 86),
      lp_put = from_p50_p99 F (from_millis 70) (from_millis 137),
      lp_list = from_p50_p99 F (from_millis 40) (from_millis 120),
      lp_delete = from_p50_p99 F (from_millis 50) (from_millis 100)\<rparr>"

definition s3_express :: "'f f64_ops \<Rightarrow> 'f latency_profile" where
  "s3_express F =
     \<lparr>lp_get = from_p50_p99 F (from_millis 3) (from_millis 15),
      lp_put = from_p50_p99 F (from_millis 5) (from_millis 20),
      lp_list = from_p50_p99 F (from_millis 5) (from_millis 20),
      lp_delete = from_p50_p99 F (from_millis 5) (from_millis 20)\<rparr>"

definition profile_is_zero :: "'f latency_profile \<Rightarrow> bool" where
  "profile_is_zero p \<longleftrightarrow>
     op_is_zero (lp_get p) \<and> op_is_zero (lp_put p) \<and> op_is_zero (lp_list p) \<and> op_is_zero (lp_delete p)"

fun draw_many :: "'f f64_ops \<Rightarrow> 'f tape \<Rightarrow> 'f op_latency \<Rightarrow> nat \<Rightarrow> duration \<times> nat \<Rightarrow> duration \<times> nat" where
  "draw_many F tape x 0 acc = acc"
| "draw_many F tape x (Suc n) acc =
     (let (d, pos) = draw F tape x (snd acc) in draw_many F tape x n (fst acc + d, pos))"

definition charge_for :: "'f f64_ops \<Rightarrow> 'f tape \<Rightarrow> 'f latency_profile \<Rightarrow> u32 \<Rightarrow> u32 \<Rightarrow> nat \<Rightarrow> duration \<times> nat" where
  "charge_for F tape p puts gets pos =
     draw_many F tape (lp_get p) (unat gets) (draw_many F tape (lp_put p) (unat puts) (0, pos))"

section \<open>Counters\<close>

record stats =
  st_gets :: u64
  st_puts :: u64
  st_lists :: u64
  st_deletes :: u64
  injected_micros :: u64

record stats_snapshot =
  sn_gets :: u64
  sn_puts :: u64
  sn_lists :: u64
  sn_deletes :: u64
  sn_injected :: duration

definition snapshot :: "stats \<Rightarrow> stats_snapshot" where
  "snapshot s =
     \<lparr>sn_gets = st_gets s, sn_puts = st_puts s, sn_lists = st_lists s, sn_deletes = st_deletes s,
      sn_injected = unat (injected_micros s) * 1000\<rparr>"

datatype counter = Gets | Puts | Lists | Deletes

fun bump :: "counter \<Rightarrow> stats \<Rightarrow> stats" where
  "bump Gets s = s\<lparr>st_gets := st_gets s + 1\<rparr>"
| "bump Puts s = s\<lparr>st_puts := st_puts s + 1\<rparr>"
| "bump Lists s = s\<lparr>st_lists := st_lists s + 1\<rparr>"
| "bump Deletes s = s\<lparr>st_deletes := st_deletes s + 1\<rparr>"

definition charge_stats :: "counter \<Rightarrow> duration \<Rightarrow> stats \<Rightarrow> stats" where
  "charge_stats c d s =
     (let s1 = bump c s in s1\<lparr>injected_micros := injected_micros s1 + of_nat (d div 1000)\<rparr>)"

section \<open>The wrapped store\<close>

type_synonym range = "u64 \<times> u64"

datatype 'p request =
    PutOpts string 'p
  | PutMultipartOpts string 'p
  | GetOpts string 'p
  | GetRanges string "range list"
  | Head string
  | DeleteObject string
  | ListObjects "string option"
  | ListWithDelimiter "string option"
  | Copy string string
  | CopyIfNotExists string string

type_synonym ('s, 'p, 'r) object_store = "'p request \<Rightarrow> 's \<Rightarrow> 'r \<times> 's"

record ('f, 's, 'p, 'r) latency_store =
  ls_inner :: "('s, 'p, 'r) object_store"
  ls_profile :: "'f latency_profile"
  ls_state :: 's
  ls_stats :: stats
  ls_pos :: nat

definition latency_store_new ::
    "('s, 'p, 'r) object_store \<Rightarrow> 's \<Rightarrow> 'f latency_profile \<Rightarrow> ('f, 's, 'p, 'r) latency_store" where
  "latency_store_new inner s p =
     \<lparr>ls_inner = inner, ls_profile = p, ls_state = s,
      ls_stats = \<lparr>st_gets = 0, st_puts = 0, st_lists = 0, st_deletes = 0, injected_micros = 0\<rparr>, ls_pos = 0\<rparr>"

definition delay ::
    "'f f64_ops \<Rightarrow> 'f tape \<Rightarrow> 'f op_latency \<Rightarrow> counter \<Rightarrow> ('f, 's, 'p, 'r) latency_store \<Rightarrow> ('f, 's, 'p, 'r) latency_store" where
  "delay F tape x c ls =
     (let (d, pos) = draw F tape x (ls_pos ls)
      in ls\<lparr>ls_stats := charge_stats c d (ls_stats ls), ls_pos := pos\<rparr>)"

definition on_get ::
    "'f f64_ops \<Rightarrow> 'f tape \<Rightarrow> ('f, 's, 'p, 'r) latency_store \<Rightarrow> ('f, 's, 'p, 'r) latency_store" where
  "on_get F tape ls = delay F tape (lp_get (ls_profile ls)) Gets ls"

definition on_put ::
    "'f f64_ops \<Rightarrow> 'f tape \<Rightarrow> ('f, 's, 'p, 'r) latency_store \<Rightarrow> ('f, 's, 'p, 'r) latency_store" where
  "on_put F tape ls = delay F tape (lp_put (ls_profile ls)) Puts ls"

definition call_inner :: "'p request \<Rightarrow> ('f, 's, 'p, 'r) latency_store \<Rightarrow> 'r \<times> ('f, 's, 'p, 'r) latency_store" where
  "call_inner q ls = (let (r, s) = ls_inner ls q (ls_state ls) in (r, ls\<lparr>ls_state := s\<rparr>))"

text \<open>
  The methods of \<open>impl ObjectStore for LatencyStore\<close>, one equation each. \<open>list\<close> asks the inner store
  for the stream first, charges, and pays before the first item; the others pay first.
\<close>

fun latency_call ::
    "'f f64_ops \<Rightarrow> 'f tape \<Rightarrow> 'p request \<Rightarrow> ('f, 's, 'p, 'r) latency_store \<Rightarrow> 'r \<times> ('f, 's, 'p, 'r) latency_store" where
  "latency_call F tape (PutOpts l p) ls = call_inner (PutOpts l p) (on_put F tape ls)"
| "latency_call F tape (PutMultipartOpts l p) ls = call_inner (PutMultipartOpts l p) (on_put F tape ls)"
| "latency_call F tape (GetOpts l p) ls = call_inner (GetOpts l p) (on_get F tape ls)"
| "latency_call F tape (GetRanges l rs) ls = call_inner (GetRanges l rs) (on_get F tape ls)"
| "latency_call F tape (Head l) ls = call_inner (Head l) (on_get F tape ls)"
| "latency_call F tape (DeleteObject l) ls =
     call_inner (DeleteObject l) (delay F tape (lp_delete (ls_profile ls)) Deletes ls)"
| "latency_call F tape (ListObjects p) ls =
     (let (r, ls1) = call_inner (ListObjects p) ls
      in (r, delay F tape (lp_list (ls_profile ls1)) Lists ls1))"
| "latency_call F tape (ListWithDelimiter p) ls =
     call_inner (ListWithDelimiter p) (delay F tape (lp_list (ls_profile ls)) Lists ls)"
| "latency_call F tape (Copy a b) ls = call_inner (Copy a b) (on_put F tape ls)"
| "latency_call F tape (CopyIfNotExists a b) ls = call_inner (CopyIfNotExists a b) (on_put F tape ls)"

section \<open>What the shim does\<close>

definition class_of :: "'p request \<Rightarrow> counter" where
  "class_of q =
     (case q of GetOpts _ _ \<Rightarrow> Gets | GetRanges _ _ \<Rightarrow> Gets | Head _ \<Rightarrow> Gets
      | DeleteObject _ \<Rightarrow> Deletes | ListObjects _ \<Rightarrow> Lists | ListWithDelimiter _ \<Rightarrow> Lists | _ \<Rightarrow> Puts)"

definition class_latency :: "'f latency_profile \<Rightarrow> counter \<Rightarrow> 'f op_latency" where
  "class_latency p c = (case c of Gets \<Rightarrow> lp_get p | Puts \<Rightarrow> lp_put p | Lists \<Rightarrow> lp_list p | Deletes \<Rightarrow> lp_delete p)"

lemma delay_call_commute:
  "call_inner q (delay F tape x c ls) = (let (r, ls1) = call_inner q ls in (r, delay F tape x c ls1))"
  by (simp add: call_inner_def delay_def Let_def split_def)

lemma latency_call_eq:
  "latency_call F tape q ls
     = (let (r, ls1) = call_inner q ls
        in (r, delay F tape (class_latency (ls_profile ls) (class_of q)) (class_of q) ls1))"
proof -
  have prof: "ls_profile (snd (call_inner q ls)) = ls_profile ls"
    by (simp add: call_inner_def Let_def split_def)
  then show ?thesis
    by (cases q) (simp_all add: on_get_def on_put_def class_of_def class_latency_def delay_call_commute split_def)
qed

lemma draw_const: "median x = 0 \<or> f_is_zero F (sigma x) \<Longrightarrow> draw F tape x pos = (median x, pos)"
  by (auto simp: draw_def)

lemma draw_many_const:
  "median x = 0 \<or> f_is_zero F (sigma x) \<Longrightarrow>
     draw_many F tape x n acc = (fst acc + n * median x, snd acc)"
  by (induction n arbitrary: acc) (auto simp: draw_const)

text \<open>The independent draws a run of operations makes, and where they leave the tape.\<close>

fun draws :: "'f f64_ops \<Rightarrow> 'f tape \<Rightarrow> 'f op_latency \<Rightarrow> nat \<Rightarrow> nat \<Rightarrow> duration list \<times> nat" where
  "draws F tape x 0 pos = ([], pos)"
| "draws F tape x (Suc n) pos =
     (let (d, p1) = draw F tape x pos; (ds, p2) = draws F tape x n p1 in (d # ds, p2))"

lemma draw_many_draws:
  "draw_many F tape x n acc = (fst acc + sum_list (fst (draws F tape x n (snd acc))), snd (draws F tape x n (snd acc)))"
  by (induction n arbitrary: acc) (simp_all add: Let_def split_def)

lemma length_draws: "length (fst (draws F tape x n pos)) = n"
  by (induction n arbitrary: pos) (simp_all add: Let_def split_def)

section \<open>Properties\<close>

text \<open>
  C39. The shim is transparent and exact. Whatever the request, the answer and the new state of the
  wrapped store are those of the wrapped store itself; the request counts once, in the class of its
  method, no other counter moves, and the injected time grows by exactly the delay drawn for it.
\<close>

theorem shim_transparent:
  "fst (latency_call F tape q ls) = fst (ls_inner ls q (ls_state ls)) \<and>
   ls_state (snd (latency_call F tape q ls)) = snd (ls_inner ls q (ls_state ls)) \<and>
   ls_profile (snd (latency_call F tape q ls)) = ls_profile ls \<and>
   ls_stats (snd (latency_call F tape q ls)) =
     (bump (class_of q) (ls_stats ls))\<lparr>injected_micros := injected_micros (ls_stats ls)
        + of_nat (fst (draw F tape (class_latency (ls_profile ls) (class_of q)) (ls_pos ls)) div 1000)\<rparr>"
proof -
  have "injected_micros (bump c s) = injected_micros s" for c s by (cases c) simp_all
  then show ?thesis
    unfolding latency_call_eq by (simp add: call_inner_def delay_def charge_stats_def Let_def split_def)
qed

text \<open>
  With no injection asked for, none happens: under the profile of zeros a call adds nothing to
  the injected time and draws no random number, and \<open>charge_for\<close> charges nothing.
\<close>

theorem none_injects_nothing:
  assumes "profile_is_zero (ls_profile ls)"
  shows "injected_micros (ls_stats (snd (latency_call F tape q ls))) = injected_micros (ls_stats ls) \<and>
         ls_pos (snd (latency_call F tape q ls)) = ls_pos ls \<and>
         charge_for F tape (ls_profile ls) puts gets pos = (0, pos)"
proof -
  have z: "median (class_latency (ls_profile ls) c) = 0" for c
    using assms by (cases c) (auto simp: class_latency_def profile_is_zero_def op_is_zero_def)
  have "injected_micros (bump c s) = injected_micros s" for c s by (cases c) simp_all
  moreover have "draw F tape (class_latency (ls_profile ls) c) p = (0, p)" for c p
    using z by (simp add: draw_def)
  moreover have "charge_for F tape (ls_profile ls) puts gets pos = (0, pos)"
    using z [of Gets] z [of Puts] by (simp add: charge_for_def class_latency_def draw_many_const)
  ultimately show ?thesis
    unfolding latency_call_eq by (simp add: call_inner_def delay_def charge_stats_def Let_def split_def)
qed

definition unit_ops :: "unit f64_ops" where
  "unit_ops =
     \<lparr>f_secs = (\<lambda>_. ()), f_div = (\<lambda>_ _. ()), f_mul = (\<lambda>_ _. ()), f_gt_one = (\<lambda>_. False), f_is_zero = (\<lambda>_. True),
      f_ln = (\<lambda>_. ()), f_exp = (\<lambda>_. ()), f_sqrt = (\<lambda>_. ()), f_cos = (\<lambda>_. ()), f_zero = (), f_minus_two = (),
      f_tau = (), f_z99 = (), dur_mul_f64 = (\<lambda>d _. d)\<rparr>"

theorem none_injects_nothing_witness:
  "injected_micros (ls_stats (snd (latency_call unit_ops (\<lambda>_. ((), ()))
      (Head ''x'' :: unit request) (latency_store_new (\<lambda>_ s. (3 :: nat, s)) () (profile_none unit_ops))))) = 0"
  using none_injects_nothing [of "latency_store_new (\<lambda>_ s. (3 :: nat, s)) () (profile_none unit_ops)"
      unit_ops "\<lambda>_. ((), ())" "Head ''x'' :: unit request"]
  by (simp add: profile_is_zero_def op_is_zero_def profile_none_def op_zero_def latency_store_new_def)

text \<open>
  \<open>charge_for\<close> charges one independent draw per round trip: its total is the sum of \<open>puts\<close> draws
  of the PUT class followed by \<open>gets\<close> draws of the GET class, each from its own place on the tape.
\<close>

theorem charge_for_independent:
  "charge_for F tape p puts gets pos =
     (let (ps, pos1) = draws F tape (lp_put p) (unat puts) pos;
          (gs, pos2) = draws F tape (lp_get p) (unat gets) pos1
      in (sum_list ps + sum_list gs, pos2)) \<and>
   length (fst (draws F tape (lp_put p) (unat puts) pos)) = unat puts"
  by (simp add: charge_for_def draw_many_draws length_draws Let_def split_def)

end
