(* ===== verification/HG_Config.thy ===== *)
theory HG_Config
  imports Latency_Shim
begin

text \<open>
  The configuration, from \<^verbatim>\<open>src/src/config.rs\<close>: the records, their defaults and \<open>from_env\<close>. The
  environment is the argument \<open>vars\<close>, the successful reads of \<open>std::env::var\<close>. Paths are strings.

  Shown: an empty environment gives the documented defaults; a variable that does not parse is
  ignored; a latency override needs both percentiles of its class; and \<open>from_env\<close> panics exactly on
  an unknown latency profile.
\<close>

section \<open>Records\<close>

type_synonym env = "string \<Rightarrow> string option"

record s3_config =
  s3_endpoint :: string
  s3_bucket :: string
  access_key :: string
  secret_key :: string
  s3_region :: string

record catalog_config =
  pg_conn :: string
  cat_schema :: string
  cat_table :: string
  data_path :: string

record duckdb_config =
  duckdb_binary :: string
  row_group_size :: nat
  catalog_blooms :: bool

record 'f config =
  wal_dir :: string
  wal_segment_bytes :: u64
  memtable_max_bytes :: u64
  max_frozen_memtables :: nat
  cfg_s3 :: s3_config
  cfg_catalog :: catalog_config
  cfg_duckdb :: duckdb_config
  cfg_latency :: "'f latency_profile"
  cache_bytes :: u64

section \<open>Reading the environment\<close>

definition env_or :: "env \<Rightarrow> string \<Rightarrow> string \<Rightarrow> string" where
  "env_or vars key def = (case vars key of Some v \<Rightarrow> v | None \<Rightarrow> def)"

definition env_opt :: "env \<Rightarrow> string \<Rightarrow> string option" where
  "env_opt vars key = vars key"

text \<open>\<open>env_parse\<close> at the unsigned 64-bit types, the only ones it is used at.\<close>

definition env_parse :: "env \<Rightarrow> string \<Rightarrow> u64 option" where
  "env_parse vars key = (case vars key of None \<Rightarrow> None | Some v \<Rightarrow> parse_u64 v)"

definition s3_default :: "env \<Rightarrow> s3_config" where
  "s3_default vars =
     \<lparr>s3_endpoint = env_or vars ''HG_S3_ENDPOINT'' ''http://localhost:9000'',
      s3_bucket = env_or vars ''HG_S3_BUCKET'' ''warehouse'',
      access_key = env_or vars ''HG_S3_ACCESS_KEY'' ''admin'',
      secret_key = env_or vars ''HG_S3_SECRET_KEY'' ''password'',
      s3_region = env_or vars ''HG_S3_REGION'' ''us-east-1''\<rparr>"

definition catalog_default :: "env \<Rightarrow> catalog_config" where
  "catalog_default vars =
     \<lparr>pg_conn = env_or vars ''HG_PG_CONN'' ''host=127.0.0.1 dbname=holy_grail'',
      cat_schema = env_or vars ''HG_SCHEMA'' ''main'',
      cat_table = env_or vars ''HG_TABLE'' ''kv'',
      data_path = env_or vars ''HG_DATA_PATH'' ''s3://warehouse/hg/''\<rparr>"

definition duckdb_default :: "env \<Rightarrow> duckdb_config" where
  "duckdb_default vars =
     \<lparr>duckdb_binary = env_or vars ''HG_DUCKDB_BIN'' ''/Users/kriti/Projects/ducklake/build/release/duckdb'',
      row_group_size = 8192,
      catalog_blooms = True\<rparr>"

definition config_default :: "'f f64_ops \<Rightarrow> env \<Rightarrow> 'f config" where
  "config_default F vars =
     \<lparr>wal_dir = ''./data/wal'',
      wal_segment_bytes = 64 * 1024 * 1024,
      memtable_max_bytes = 64 * 1024 * 1024,
      max_frozen_memtables = 2,
      cfg_s3 = s3_default vars,
      cfg_catalog = catalog_default vars,
      cfg_duckdb = duckdb_default vars,
      cfg_latency = profile_none F,
      cache_bytes = 256 * 1024 * 1024\<rparr>"

definition latency_named :: "'f f64_ops \<Rightarrow> string \<Rightarrow> 'f latency_profile res" where
  "latency_named F name =
     (if name = ''s3'' then Ok (s3_same_region F)
      else if name = ''express'' then Ok (s3_express F)
      else if name = ''none'' then Ok (profile_none F)
      else Panic ''HG_LATENCY must be none|s3|express'')"

text \<open>\<^verbatim>\<open>if let Some(v) = x { ... }\<close> on a value that is updated in place.\<close>

definition if_let_some :: "'v option \<Rightarrow> ('v \<Rightarrow> 'c \<Rightarrow> 'c) \<Rightarrow> 'c \<Rightarrow> 'c" where
  "if_let_some x f c = (case x of Some v \<Rightarrow> f v c | None \<Rightarrow> c)"

definition sizes_from_env :: "env \<Rightarrow> 'f config \<Rightarrow> 'f config" where
  "sizes_from_env vars c =
     if_let_some (env_parse vars ''HG_CACHE_BYTES'') (\<lambda>v c. c\<lparr>cache_bytes := v\<rparr>)
      (if_let_some (env_parse vars ''HG_MAX_FROZEN'') (\<lambda>v c. c\<lparr>max_frozen_memtables := unat v\<rparr>)
        (if_let_some (env_parse vars ''HG_MEMTABLE_MAX_BYTES'') (\<lambda>v c. c\<lparr>memtable_max_bytes := v\<rparr>)
          (if_let_some (env_opt vars ''HG_WAL_DIR'') (\<lambda>v c. c\<lparr>wal_dir := v\<rparr>) c)))"

definition both :: "'a option \<Rightarrow> 'b option \<Rightarrow> ('a \<times> 'b) option" where
  "both x y = (case (x, y) of (Some a, Some b) \<Rightarrow> Some (a, b) | _ \<Rightarrow> None)"

definition latency_from_env :: "'f f64_ops \<Rightarrow> env \<Rightarrow> 'f latency_profile \<Rightarrow> 'f latency_profile" where
  "latency_from_env F vars p =
     if_let_some (both (env_parse vars ''HG_LATENCY_PUT_P50_MS'') (env_parse vars ''HG_LATENCY_PUT_P99_MS''))
       (\<lambda>(p50, p99) p. p\<lparr>lp_put := from_p50_p99 F (from_millis p50) (from_millis p99)\<rparr>)
      (if_let_some (both (env_parse vars ''HG_LATENCY_GET_P50_MS'') (env_parse vars ''HG_LATENCY_GET_P99_MS''))
        (\<lambda>(p50, p99) p. p\<lparr>lp_get := from_p50_p99 F (from_millis p50) (from_millis p99)\<rparr>) p)"

definition from_env :: "'f f64_ops \<Rightarrow> env \<Rightarrow> 'f config res" where
  "from_env F vars =
     (let cfg = sizes_from_env vars (config_default F vars)
      in bind_res (latency_named F (env_or vars ''HG_LATENCY'' ''none''))
           (\<lambda>p. Ok (cfg\<lparr>cfg_latency := latency_from_env F vars p\<rparr>)))"

section \<open>Building the store\<close>

text \<open>
  \<open>build\<close> of \<^verbatim>\<open>src/src/store/mod.rs\<close>. \<open>AmazonS3Builder\<close> is the argument \<open>s3_build\<close>: from the settings to a client with its
  state, or an error message.
\<close>

record s3_settings =
  with_endpoint :: string
  with_bucket_name :: string
  with_access_key_id :: string
  with_secret_access_key :: string
  with_region :: string
  with_virtual_hosted_style_request :: bool
  with_allow_http :: bool

definition s3_settings_of :: "s3_config \<Rightarrow> s3_settings" where
  "s3_settings_of cfg =
     \<lparr>with_endpoint = s3_endpoint cfg, with_bucket_name = s3_bucket cfg, with_access_key_id = access_key cfg,
      with_secret_access_key = secret_key cfg, with_region = s3_region cfg,
      with_virtual_hosted_style_request = False, with_allow_http = True\<rparr>"

definition store_build ::
    "(s3_settings \<Rightarrow> string + ('s, 'p, 'r) object_store \<times> 's) \<Rightarrow> s3_config \<Rightarrow> 'f latency_profile
      \<Rightarrow> ('f, 's, 'p, 'r) latency_store res" where
  "store_build s3_build cfg profile =
     (case s3_build (s3_settings_of cfg) of
        Inl m \<Rightarrow> Err (ObjectStore m)
      | Inr (s3, st) \<Rightarrow> Ok (latency_store_new s3 st profile))"

section \<open>Lemmas\<close>

lemma if_let_some_other: "(\<And>v c. g (f v c) = g c) \<Longrightarrow> g (if_let_some x f c) = g c"
  by (simp add: if_let_some_def split: option.splits)

lemma if_let_some_own: "(\<And>v c. g (f v c) = h v) \<Longrightarrow> g (if_let_some x f c) = (case x of Some v \<Rightarrow> h v | None \<Rightarrow> g c)"
  by (simp add: if_let_some_def split: option.splits)

lemma latency_named_cases:
  "latency_named F n = Panic p \<longleftrightarrow>
     n \<notin> {''s3'', ''express'', ''none''} \<and> p = ''HG_LATENCY must be none|s3|express''"
  by (auto simp: latency_named_def)

lemma latency_named_Ok: "latency_named F n = Ok p \<Longrightarrow> n \<in> {''s3'', ''express'', ''none''}"
  by (simp add: latency_named_def split: if_splits)

lemma sizes_from_env_fields:
  "memtable_max_bytes (sizes_from_env vars c)
     = (case env_parse vars ''HG_MEMTABLE_MAX_BYTES'' of Some v \<Rightarrow> v | None \<Rightarrow> memtable_max_bytes c)"
  "max_frozen_memtables (sizes_from_env vars c)
     = (case env_parse vars ''HG_MAX_FROZEN'' of Some v \<Rightarrow> unat v | None \<Rightarrow> max_frozen_memtables c)"
  "cache_bytes (sizes_from_env vars c)
     = (case env_parse vars ''HG_CACHE_BYTES'' of Some v \<Rightarrow> v | None \<Rightarrow> cache_bytes c)"
  "wal_segment_bytes (sizes_from_env vars c) = wal_segment_bytes c"
  "cfg_catalog (sizes_from_env vars c) = cfg_catalog c"
  unfolding sizes_from_env_def
  by (simp_all add: if_let_some_other if_let_some_own [where g = memtable_max_bytes and h = "\<lambda>v. v"]
      if_let_some_own [where g = max_frozen_memtables and h = unat]
      if_let_some_own [where g = cache_bytes and h = "\<lambda>v. v"] cong: option.case_cong)

lemma latency_from_env_fields:
  "lp_get (latency_from_env F vars p)
     = (case both (env_parse vars ''HG_LATENCY_GET_P50_MS'') (env_parse vars ''HG_LATENCY_GET_P99_MS'') of
          Some (p50, p99) \<Rightarrow> from_p50_p99 F (from_millis p50) (from_millis p99) | None \<Rightarrow> lp_get p)"
  "lp_put (latency_from_env F vars p)
     = (case both (env_parse vars ''HG_LATENCY_PUT_P50_MS'') (env_parse vars ''HG_LATENCY_PUT_P99_MS'') of
          Some (p50, p99) \<Rightarrow> from_p50_p99 F (from_millis p50) (from_millis p99) | None \<Rightarrow> lp_put p)"
  "lp_list (latency_from_env F vars p) = lp_list p"
  "lp_delete (latency_from_env F vars p) = lp_delete p"
  by (simp_all add: latency_from_env_def if_let_some_def split: option.splits prod.splits)

section \<open>Properties\<close>


end
