(* ===== verification/Duckdb_Script.thy ===== *)
theory Duckdb_Script
  imports HG_Config
begin

text \<open>
  Driving the DuckDB binary: the scripts the engine hands it and how it reads the outcome, from
  \<^verbatim>\<open>src/src/flush.rs\<close> (\<open>attach_preamble\<close>, the script of \<open>publish\<close>, \<open>run_duckdb\<close>, \<open>staging_path\<close>) and
  \<^verbatim>\<open>src/src/catalog.rs\<close> (\<open>bootstrap\<close>). The process is an argument: given the binary, its arguments and
  its standard input, it changes the world \<open>'w\<close> and ends in some way.

  Shown: staging names sort in watermark order and never collide; \<open>run_duckdb\<close> succeeds exactly on
  exit code zero; the scripts have the form the source gives them.
\<close>

section \<open>Names in order\<close>

lemma dec_value_bound: "dec_value s < 10 ^ length s" if "list_all is_digit s"
  using that
proof (induction s rule: rev_induct)
  case (snoc c s)
  then have "of_char c - 48 \<le> (9 :: nat)" by (auto simp: is_digit_def)
  moreover have "dec_value s + 1 \<le> 10 ^ length s" using snoc by simp
  ultimately show ?case by (simp add: dec_value_snoc)
qed (simp add: dec_value_def)

lemma dec_value_Cons: "dec_value (c # s) = (of_char c - 48) * 10 ^ length s + dec_value s"
proof (induction s rule: rev_induct)
  case (snoc d s)
  then show ?case using dec_value_snoc [of "c # s" d] by (simp add: dec_value_snoc algebra_simps)
qed (simp add: dec_value_def)

lemma less_char_digit: "is_digit c \<Longrightarrow> is_digit d \<Longrightarrow> c < d \<longleftrightarrow> (of_char c - 48 :: nat) < of_char d - 48"
  by (auto simp: less_char_def is_digit_def)

lemma char_eq_digit: "is_digit c \<Longrightarrow> is_digit d \<Longrightarrow> c = d \<longleftrightarrow> (of_char c - 48 :: nat) = of_char d - 48"
proof -
  assume "is_digit c" "is_digit d"
  then have "(of_char c :: nat) = of_char d \<longleftrightarrow> (of_char c - 48 :: nat) = of_char d - 48"
    unfolding is_digit_def by linarith
  then show ?thesis by simp
qed

lemma digits_order:
  assumes "list_all is_digit s" and "list_all is_digit t" and "length s = length t"
  shows "s < t \<longleftrightarrow> dec_value s < dec_value t"
  using assms(3,1,2)
proof (induction s t rule: list_induct2)
  case (Cons c s d t)
  let ?c = "of_char c - 48 :: nat" and ?d = "of_char d - 48 :: nat"
  have bs: "dec_value s < 10 ^ length t" "dec_value t < 10 ^ length t"
    using Cons.prems Cons.hyps dec_value_bound [of s] dec_value_bound [of t] by simp_all
  have IH: "s < t \<longleftrightarrow> dec_value s < dec_value t" using Cons by simp
  consider "?c < ?d" | "?c = ?d" | "?d < ?c" by linarith
  then show ?case
  proof cases
    case 1
    then have "(?c + 1) * 10 ^ length t \<le> ?d * 10 ^ length t" by (intro mult_le_mono1) simp
    then have "dec_value (c # s) < dec_value (d # t)" using bs Cons.hyps by (simp add: dec_value_Cons algebra_simps)
    moreover have "c # s < d # t" using 1 Cons.prems by (simp add: less_char_digit)
    ultimately show ?thesis by simp
  next
    case 2
    then show ?thesis using Cons IH by (simp add: dec_value_Cons less_char_digit char_eq_digit)
  next
    case 3
    then have "(?d + 1) * 10 ^ length t \<le> ?c * 10 ^ length t" by (intro mult_le_mono1) simp
    then have "\<not> dec_value (c # s) < dec_value (d # t)" using bs Cons.hyps by (simp add: dec_value_Cons algebra_simps)
    moreover have "\<not> c # s < d # t" using 3 Cons.prems by (simp add: less_char_digit char_eq_digit)
    ultimately show ?thesis by simp
  qed
qed simp

lemma length_show_nat: "n < 10 ^ k \<Longrightarrow> 0 < k \<Longrightarrow> length (show_nat n) \<le> k"
proof (induction n arbitrary: k rule: show_nat.induct)
  case (1 n)
  show ?case
  proof (cases "n < 10")
    case True
    then show ?thesis using 1(3) by (simp add: show_nat.simps [of n])
  next
    case False
    then obtain j where j: "k = Suc j" "0 < j"
      using 1(2,3) by (cases k; cases "k - 1") auto
    then have "n div 10 < 10 ^ j" using 1(2) by (simp add: less_mult_imp_div_less mult.commute)
    with 1(1) [OF False _ j(2)] have "length (show_nat (n div 10)) \<le> j" by simp
    with False j show ?thesis by (simp add: show_nat.simps [of n])
  qed
qed

lemma length_pad20: "length (pad20 (unat (w :: u64))) = 20"
proof -
  have "unat w < 2 ^ 64" using unsigned_less [of w] by simp
  then have "unat w < 10 ^ 20" by simp
  from length_show_nat [OF this] show ?thesis by (simp add: pad20_def Let_def)
qed

lemma pad20_order: "pad20 (unat (v :: u64)) < pad20 (unat w) \<longleftrightarrow> v < w"
  using digits_order [OF pad20_digits pad20_digits, of "unat v" "unat w"]
  by (simp add: length_pad20 word_less_nat_alt)

lemma append_less_cancel: "length s = length t \<Longrightarrow> s @ u < t @ u \<longleftrightarrow> s < (t :: 'a::linorder list)"
  by (induction s t rule: list_induct2) auto

lemma prefix_less_cancel: "p @ s < p @ t \<longleftrightarrow> s < (t :: 'a::linorder list)"
  by (induction p) auto

section \<open>Scripts\<close>

definition sq :: "string \<Rightarrow> string" where
  "sq s = CHR 0x27 # s @ [CHR 0x27]"

definition nl :: string where
  "nl = [CHR 0x0A]"

definition path_join :: "string \<Rightarrow> string \<Rightarrow> string" where
  "path_join dir name = dir @ ''/'' @ name"

definition staging_path :: "string \<Rightarrow> lsn \<Rightarrow> string" where
  "staging_path dir watermark = path_join dir (''hg-stage-'' @ pad20 (unat watermark) @ ''.parquet'')"

definition endpoint_host :: "string \<Rightarrow> string" where
  "endpoint_host e = trim_start_matches ''https://'' (trim_start_matches ''http://'' e)"

definition attach_preamble :: "catalog_config \<Rightarrow> s3_config \<Rightarrow> string" where
  "attach_preamble cat s3 =
     (let endpoint = endpoint_host (s3_endpoint s3);
          use_ssl = (if strip_prefix ''https://'' (s3_endpoint s3) \<noteq> None then ''true'' else ''false'')
      in ''ATTACH '' @ sq (''ducklake:postgres:'' @ pg_conn cat) @ '' AS lake (DATA_PATH '' @ sq (data_path cat)
           @ '', DATA_INLINING_ROW_LIMIT 0);'' @ nl
         @ ''SET s3_endpoint='' @ sq endpoint @ ''; SET s3_access_key_id='' @ sq (access_key s3)
           @ ''; SET s3_secret_access_key='' @ sq (secret_key s3) @ '';'' @ nl
         @ ''SET s3_url_style='' @ sq ''path'' @ ''; SET s3_use_ssl='' @ use_ssl
           @ ''; SET s3_region='' @ sq (s3_region s3) @ '';'' @ nl
         @ ''SET httpfs_client_implementation='' @ sq ''httplib'' @ '';'' @ nl)"

definition publish_script :: "catalog_config \<Rightarrow> s3_config \<Rightarrow> string \<Rightarrow> string" where
  "publish_script cat s3 staging =
     attach_preamble cat s3
       @ ''INSERT INTO lake.'' @ cat_schema cat @ ''.'' @ cat_table cat
       @ '' SELECT pk, lsn, op, value FROM read_parquet('' @ sq staging @ '');'' @ nl"

definition bootstrap_script :: "duckdb_config \<Rightarrow> catalog_config \<Rightarrow> s3_config \<Rightarrow> string" where
  "bootstrap_script duckdb cat s3 =
     (let script =
        attach_preamble cat s3
          @ ''CREATE TABLE IF NOT EXISTS lake.'' @ cat_schema cat @ ''.'' @ cat_table cat
          @ ''(pk BLOB, lsn BIGINT, op INTEGER, value BLOB);'' @ nl
          @ ''CALL lake.set_option('' @ sq ''parquet_row_group_size'' @ '', '' @ sq (show_nat (row_group_size duckdb))
          @ '', table_name => '' @ sq (cat_table cat) @ '');'' @ nl
      in if catalog_blooms duckdb
         then script @ ''CALL lake.set_option('' @ sq ''bloom_filter_columns'' @ '', '' @ sq ''pk''
                @ '', table_name => '' @ sq (cat_table cat) @ '');'' @ nl
         else script)"

section \<open>The process\<close>

datatype proc_end = SpawnFailed string | StdinFailed string | WaitFailed string | Exited "int option" string

type_synonym 'w process = "string \<Rightarrow> string list \<Rightarrow> string \<Rightarrow> 'w \<Rightarrow> proc_end \<times> 'w"

definition run_duckdb :: "'w process \<Rightarrow> duckdb_config \<Rightarrow> string \<Rightarrow> 'w \<Rightarrow> unit res \<times> 'w" where
  "run_duckdb proc duckdb script w =
     (let (e, w') = proc (duckdb_binary duckdb) [''-unsigned'', '':memory:''] script w
      in (case e of
            SpawnFailed m \<Rightarrow> Err (Io m)
          | StdinFailed m \<Rightarrow> Err (Io m)
          | WaitFailed m \<Rightarrow> Err (Io m)
          | Exited c stderr \<Rightarrow>
              if c = Some 0 then Ok ()
              else Err (DuckDbExec (case c of Some n \<Rightarrow> n | None \<Rightarrow> -1) stderr), w'))"

definition bootstrap :: "'w process \<Rightarrow> duckdb_config \<Rightarrow> catalog_config \<Rightarrow> s3_config \<Rightarrow> 'w \<Rightarrow> unit res \<times> 'w" where
  "bootstrap proc duckdb cat s3 w = run_duckdb proc duckdb (bootstrap_script duckdb cat s3) w"

lemma run_duckdb_Ok:
  "fst (run_duckdb proc duckdb script w) = Ok () \<longleftrightarrow>
     (\<exists>stderr. fst (proc (duckdb_binary duckdb) [''-unsigned'', '':memory:''] script w) = Exited (Some 0) stderr)"
  by (auto simp: run_duckdb_def Let_def split_def split: proc_end.splits)

section \<open>Properties\<close>

text \<open>
  Staging names. Two watermarks never share a staging file, and in a directory listing the
  staging files sort in watermark order.
\<close>

theorem staging_path_order:
  "(staging_path dir v < staging_path dir w \<longleftrightarrow> v < w) \<and> (staging_path dir v = staging_path dir w \<longleftrightarrow> v = w)"
  by (auto simp: staging_path_def path_join_def prefix_less_cancel append_less_cancel length_pad20 pad20_order
      pad20_inj word_unat_eq_iff)

text \<open>
  How the outcome of the DuckDB process is read: success exactly on exit code zero; any other
  exit is the error with that code, or minus one when a signal ended it, and the captured text; a
  process that could not be started, fed or awaited is an I/O error; and what the process did to the
  world is kept in every case.
\<close>

theorem run_duckdb_outcome:
  "snd (run_duckdb proc duckdb script w) = snd (proc (duckdb_binary duckdb) [''-unsigned'', '':memory:''] script w) \<and>
   (case fst (proc (duckdb_binary duckdb) [''-unsigned'', '':memory:''] script w) of
      Exited c stderr \<Rightarrow>
        fst (run_duckdb proc duckdb script w) =
          (if c = Some 0 then Ok () else Err (DuckDbExec (case c of None \<Rightarrow> -1 | Some n \<Rightarrow> n) stderr))
    | SpawnFailed m \<Rightarrow> fst (run_duckdb proc duckdb script w) = Err (Io m)
    | StdinFailed m \<Rightarrow> fst (run_duckdb proc duckdb script w) = Err (Io m)
    | WaitFailed m \<Rightarrow> fst (run_duckdb proc duckdb script w) = Err (Io m))"
  by (auto simp: run_duckdb_def Let_def split_def split: proc_end.splits)

end
