(* ===== verification/Lake_Catalog.thy ===== *)
theory Lake_Catalog
  imports Duckdb_Script
begin

text \<open>
  The catalog client, from \<^verbatim>\<open>src/src/catalog.rs\<close>, and the column model of \<^verbatim>\<open>src/src/schema.rs\<close>. The
  Postgres tables the engine reads are lists of rows, the SQL queries are list comprehensions over
  them, and a connection that fails is the argument \<open>conn\<close>. The cast \<^verbatim>\<open>::BIGINT\<close> is Postgres code: the
  argument \<open>bigint\<close>, with \<open>bigint_ok\<close> for what is relied on. A column read from a row as a \<open>String\<close> panics on NULL.
  The texts of configuration errors are shortened.

  Shown: the published watermark is the highest \<open>lsn\<close> statistic of the live files and zero without
  files; the startup check accepts exactly the expected columns; what \<open>connect\<close> resolves; and the
  round trip of the data path.
\<close>

section \<open>Columns\<close>

definition FIELD_ID_PK :: int where "FIELD_ID_PK = 1"
definition FIELD_ID_LSN :: int where "FIELD_ID_LSN = 2"
definition FIELD_ID_OP :: int where "FIELD_ID_OP = 3"
definition FIELD_ID_VALUE :: int where "FIELD_ID_VALUE = 4"

definition EXPECTED_COLUMNS :: "(int \<times> string \<times> string) list" where
  "EXPECTED_COLUMNS =
     [(FIELD_ID_PK, ''pk'', ''blob''), (FIELD_ID_LSN, ''lsn'', ''int64''),
      (FIELD_ID_OP, ''op'', ''int32''), (FIELD_ID_VALUE, ''value'', ''blob'')]"

datatype data_type = LargeBinary | Int64 | Int32

record field =
  field_name :: string
  field_type :: data_type
  field_nullable :: bool
  field_metadata :: "(string \<times> string) list"

definition mk_field :: "int \<Rightarrow> string \<Rightarrow> data_type \<Rightarrow> bool \<Rightarrow> field" where
  "mk_field i name ty nullable =
     \<lparr>field_name = name, field_type = ty, field_nullable = nullable,
      field_metadata = [(''PARQUET:field_id'', show_nat (nat i))]\<rparr>"

definition arrow_schema :: "field list" where
  "arrow_schema =
     [mk_field FIELD_ID_PK ''pk'' LargeBinary False,
      mk_field FIELD_ID_LSN ''lsn'' Int64 False,
      mk_field FIELD_ID_OP ''op'' Int32 False,
      mk_field FIELD_ID_VALUE ''value'' LargeBinary True]"

section \<open>The catalog tables\<close>

record data_file_row =
  df_id :: int
  df_table_id :: int
  df_path :: string
  df_size :: int
  df_records :: int
  df_end :: "int option"

record stats_row =
  cs_file_id :: int
  cs_table_id :: int
  cs_column_id :: int
  cs_min :: "string option"
  cs_max :: "string option"

record bloom_row =
  br_file_id :: int
  br_column_id :: int
  br_bloom :: "string option"

record column_row =
  co_table_id :: int
  co_id :: int
  co_name :: string
  co_type :: string
  co_order :: int
  co_end :: "int option"

record table_row =
  ta_id :: int
  ta_schema_id :: int
  ta_name :: string
  ta_path :: string
  ta_end :: "int option"

record schema_row =
  sc_id :: int
  sc_name :: string
  sc_path :: string
  sc_end :: "int option"

record catalog_db =
  db_files :: "data_file_row list"
  db_stats :: "stats_row list"
  db_blooms :: "bloom_row list"
  db_columns :: "column_row list"
  db_tables :: "table_row list"
  db_schemas :: "schema_row list"

type_synonym conn = "error option"

definition pg_query :: "conn \<Rightarrow> 'a \<Rightarrow> 'a res" where
  "pg_query conn rows = (case conn of None \<Rightarrow> Ok rows | Some e \<Rightarrow> Err e)"

section \<open>Resolving the table\<close>

record duck_lake =
  lake_table_id :: int
  lake_bucket :: string
  key_prefix :: string

definition resolve_rows :: "catalog_db \<Rightarrow> string \<Rightarrow> string \<Rightarrow> (int \<times> string \<times> string) list" where
  "resolve_rows db schema table =
     [(ta_id t, sc_path s, ta_path t). t \<leftarrow> db_tables db, s \<leftarrow> db_schemas db,
        sc_id s = ta_schema_id t \<and> ta_name t = table \<and> sc_name s = schema \<and> ta_end t = None \<and> sc_end s = None]"

text \<open>\<open>query_opt\<close>: at most one row, more is an error.\<close>

definition resolve_table :: "conn \<Rightarrow> catalog_db \<Rightarrow> string \<Rightarrow> string \<Rightarrow> (int \<times> string \<times> string) option res" where
  "resolve_table conn db schema table =
     bind_res (pg_query conn (resolve_rows db schema table)) (\<lambda>rows.
       case rows of
         [] \<Rightarrow> Ok None
       | [r] \<Rightarrow> Ok (Some r)
       | _ \<Rightarrow> Err (Postgres ''query returned an unexpected number of rows''))"

text \<open>\<open>split_once\<close> at the first slash.\<close>

definition split_once :: "char \<Rightarrow> string \<Rightarrow> (string \<times> string) option" where
  "split_once c s =
     (if c \<in> set s then Some (takeWhile (\<lambda>x. x \<noteq> c) s, tl (dropWhile (\<lambda>x. x \<noteq> c) s)) else None)"

definition split_data_path :: "string \<Rightarrow> (string \<times> string) res" where
  "split_data_path p =
     (case strip_prefix ''s3://'' p of
        None \<Rightarrow> Err (Config (''DATA_PATH must be an s3:// URL, got '' @ p))
      | Some rest \<Rightarrow> Ok (case split_once (CHR ''/'') rest of Some x \<Rightarrow> x | None \<Rightarrow> (rest, [])))"

definition live_columns :: "catalog_db \<Rightarrow> int \<Rightarrow> (int \<times> string \<times> string) list" where
  "live_columns db tid =
     map (\<lambda>c. (co_id c, co_name c, co_type c))
       (sort_key co_order (filter (\<lambda>c. co_table_id c = tid \<and> co_end c = None) (db_columns db)))"

fun match_columns :: "((int \<times> string \<times> string) \<times> (int \<times> string \<times> string)) list \<Rightarrow> unit res" where
  "match_columns [] = Ok ()"
| "match_columns (((got_id, got_name, got_ty), (i, name, ty)) # rest) =
     (if got_id \<noteq> i \<or> got_name \<noteq> name \<or> got_ty \<noteq> ty
      then Err (Config (''column mismatch: catalog has '' @ got_name @ '', engine expects '' @ name))
      else match_columns rest)"

definition verify_columns :: "conn \<Rightarrow> catalog_db \<Rightarrow> duck_lake \<Rightarrow> unit res" where
  "verify_columns conn db lake =
     bind_res (pg_query conn (live_columns db (lake_table_id lake))) (\<lambda>rows.
       if length rows \<noteq> length EXPECTED_COLUMNS
       then Err (Config (''catalog has '' @ show_nat (length rows) @ '' columns, engine expects ''
                   @ show_nat (length EXPECTED_COLUMNS)))
       else match_columns (zip rows EXPECTED_COLUMNS))"

definition connect :: "conn \<Rightarrow> catalog_db \<Rightarrow> catalog_config \<Rightarrow> duck_lake res" where
  "connect conn db cfg =
     bind_res (pg_query conn ()) (\<lambda>_.
     bind_res (resolve_table conn db (cat_schema cfg) (cat_table cfg)) (\<lambda>found.
     case found of
       None \<Rightarrow> Err (Config (''table '' @ cat_schema cfg @ ''.'' @ cat_table cfg @ '' not found in the DuckLake catalog''))
     | Some (tid, schema_sub, table_sub) \<Rightarrow>
         bind_res (split_data_path (data_path cfg)) (\<lambda>(bucket, data_prefix).
           let lake = \<lparr>lake_table_id = tid, lake_bucket = bucket, key_prefix = data_prefix @ schema_sub @ table_sub\<rparr>
           in bind_res (verify_columns conn db lake) (\<lambda>_. Ok lake))))"

section \<open>The published watermark\<close>

definition watermark_values :: "catalog_db \<Rightarrow> int \<Rightarrow> string option list" where
  "watermark_values db tid =
     [cs_max s. s \<leftarrow> db_stats db, f \<leftarrow> db_files db,
        df_id f = cs_file_id s \<and> cs_table_id s = tid \<and> cs_column_id s = FIELD_ID_LSN \<and> df_end f = None]"

text \<open>\<open>COALESCE(MAX(x::BIGINT), 0)\<close>: the cast may fail, a NULL is ignored.\<close>

fun max_cast :: "(string \<Rightarrow> int option) \<Rightarrow> string option list \<Rightarrow> int option \<Rightarrow> int res" where
  "max_cast bigint [] acc = Ok (case acc of None \<Rightarrow> 0 | Some m \<Rightarrow> m)"
| "max_cast bigint (None # xs) acc = max_cast bigint xs acc"
| "max_cast bigint (Some s # xs) acc =
     (case bigint s of
        None \<Rightarrow> Err (Postgres ''invalid input syntax for type bigint'')
      | Some n \<Rightarrow> max_cast bigint xs (Some (case acc of None \<Rightarrow> n | Some m \<Rightarrow> max m n)))"

definition published_watermark :: "(string \<Rightarrow> int option) \<Rightarrow> conn \<Rightarrow> catalog_db \<Rightarrow> duck_lake \<Rightarrow> lsn res" where
  "published_watermark bigint conn db lake =
     bind_res (pg_query conn (watermark_values db (lake_table_id lake))) (\<lambda>vals.
     bind_res (max_cast bigint vals None) (\<lambda>n. Ok (word_of_int n)))"

text \<open>What the cast is relied on for: the decimal form of a number below \<open>2 ^ 63\<close>.\<close>

definition bigint_ok :: "(string \<Rightarrow> int option) \<Rightarrow> bool" where
  "bigint_ok bigint \<longleftrightarrow> (\<forall>n < 2 ^ 63. bigint (show_nat n) = Some (int n))"

section \<open>Lemmas\<close>

lemma max_cast_decimals:
  assumes "bigint_ok bigint" and "\<forall>n \<in> set ns. n < 2 ^ 63"
  shows "max_cast bigint (map (\<lambda>n. Some (show_nat n)) ns) acc =
           Ok (case acc of None \<Rightarrow> int (fold max ns 0) | Some m \<Rightarrow> fold max (map int ns) m)"
  using assms(2)
proof (induction ns arbitrary: acc)
  case (Cons n ns)
  have b: "bigint (show_nat n) = Some (int n)" using assms(1) Cons.prems by (simp add: bigint_ok_def)
  have "fold max (map int ns) (int a) = int (fold max ns a)" for a
    by (induction ns arbitrary: a) (simp_all add: of_nat_max flip: of_nat_max)
  then show ?case using Cons b by (auto simp: max.commute split: option.splits)
qed (simp split: option.splits)

lemma max_cast_nulls: "max_cast bigint (map (\<lambda>_. None) xs) acc = Ok (case acc of None \<Rightarrow> 0 | Some m \<Rightarrow> m)"
  by (induction xs) simp_all

lemma match_columns_Ok: "length rows = length exps \<Longrightarrow> match_columns (zip rows exps) = Ok () \<longleftrightarrow> rows = exps"
  by (induction rows exps rule: list_induct2) (auto split: if_splits)

lemma match_columns_err: "match_columns xs \<noteq> Panic p"
  by (induction xs rule: match_columns.induct) auto

lemma split_once_append: "c \<notin> set a \<Longrightarrow> split_once c (a @ c # b) = Some (a, b)"
proof -
  assume "c \<notin> set a"
  then have "takeWhile (\<lambda>x. x \<noteq> c) (a @ c # b) = a" "dropWhile (\<lambda>x. x \<noteq> c) (a @ c # b) = c # b"
    by (induction a) auto
  then show ?thesis by (simp add: split_once_def)
qed

lemma word_of_int_nat_63: "n < 2 ^ 63 \<Longrightarrow> unat (word_of_int (int n) :: u64) = n"
  by (simp add: unat_of_nat_u64)

section \<open>Properties\<close>

text \<open>
  The published watermark. When the statistics of the live files are decimal numbers below
  \<open>2 ^ 63\<close>, as DuckDB writes them for a BIGINT column, the published watermark is their maximum, and it
  is zero when no live file exists; a lost connection is reported as its error.
\<close>

theorem published_watermark_max:
  assumes "bigint_ok bigint" and "watermark_values db (lake_table_id lake) = map (\<lambda>n. Some (show_nat n)) ns"
    and "\<forall>n \<in> set ns. n < 2 ^ 63"
  shows "published_watermark bigint None db lake = Ok (of_nat (fold max ns 0)) \<and>
         (ns = [] \<longrightarrow> published_watermark bigint None db lake = Ok 0) \<and>
         (\<forall>n \<in> set ns. n \<le> fold max ns 0) \<and> (ns \<noteq> [] \<longrightarrow> fold max ns 0 \<in> set ns) \<and>
         published_watermark bigint (Some e) db lake = Err e"
proof -
  have "fold max ns a \<in> insert a (set ns)" for a :: nat
    by (induction ns arbitrary: a) (auto simp: max_def)
  then have "ns \<noteq> [] \<longrightarrow> fold max ns 0 \<in> set ns"
    by (metis fold_max_elem insertE le_zero_eq list.set_intros(1) neq_Nil_conv)
  then show ?thesis
    using max_cast_decimals [OF assms(1,3), of None] assms(2) fold_max_elem [of _ ns 0]
    by (auto simp: published_watermark_def pg_query_def)
qed

definition sample_bigint :: "string \<Rightarrow> int option" where
  "sample_bigint s = map_option uint (parse_u64 s)"

lemma sample_bigint_ok: "bigint_ok sample_bigint"
proof -
  have "sample_bigint (show_nat n) = Some (int n)" if "n < 2 ^ 63" for n
  proof -
    have "parse_u64 (show_nat n) = Some (of_nat n)"
      using that by (simp add: parse_u64_digits show_nat_digits dec_value_show_nat)
    moreover have "unat (of_nat n :: u64) = n" using that by (simp add: unat_of_nat_u64)
    then have "uint (of_nat n :: u64) = int n" by (metis uint_nat)
    ultimately show ?thesis by (simp add: sample_bigint_def)
  qed
  then show ?thesis by (simp add: bigint_ok_def)
qed

definition sample_db :: catalog_db where
  "sample_db =
     \<lparr>db_files = [\<lparr>df_id = 5, df_table_id = 1, df_path = ''a.parquet'', df_size = 10, df_records = 1, df_end = None\<rparr>],
      db_stats = [\<lparr>cs_file_id = 5, cs_table_id = 1, cs_column_id = 1, cs_min = Some ''61'', cs_max = Some ''62''\<rparr>,
                  \<lparr>cs_file_id = 5, cs_table_id = 1, cs_column_id = 2, cs_min = Some ''3'', cs_max = Some ''7''\<rparr>],
      db_blooms = [], db_columns = [], db_tables = [], db_schemas = []\<rparr>"

definition sample_lake :: duck_lake where
  "sample_lake = \<lparr>lake_table_id = 1, lake_bucket = ''warehouse'', key_prefix = ''hg/main/kv/''\<rparr>"

lemma show_nat_7: "show_nat 7 = ''7''"
  by code_simp

theorem published_watermark_max_witness:
  "published_watermark sample_bigint None sample_db sample_lake = Ok 7 \<and>
   published_watermark sample_bigint (Some (Postgres ''gone'')) sample_db sample_lake = Err (Postgres ''gone'')"
proof -
  have "watermark_values sample_db (lake_table_id sample_lake) = map (\<lambda>n. Some (show_nat n)) [7]"
    by (simp add: watermark_values_def sample_db_def sample_lake_def FIELD_ID_LSN_def show_nat_7)
  from published_watermark_max [OF sample_bigint_ok this, of "Postgres ''gone''"] show ?thesis by simp
qed

text \<open>
  C38. The startup check. It accepts a catalog exactly when the live columns of the table, in column
  order, are the four expected ones with their identifiers, names and types; otherwise it returns a
  configuration error and never panics.
\<close>

theorem verify_columns_exact:
  "(verify_columns None db lake = Ok () \<longleftrightarrow> live_columns db (lake_table_id lake) = EXPECTED_COLUMNS) \<and>
   (case verify_columns None db lake of
      Ok u \<Rightarrow> True | Err e \<Rightarrow> (\<exists>m. e = Config m) | Panic p \<Rightarrow> False)"
proof -
  have "\<exists>m. e = Config m" if "match_columns xs = Err e" for xs e
    using that by (induction xs rule: match_columns.induct) (auto split: if_splits)
  then show ?thesis
    using match_columns_Ok [of "live_columns db (lake_table_id lake)" EXPECTED_COLUMNS] match_columns_err
    by (auto simp: verify_columns_def pg_query_def split: res.splits)
qed

text \<open>
  What \<open>connect\<close> resolves. For a data path \<^verbatim>\<open>s3://bucket/prefix\<close>, one live table of the configured
  name and the expected columns, the handle has that table's identifier, the bucket, and the key prefix
  made of the path's prefix and the schema's and table's sub-paths. Without the table it is a
  configuration error, and a path of another scheme is one too.
\<close>

theorem connect_resolves:
  assumes "resolve_rows db (cat_schema cfg) (cat_table cfg) = [(tid, ssub, tsub)]"
    and "data_path cfg = ''s3://'' @ bucket @ ''/'' @ prefix" and "CHR ''/'' \<notin> set bucket"
    and "live_columns db tid = EXPECTED_COLUMNS"
  shows "connect None db cfg = Ok \<lparr>lake_table_id = tid, lake_bucket = bucket, key_prefix = prefix @ ssub @ tsub\<rparr> \<and>
         (\<exists>m. connect None (db\<lparr>db_tables := []\<rparr>) cfg = Err (Config m)) \<and>
         (\<exists>m. connect None db (cfg\<lparr>data_path := ''/local''\<rparr>) = Err (Config m))"
proof -
  have "split_data_path (data_path cfg) = Ok (bucket, prefix)"
    using split_once_append [OF assms(3), of prefix] by (simp add: assms(2) split_data_path_def strip_prefix_def)
  moreover have "verify_columns None db \<lparr>lake_table_id = tid, lake_bucket = bucket, key_prefix = prefix @ ssub @ tsub\<rparr> = Ok ()"
    by (simp add: verify_columns_def pg_query_def assms(4) match_columns_Ok)
  moreover have "resolve_rows (db\<lparr>db_tables := []\<rparr>) s t = []" for s t by (simp add: resolve_rows_def)
  ultimately show ?thesis
    by (simp add: connect_def resolve_table_def pg_query_def assms(1) split_data_path_def strip_prefix_def)
qed

definition sample_cfg :: catalog_config where
  "sample_cfg = \<lparr>pg_conn = ''host=h'', cat_schema = ''main'', cat_table = ''kv'', data_path = ''s3://warehouse/hg/''\<rparr>"

definition sample_tables :: catalog_db where
  "sample_tables = sample_db
     \<lparr>db_tables := [\<lparr>ta_id = 1, ta_schema_id = 0, ta_name = ''kv'', ta_path = ''kv/'', ta_end = None\<rparr>],
      db_schemas := [\<lparr>sc_id = 0, sc_name = ''main'', sc_path = ''main/'', sc_end = None\<rparr>],
      db_columns := map (\<lambda>(i, n, t). \<lparr>co_table_id = 1, co_id = i, co_name = n, co_type = t, co_order = i, co_end = None\<rparr>)
                      EXPECTED_COLUMNS\<rparr>"

theorem connect_resolves_witness:
  "connect None sample_tables sample_cfg
     = Ok \<lparr>lake_table_id = 1, lake_bucket = ''warehouse'', key_prefix = ''hg/'' @ ''main/'' @ ''kv/''\<rparr>"
proof -
  have "resolve_rows sample_tables (cat_schema sample_cfg) (cat_table sample_cfg) = [(1, ''main/'', ''kv/'')]"
    by (simp add: resolve_rows_def sample_tables_def sample_cfg_def)
  moreover have "data_path sample_cfg = ''s3://'' @ ''warehouse'' @ ''/'' @ ''hg/''" by (simp add: sample_cfg_def)
  moreover have "live_columns sample_tables 1 = EXPECTED_COLUMNS"
    by (simp add: live_columns_def sample_tables_def EXPECTED_COLUMNS_def FIELD_ID_PK_def FIELD_ID_LSN_def
        FIELD_ID_OP_def FIELD_ID_VALUE_def)
  ultimately show ?thesis
    using connect_resolves [of sample_tables sample_cfg 1 "''main/''" "''kv/''" "''warehouse''" "''hg/''"] by simp
qed

end
