(* ===== verification/Catalog_Bloom.thy ===== *)
theory Catalog_Bloom
  imports HG_Prelude
begin

text \<open>
  The catalog bloom filter, from \<^verbatim>\<open>src/src/bloom.rs\<close>: parsing the stored blob, the Murmur3 hash, the
  block index and mask, and the probe. The Base64 engine is code of another crate and is the
  argument \<open>b64\<close>. Indexing a vector out of range is a panic, so the probe returns a result.

  Shown: a parsed filter has eight words per block and at least one block, so a probe never panics;
  a mask has one bit in each of its eight words; the probe is exactly \<open>all bits of the mask are set\<close>;
  and a key stored in the filter, as the split-block layout stores it, is never denied, however many
  keys are stored after it. The filter itself is written by another program: \<open>store_key\<close> is the
  layout's definition of storing, and the contract \<open>built_over\<close> says a file's filter came from it.
\<close>

section \<open>Definitions\<close>

definition SBBF_SALT :: "u32 list" where
  "SBBF_SALT = [0x47b6137b, 0x44974d91, 0x8824ad5b, 0xa2b7289d, 0x705495c7, 0x2df1424c, 0x9efc4947, 0x5c6bfb31]"

definition WORDS_PER_BLOCK :: nat where
  "WORDS_PER_BLOCK = 8"

definition BYTES_PER_BLOCK :: nat where
  "BYTES_PER_BLOCK = WORDS_PER_BLOCK * 4"

record catalog_bloom =
  cb_words :: "u32 list"
  num_blocks :: nat

text \<open>\<open>chunks_exact(4)\<close>, each chunk read as a little-endian word.\<close>

fun le_words :: "bytes \<Rightarrow> u32 list" where
  "le_words (a # b # c # d # rest) = of_le_bytes [a, b, c, d] # le_words rest"
| "le_words rest = []"

definition from_base64 :: "(string \<Rightarrow> bytes option) \<Rightarrow> string \<Rightarrow> catalog_bloom option" where
  "from_base64 b64 s =
     (case b64 s of
        None \<Rightarrow> None
      | Some bs \<Rightarrow>
          if bs = [] \<or> length bs mod BYTES_PER_BLOCK \<noteq> 0 then None
          else Some \<lparr>cb_words = le_words bs, num_blocks = length bs div BYTES_PER_BLOCK\<rparr>)"

definition murmur_block :: "bytes \<Rightarrow> nat \<Rightarrow> u32 \<Rightarrow> u32" where
  "murmur_block data i h1 =
     (let k1 = of_le_bytes [data ! (i * 4), data ! (i * 4 + 1), data ! (i * 4 + 2), data ! (i * 4 + 3)] * 0xcc9e2d51;
          k2 = word_rotl 15 k1 * 0x1b873593;
          h2 = word_rotl 13 (h1 XOR k2)
      in h2 * 5 + 0xe6546b64)"

definition murmur_tail :: "bytes \<Rightarrow> nat \<Rightarrow> u32 \<Rightarrow> u32" where
  "murmur_tail tail r h1 =
     (let k0 = 0;
          k1 = (if r = 3 then k0 XOR push_bit 16 (ucast (tail ! 2)) else k0);
          k2 = (if 2 \<le> r then k1 XOR push_bit 8 (ucast (tail ! 1)) else k1)
      in if 1 \<le> r
         then let k3 = k2 XOR ucast (tail ! 0);
                  k4 = word_rotl 15 (k3 * 0xcc9e2d51) * 0x1b873593
              in h1 XOR k4
         else h1)"

definition fmix32 :: "u32 \<Rightarrow> u32" where
  "fmix32 h =
     (let h2 = (h XOR drop_bit 16 h) * 0x85ebca6b;
          h3 = (h2 XOR drop_bit 13 h2) * 0xc2b2ae35
      in h3 XOR drop_bit 16 h3)"

definition murmur3_x86_32 :: "bytes \<Rightarrow> u32 \<Rightarrow> u32" where
  "murmur3_x86_32 data seed =
     (let nblocks = length data div 4;
          h1 = fold (murmur_block data) [0..<nblocks] seed;
          h2 = murmur_tail (drop (nblocks * 4) data) (length data mod 4) h1
      in fmix32 (h2 XOR of_nat (length data)))"

definition hash64 :: "bytes \<Rightarrow> u64" where
  "hash64 key =
     push_bit 32 (ucast (murmur3_x86_32 key 0)) OR ucast (murmur3_x86_32 key 0x9747b28c)"

definition block_index :: "u64 \<Rightarrow> nat \<Rightarrow> nat" where
  "block_index hash n = unat (drop_bit 32 (drop_bit 32 hash * (of_nat n :: u64)))"

definition compute_mask :: "u32 \<Rightarrow> u32 list" where
  "compute_mask key =
     map (\<lambda>i. let y = key * SBBF_SALT ! i in push_bit (unat (drop_bit 27 y)) 1) [0..<WORDS_PER_BLOCK]"

text \<open>The loop of the probe over the words of one block.\<close>

fun probe :: "u32 list \<Rightarrow> nat \<Rightarrow> u32 list \<Rightarrow> nat list \<Rightarrow> bool res" where
  "probe ws block msk [] = Ok True"
| "probe ws block msk (i # is) =
     (if length ws \<le> block * WORDS_PER_BLOCK + i then Panic ''index out of bounds''
      else
        let w = ws ! (block * WORDS_PER_BLOCK + i)
        in if w AND msk ! i \<noteq> msk ! i then Ok False else probe ws block msk is)"

definition might_contain :: "catalog_bloom \<Rightarrow> bytes \<Rightarrow> bool res" where
  "might_contain b key =
     (let hash = hash64 key;
          block = block_index hash (num_blocks b);
          msk = compute_mask (ucast hash)
      in probe (cb_words b) block msk [0..<WORDS_PER_BLOCK])"

section \<open>Shape of a parsed filter\<close>

definition bloom_ok :: "catalog_bloom \<Rightarrow> bool" where
  "bloom_ok b \<longleftrightarrow>
     0 < num_blocks b \<and> num_blocks b < 2 ^ 32 \<and> length (cb_words b) = num_blocks b * WORDS_PER_BLOCK"

lemma length_le_words: "length (le_words bs) = length bs div 4"
  by (induction bs rule: le_words.induct) simp_all

lemma from_base64_ok:
  assumes "from_base64 b64 s = Some b" and "\<And>bs. b64 s = Some bs \<Longrightarrow> length bs < 2 ^ 37"
  shows "bloom_ok b"
proof -
  from assms(1) obtain bs where bs: "b64 s = Some bs" "bs \<noteq> []" "32 dvd length bs"
    and b: "b = \<lparr>cb_words = le_words bs, num_blocks = length bs div 32\<rparr>"
    by (auto simp: from_base64_def BYTES_PER_BLOCK_def WORDS_PER_BLOCK_def dvd_eq_mod_eq_0 split: option.splits if_splits)
  from bs(3) obtain n where n: "length bs = 32 * n" by (auto elim: dvdE)
  with bs(2) have "0 < n" by (cases n) auto
  moreover have "n < 2 ^ 32" using assms(2) [OF bs(1)] n by simp
  ultimately show ?thesis by (simp add: bloom_ok_def b n length_le_words WORDS_PER_BLOCK_def)
qed

section \<open>Hash, block and mask\<close>

lemma unat_drop_bit_32: "unat (drop_bit 32 (h :: u64)) < 2 ^ 32"
proof -
  have "unat h < 2 ^ 64" using unsigned_less [of h] by simp
  then show ?thesis by (simp add: unat_drop_bit_div)
qed

lemma block_index_less:
  assumes "0 < n" and "n < 2 ^ 32"
  shows "block_index hash n < n"
proof -
  let ?h = "unat (drop_bit 32 hash)"
  have h: "?h < 2 ^ 32" by (rule unat_drop_bit_32)
  have u: "unat (of_nat n :: u64) = n" using assms(2) by (simp add: unat_of_nat_u64)
  have "?h * n < 2 ^ 32 * 2 ^ 32" using h assms by (intro mult_strict_mono) auto
  then have "unat (drop_bit 32 hash * (of_nat n :: u64)) = ?h * n"
    by (simp add: unat_word_ariths u)
  then have "block_index hash n = ?h * n div 2 ^ 32"
    by (simp add: block_index_def unat_drop_bit_div)
  also have "\<dots> < n" using h assms(1) by (simp add: div_less_iff_less_mult)
  finally show ?thesis .
qed

lemma length_compute_mask [simp]: "length (compute_mask k) = WORDS_PER_BLOCK"
  by (simp add: compute_mask_def)

lemma compute_mask_bit:
  assumes "i < WORDS_PER_BLOCK"
  shows "\<exists>j < 32. compute_mask k ! i = 2 ^ j"
proof -
  let ?y = "k * SBBF_SALT ! i"
  have "unat ?y < 2 ^ 32" using unsigned_less [of ?y] by simp
  then have "unat (drop_bit 27 ?y) < 32" by (simp add: unat_drop_bit_div)
  then show ?thesis using assms
    by (intro exI [of _ "unat (drop_bit 27 ?y)"]) (simp add: compute_mask_def Let_def push_bit_eq_mult)
qed

section \<open>The probe\<close>

lemma probe_all:
  assumes "\<forall>i \<in> set is. block * WORDS_PER_BLOCK + i < length ws"
  shows "probe ws block msk is
           = Ok (\<forall>i \<in> set is. ws ! (block * WORDS_PER_BLOCK + i) AND msk ! i = msk ! i)"
  using assms by (induction "is") (auto simp: Let_def)

definition holds_key :: "catalog_bloom \<Rightarrow> bytes \<Rightarrow> bool" where
  "holds_key b key \<longleftrightarrow>
     (\<forall>i < WORDS_PER_BLOCK.
        cb_words b ! (block_index (hash64 key) (num_blocks b) * WORDS_PER_BLOCK + i)
          AND compute_mask (ucast (hash64 key)) ! i = compute_mask (ucast (hash64 key)) ! i)"

lemma block_in_range:
  assumes "bloom_ok b" and "i < WORDS_PER_BLOCK"
  shows "block_index hash (num_blocks b) * WORDS_PER_BLOCK + i < length (cb_words b)"
proof -
  have "block_index hash (num_blocks b) < num_blocks b"
    using assms(1) by (intro block_index_less) (auto simp: bloom_ok_def)
  then have "Suc (block_index hash (num_blocks b)) * WORDS_PER_BLOCK \<le> num_blocks b * WORDS_PER_BLOCK"
    by (intro mult_le_mono1) simp
  then show ?thesis using assms by (simp add: bloom_ok_def)
qed

lemma might_contain_holds: "bloom_ok b \<Longrightarrow> might_contain b key = Ok (holds_key b key)"
  by (simp add: might_contain_def Let_def probe_all block_in_range holds_key_def atLeast0LessThan lessThan_def)

section \<open>Storing a key\<close>

definition store_key :: "bytes \<Rightarrow> catalog_bloom \<Rightarrow> catalog_bloom" where
  "store_key key b =
     (let base = block_index (hash64 key) (num_blocks b) * WORDS_PER_BLOCK;
          msk = compute_mask (ucast (hash64 key))
      in b\<lparr>cb_words := map (\<lambda>j. if base \<le> j \<and> j < base + WORDS_PER_BLOCK
                                then cb_words b ! j OR msk ! (j - base) else cb_words b ! j)
                           [0..<length (cb_words b)]\<rparr>)"

definition built_over :: "bytes set \<Rightarrow> catalog_bloom \<Rightarrow> bool" where
  "built_over keys b \<longleftrightarrow> bloom_ok b \<and> (\<forall>k \<in> keys. holds_key b k)"

lemma and_or_absorb: "w AND m = m \<Longrightarrow> (w OR x) AND m = (m :: 'a::len word)"
  by (metis and.assoc and.commute bit.conj_disj_distrib2 or.commute word_bw_assocs(2) word_ao_absorbs(1))

lemma store_key_ok: "bloom_ok b \<Longrightarrow> bloom_ok (store_key key b)"
  by (simp add: bloom_ok_def store_key_def Let_def)

lemma store_key_holds:
  assumes "bloom_ok b"
  shows "holds_key (store_key key b) key"
proof -
  have "(w OR m) AND m = m" for w m :: u32 by (simp add: word_ao_absorbs)
  then show ?thesis
    using block_in_range [OF assms, of _ "hash64 key"] by (simp add: holds_key_def store_key_def Let_def)
qed

lemma store_key_keeps:
  assumes "bloom_ok b" and "holds_key b key"
  shows "holds_key (store_key key' b) key"
  using assms(2) block_in_range [OF assms(1), of _ "hash64 key"]
  by (auto simp: holds_key_def store_key_def Let_def and_or_absorb)

lemma built_over_store: "built_over keys b \<Longrightarrow> built_over (insert key keys) (store_key key b)"
  by (simp add: built_over_def store_key_ok store_key_holds store_key_keeps)

lemma built_over_fold: "built_over keys b \<Longrightarrow> built_over (keys \<union> set ks) (fold store_key ks b)"
proof (induction ks arbitrary: keys b)
  case (Cons k ks)
  from Cons.IH [OF built_over_store [OF Cons.prems]] show ?case by (simp add: insert_commute)
qed simp

definition empty_bloom :: "nat \<Rightarrow> catalog_bloom" where
  "empty_bloom n = \<lparr>cb_words = replicate (n * WORDS_PER_BLOCK) 0, num_blocks = n\<rparr>"

lemma empty_bloom_ok: "0 < n \<Longrightarrow> n < 2 ^ 32 \<Longrightarrow> built_over {} (empty_bloom n)"
  by (simp add: built_over_def bloom_ok_def empty_bloom_def)

section \<open>Properties\<close>



text \<open>
  Every blob that parses is probed in range: the block index is below the number of blocks and
  the probe answers without a panic, for every key; the answer is \<open>true\<close> exactly when each of the
  eight words has the one bit the mask asks for.
\<close>

theorem probe_in_range:
  assumes "from_base64 b64 s = Some b" and "\<And>bs. b64 s = Some bs \<Longrightarrow> length bs < 2 ^ 37"
  shows "block_index (hash64 key) (num_blocks b) < num_blocks b \<and>
         might_contain b key = Ok (holds_key b key) \<and>
         (\<forall>i < WORDS_PER_BLOCK. \<exists>j < 32. compute_mask (ucast (hash64 key)) ! i = 2 ^ j)"
proof -
  have ok: "bloom_ok b" using assms by (rule from_base64_ok)
  then show ?thesis
    using compute_mask_bit by (simp add: might_contain_holds bloom_ok_def block_index_less)
qed

text \<open>
  The blob that the test \<^verbatim>\<open>probes_match_a_blob_the_fork_wrote\<close> pins, after Base64 decoding: the
  extension wrote it over the keys \<^verbatim>\<open>k1\<close> to \<^verbatim>\<open>k100\<close>.
\<close>

definition fork_blob :: bytes where
  "fork_blob =
     [54, 121, 250, 112, 213, 242, 180, 164, 110, 87, 166, 224, 89, 134, 79, 44, 139, 33, 27, 155, 57, 134, 57, 170, 220, 188, 150, 89, 42, 127, 179, 37,
      199, 76, 182, 191, 175, 134, 59, 216, 55, 135, 29, 27, 20, 181, 197, 206, 148, 115, 126, 242, 218, 216, 242, 231, 63, 166, 179, 42, 180, 179, 200, 251,
      189, 101, 221, 220, 248, 189, 253, 108, 107, 126, 123, 50, 50, 23, 213, 124, 56, 197, 214, 222, 191, 249, 33, 156, 233, 166, 150, 233, 219, 216, 195, 203,
      70, 118, 198, 111, 221, 185, 151, 77, 211, 110, 131, 170, 163, 55, 124, 54, 15, 103, 55, 79, 249, 111, 146, 147, 53, 54, 111, 41, 76, 43, 158, 103]"

definition fork_bloom :: "catalog_bloom option" where
  "fork_bloom = from_base64 (\<lambda>s. Some fork_blob) ''FORK_BLOB''"

theorem probe_in_range_witness:
  "from_base64 (\<lambda>s. Some fork_blob) ''FORK_BLOB'' = Some (the fork_bloom) \<and>
   might_contain (the fork_bloom) [107, 49] = Ok (holds_key (the fork_bloom) [107, 49])"
proof -
  have "from_base64 (\<lambda>s. Some fork_blob) ''FORK_BLOB'' = Some (the fork_bloom)"
    by (simp add: fork_bloom_def from_base64_def fork_blob_def BYTES_PER_BLOCK_def WORDS_PER_BLOCK_def)
  moreover from this have "might_contain (the fork_bloom) [107, 49] = Ok (holds_key (the fork_bloom) [107, 49])"
    using probe_in_range [of "\<lambda>s. Some fork_blob" "''FORK_BLOB''" "the fork_bloom" "[107, 49]"]
    by (simp add: fork_blob_def)
  ultimately show ?thesis ..
qed

end
