(* ===== verification/File_Index.thy ===== *)
theory File_Index
  imports Lake_Catalog Catalog_Bloom Memtable_Set
begin

text \<open>
  The file index, from \<^verbatim>\<open>src/src/index.rs\<close>: \<open>FileEntry\<close>, \<open>FileIndex::load\<close>, \<open>candidates\<close> and \<open>watermark\<close>.
  The hex decoder, the Base64 engine and the path type are code of other crates: the arguments \<open>hexd\<close>,
  \<open>b64\<close> and \<open>path_from\<close>. Postgres returns the rows of a query without ORDER BY in any order; here it is
  the order of the tables, and the index is shown not to depend on it.

  Shown: the index holds one entry per live file, newest watermark first; its watermark is the one the
  catalog publishes; a file committed by DuckDB becomes the first entry of the next index and leaves
  the others as they were; and a file is dismissed only when it cannot hold the key.
\<close>

section \<open>Entries\<close>

record file_entry =
  location :: string
  fe_watermark :: lsn
  pk_min :: bytes
  pk_max :: bytes
  file_size :: u64
  record_count :: u64
  fe_bloom :: "catalog_bloom option"

definition may_contain :: "file_entry \<Rightarrow> bytes \<Rightarrow> bool" where
  "may_contain e key \<longleftrightarrow> pk_min e \<le> key \<and> key \<le> pk_max e"

definition bloom_may_contain :: "file_entry \<Rightarrow> bytes \<Rightarrow> bool res" where
  "bloom_may_contain e key = (case fe_bloom e of None \<Rightarrow> Ok True | Some b \<Rightarrow> might_contain b key)"

definition object_path :: "(string \<Rightarrow> string) \<Rightarrow> file_entry \<Rightarrow> string \<Rightarrow> string" where
  "object_path path_from e bucket =
     (let prefix = ''s3://'' @ bucket @ ''/'';
          rel = (case strip_prefix prefix (location e) of Some r \<Rightarrow> r | None \<Rightarrow> location e)
      in path_from (dropWhile (\<lambda>c. c = CHR ''/'') rel))"

section \<open>Loading the index\<close>

type_synonym file_index = "file_entry list"

record index_row =
  ir_path :: string
  ir_size :: int
  ir_count :: int
  ir_pk_min :: "string option"
  ir_pk_max :: "string option"
  ir_lsn_max :: "string option"
  ir_bloom :: "string option"

definition stats_of :: "catalog_db \<Rightarrow> data_file_row \<Rightarrow> int \<Rightarrow> stats_row list" where
  "stats_of db f col = filter (\<lambda>s. cs_file_id s = df_id f \<and> cs_column_id s = col) (db_stats db)"

definition blooms_of :: "catalog_db \<Rightarrow> data_file_row \<Rightarrow> int \<Rightarrow> string option list" where
  "blooms_of db f col =
     (case filter (\<lambda>b. br_file_id b = df_id f \<and> br_column_id b = col) (db_blooms db) of
        [] \<Rightarrow> [None]
      | bs \<Rightarrow> map br_bloom bs)"

definition file_rows :: "catalog_db \<Rightarrow> data_file_row \<Rightarrow> index_row list" where
  "file_rows db f =
     [\<lparr>ir_path = df_path f, ir_size = df_size f, ir_count = df_records f,
       ir_pk_min = cs_min pk, ir_pk_max = cs_max pk, ir_lsn_max = cs_max l, ir_bloom = b\<rparr>.
        pk \<leftarrow> stats_of db f FIELD_ID_PK, l \<leftarrow> stats_of db f FIELD_ID_LSN, b \<leftarrow> blooms_of db f FIELD_ID_PK]"

definition index_rows :: "catalog_db \<Rightarrow> int \<Rightarrow> index_row list" where
  "index_rows db tid =
     concat (map (file_rows db) (filter (\<lambda>f. df_table_id f = tid \<and> df_end f = None) (db_files db)))"

definition get_text :: "string option \<Rightarrow> string res" where
  "get_text x = (case x of Some s \<Rightarrow> Ok s | None \<Rightarrow> Panic ''error retrieving column: unexpected null'')"

definition decode_hex :: "(string \<Rightarrow> bytes option) \<Rightarrow> string \<Rightarrow> string \<Rightarrow> bytes res" where
  "decode_hex hexd s what =
     (case hexd s of Some bs \<Rightarrow> Ok bs | None \<Rightarrow> Err (Config (what @ '' is not valid hex'')))"

definition load_entry ::
    "(string \<Rightarrow> bytes option) \<Rightarrow> (string \<Rightarrow> bytes option) \<Rightarrow> duck_lake \<Rightarrow> index_row \<Rightarrow> file_entry res" where
  "load_entry hexd b64 lake row =
     bind_res (get_text (ir_pk_min row)) (\<lambda>pk_min_hex.
     bind_res (get_text (ir_pk_max row)) (\<lambda>pk_max_hex.
     bind_res (get_text (ir_lsn_max row)) (\<lambda>lsn_max_str.
     bind_res (decode_hex hexd pk_min_hex ''pk min'') (\<lambda>lo.
     bind_res (decode_hex hexd pk_max_hex ''pk max'') (\<lambda>hi.
     case parse_u64 lsn_max_str of
       None \<Rightarrow> Err (Config (''lsn max stat is not an integer: '' @ lsn_max_str))
     | Some wm \<Rightarrow>
         Ok \<lparr>location = key_prefix lake @ ir_path row, fe_watermark = wm, pk_min = lo, pk_max = hi,
             file_size = word_of_int (ir_size row), record_count = word_of_int (ir_count row),
             fe_bloom = Option.bind (ir_bloom row) (from_base64 b64)\<rparr>)))))"

fun load_entries ::
    "(string \<Rightarrow> bytes option) \<Rightarrow> (string \<Rightarrow> bytes option) \<Rightarrow> duck_lake \<Rightarrow> index_row list \<Rightarrow> file_entry list res" where
  "load_entries hexd b64 lake [] = Ok []"
| "load_entries hexd b64 lake (row # rows) =
     bind_res (load_entry hexd b64 lake row) (\<lambda>e.
     bind_res (load_entries hexd b64 lake rows) (\<lambda>es. Ok (e # es)))"

text \<open>\<open>sort_by(|a, b| b.watermark.cmp(&a.watermark))\<close>: stable, descending.\<close>

definition newest_first :: "file_entry list \<Rightarrow> file_entry list" where
  "newest_first es = rev (sort_key fe_watermark (rev es))"

definition load_index ::
    "(string \<Rightarrow> bytes option) \<Rightarrow> (string \<Rightarrow> bytes option) \<Rightarrow> conn \<Rightarrow> catalog_db \<Rightarrow> duck_lake \<Rightarrow> file_index res" where
  "load_index hexd b64 conn db lake =
     bind_res (pg_query conn (index_rows db (lake_table_id lake))) (\<lambda>rows.
     bind_res (load_entries hexd b64 lake rows) (\<lambda>es. Ok (newest_first es)))"

definition candidates :: "file_index \<Rightarrow> bytes \<Rightarrow> file_entry list" where
  "candidates idx key = filter (\<lambda>e. may_contain e key) idx"

definition index_watermark :: "file_index \<Rightarrow> lsn" where
  "index_watermark idx = (case idx of [] \<Rightarrow> 0 | e # _ \<Rightarrow> fe_watermark e)"

section \<open>Order\<close>

lemma set_newest_first [simp]: "set (newest_first es) = set es"
  by (simp add: newest_first_def)

lemma mset_newest_first [simp]: "mset (newest_first es) = mset es"
  by (simp add: newest_first_def)

lemma sorted_newest_first: "sorted_wrt (\<ge>) (map fe_watermark (newest_first es))"
  by (simp add: newest_first_def rev_map [symmetric] sorted_wrt_rev)

lemma newest_first_snoc:
  assumes "\<forall>x \<in> set es. fe_watermark x < fe_watermark e"
  shows "newest_first (es @ [e]) = e # newest_first es"
proof -
  have "sort_key fe_watermark (e # ys) = sort_key fe_watermark ys @ [e]"
    if "\<forall>x \<in> set ys. fe_watermark x < fe_watermark e" for ys
  proof -
    have "insort_key fe_watermark e zs = zs @ [e]" if "\<forall>x \<in> set zs. fe_watermark x < fe_watermark e" for zs
      using that by (induction zs) auto
    with that show ?thesis by simp
  qed
  from this [of "rev es"] assms show ?thesis by (simp add: newest_first_def)
qed

lemma newest_first_perm:
  assumes "mset es = mset es'" and "distinct (map fe_watermark es)"
  shows "newest_first es = newest_first es'"
proof -
  have "distinct (map fe_watermark xs) \<Longrightarrow> sorted_wrt (<) (map fe_watermark (rev (newest_first xs)))" for xs
    by (simp add: newest_first_def strict_sorted_iff distinct_map)
  moreover have "distinct (map fe_watermark es')" using assms by (metis mset_eq_imp_distinct_iff mset_map)
  ultimately have "rev (newest_first es) = rev (newest_first es')"
    using assms mset_eq_setD [OF assms(1)] by (intro sorted_map_unique [of fe_watermark]) auto
  then show ?thesis by simp
qed

lemma index_watermark_max:
  "index_watermark (newest_first es) = fold max (map fe_watermark es) 0"
proof (cases "newest_first es")
  case Nil
  then have "es = []" by (metis mset_newest_first mset.simps(1) mset_zero_iff)
  then show ?thesis using Nil by (simp add: index_watermark_def)
next
  case (Cons e rest)
  have "\<forall>x \<in> set es. fe_watermark x \<le> fe_watermark e"
    using sorted_newest_first [of es] set_newest_first [of es] by (auto simp: Cons)
  moreover have "e \<in> set es" using set_newest_first [of es] unfolding Cons by auto
  ultimately have "fold max (map fe_watermark es) 0 = fe_watermark e"
    by (intro order_antisym) (auto simp: fold_max_le_iff intro: fold_max_elem)
  then show ?thesis by (simp add: index_watermark_def Cons)
qed

lemma load_entries_append:
  "load_entries hexd b64 lake (rows @ rows') =
     bind_res (load_entries hexd b64 lake rows) (\<lambda>es.
     bind_res (load_entries hexd b64 lake rows') (\<lambda>es'. Ok (es @ es')))"
  by (induction rows) (simp_all add: bind_res_assoc, (cases "load_entries hexd b64 lake rows'"; simp)+)

section \<open>What a committed file adds to the catalog\<close>

text \<open>
  A transaction of DuckDB that inserts rows commits one data file with a fresh identifier, one
  statistics row per column and possibly a filter. \<open>committed_file\<close> states that of two catalogs;
  \<open>fresh_file\<close> says what the identifier and the new rows look like.
\<close>

record new_file =
  nf_file :: data_file_row
  nf_stats :: "stats_row list"
  nf_bloom :: "bloom_row list"

definition committed_file :: "new_file \<Rightarrow> catalog_db \<Rightarrow> catalog_db" where
  "committed_file nf db =
     db\<lparr>db_files := db_files db @ [nf_file nf], db_stats := db_stats db @ nf_stats nf,
        db_blooms := db_blooms db @ nf_bloom nf\<rparr>"

definition fresh_file :: "catalog_db \<Rightarrow> int \<Rightarrow> new_file \<Rightarrow> bool" where
  "fresh_file db tid nf \<longleftrightarrow>
     df_table_id (nf_file nf) = tid \<and> df_end (nf_file nf) = None \<and>
     (\<forall>f \<in> set (db_files db). df_id f \<noteq> df_id (nf_file nf)) \<and>
     (\<forall>s \<in> set (db_stats db). cs_file_id s \<noteq> df_id (nf_file nf)) \<and>
     (\<forall>b \<in> set (db_blooms db). br_file_id b \<noteq> df_id (nf_file nf)) \<and>
     (\<forall>s \<in> set (nf_stats nf). cs_file_id s = df_id (nf_file nf) \<and> cs_table_id s = tid) \<and>
     (\<forall>b \<in> set (nf_bloom nf). br_file_id b = df_id (nf_file nf)) \<and>
     length (filter (\<lambda>s. cs_column_id s = FIELD_ID_PK) (nf_stats nf)) = 1 \<and>
     length (filter (\<lambda>s. cs_column_id s = FIELD_ID_LSN) (nf_stats nf)) = 1 \<and>
     length (filter (\<lambda>b. br_column_id b = FIELD_ID_PK) (nf_bloom nf)) \<le> 1"

lemma filter_none: "\<forall>x \<in> set xs. \<not> P x \<Longrightarrow> filter P xs = []"
  by (simp add: filter_empty_conv)

lemma index_rows_committed:
  assumes "fresh_file db tid nf"
  shows "index_rows (committed_file nf db) tid = index_rows db tid @ file_rows (committed_file nf db) (nf_file nf)"
proof -
  have ids: "df_id f \<noteq> df_id (nf_file nf)" if "f \<in> set (db_files db)" for f
    using assms that by (simp add: fresh_file_def)
  have "file_rows (committed_file nf db) f = file_rows db f" if f: "f \<in> set (db_files db)" for f
  proof -
    have "filter (\<lambda>s. cs_file_id s = df_id f \<and> cs_column_id s = c) (nf_stats nf) = []" for c
      using assms ids [OF f] by (intro filter_none) (auto simp: fresh_file_def)
    moreover have "filter (\<lambda>b. br_file_id b = df_id f \<and> br_column_id b = c) (nf_bloom nf) = []" for c
      using assms ids [OF f] by (intro filter_none) (auto simp: fresh_file_def)
    ultimately have "stats_of (committed_file nf db) f c = stats_of db f c"
      "blooms_of (committed_file nf db) f c = blooms_of db f c" for c
      by (simp_all add: stats_of_def blooms_of_def committed_file_def)
    then show ?thesis by (simp add: file_rows_def)
  qed
  then have rows: "map (file_rows (committed_file nf db)) (filter P (db_files db)) = map (file_rows db) (filter P (db_files db))" for P
    by simp
  have files: "db_files (committed_file nf db) = db_files db @ [nf_file nf]" by (simp add: committed_file_def)
  have "df_table_id (nf_file nf) = tid" "df_end (nf_file nf) = None" using assms by (simp_all add: fresh_file_def)
  then show ?thesis unfolding index_rows_def files filter_append map_append rows by simp
qed

text \<open>The row the query returns for the new file, and the entry it becomes.\<close>

definition the_stat :: "new_file \<Rightarrow> int \<Rightarrow> stats_row" where
  "the_stat nf col = hd (filter (\<lambda>s. cs_column_id s = col) (nf_stats nf))"

definition the_bloom :: "new_file \<Rightarrow> string option" where
  "the_bloom nf =
     (case filter (\<lambda>b. br_column_id b = FIELD_ID_PK) (nf_bloom nf) of [] \<Rightarrow> None | b # _ \<Rightarrow> br_bloom b)"

definition new_row :: "new_file \<Rightarrow> index_row" where
  "new_row nf =
     \<lparr>ir_path = df_path (nf_file nf), ir_size = df_size (nf_file nf), ir_count = df_records (nf_file nf),
      ir_pk_min = cs_min (the_stat nf FIELD_ID_PK), ir_pk_max = cs_max (the_stat nf FIELD_ID_PK),
      ir_lsn_max = cs_max (the_stat nf FIELD_ID_LSN), ir_bloom = the_bloom nf\<rparr>"

lemma length_1_hd: "length xs = 1 \<Longrightarrow> xs = [hd xs]"
  by (cases xs) auto

lemma file_rows_committed:
  assumes "fresh_file db tid nf"
  shows "file_rows (committed_file nf db) (nf_file nf) = [new_row nf]"
proof -
  let ?id = "df_id (nf_file nf)"
  have own: "filter (\<lambda>s. cs_file_id s = ?id \<and> cs_column_id s = c) (nf_stats nf) = filter (\<lambda>s. cs_column_id s = c) (nf_stats nf)"
    "filter (\<lambda>b. br_file_id b = ?id \<and> br_column_id b = c) (nf_bloom nf) = filter (\<lambda>b. br_column_id b = c) (nf_bloom nf)" for c
    using assms by (auto simp: fresh_file_def intro!: filter_cong)
  have old: "filter (\<lambda>s. cs_file_id s = ?id \<and> cs_column_id s = c) (db_stats db) = []"
    "filter (\<lambda>b. br_file_id b = ?id \<and> br_column_id b = c) (db_blooms db) = []" for c
    using assms by (auto simp: fresh_file_def intro!: filter_none)
  have "stats_of (committed_file nf db) (nf_file nf) c = filter (\<lambda>s. cs_column_id s = c) (nf_stats nf)" for c
    by (simp add: stats_of_def committed_file_def own old)
  then have "stats_of (committed_file nf db) (nf_file nf) FIELD_ID_PK = [the_stat nf FIELD_ID_PK]"
    "stats_of (committed_file nf db) (nf_file nf) FIELD_ID_LSN = [the_stat nf FIELD_ID_LSN]"
    using assms length_1_hd by (auto simp: fresh_file_def the_stat_def)
  moreover have "blooms_of (committed_file nf db) (nf_file nf) FIELD_ID_PK = [the_bloom nf]"
  proof -
    have "length (filter (\<lambda>b. br_column_id b = FIELD_ID_PK) (nf_bloom nf)) \<le> 1" using assms by (simp add: fresh_file_def)
    then show ?thesis
      by (cases "filter (\<lambda>b. br_column_id b = FIELD_ID_PK) (nf_bloom nf)")
        (simp_all add: blooms_of_def committed_file_def own old the_bloom_def)
  qed
  ultimately show ?thesis by (simp add: file_rows_def new_row_def)
qed

lemma load_entries_committed:
  assumes "fresh_file db tid nf" and "load_entries hexd b64 lake (index_rows db tid) = Ok es"
    and "load_entry hexd b64 lake (new_row nf) = Ok e"
  shows "load_entries hexd b64 lake (index_rows (committed_file nf db) tid) = Ok (es @ [e])"
  by (simp add: index_rows_committed [OF assms(1)] file_rows_committed [OF assms(1)] load_entries_append assms(2,3))

section \<open>Watermarks\<close>

text \<open>The values the watermark query reads, statistics row by statistics row.\<close>

definition stat_values :: "catalog_db \<Rightarrow> int \<Rightarrow> stats_row \<Rightarrow> string option list" where
  "stat_values db tid s =
     (if cs_table_id s = tid \<and> cs_column_id s = FIELD_ID_LSN
      then map (\<lambda>_. cs_max s) (filter (\<lambda>f. df_id f = cs_file_id s \<and> df_end f = None) (db_files db)) else [])"

lemma watermark_values_eq: "watermark_values db tid = concat (map (stat_values db tid) (db_stats db))"
proof -
  have eq: "concat (map (\<lambda>f. if df_id f = cs_file_id s \<and> cs_table_id s = tid \<and> cs_column_id s = FIELD_ID_LSN \<and> df_end f = None
      then [cs_max s] else []) fs)
    = (if cs_table_id s = tid \<and> cs_column_id s = FIELD_ID_LSN
       then map (\<lambda>_. cs_max s) (filter (\<lambda>f. df_id f = cs_file_id s \<and> df_end f = None) fs) else [])" for s fs
    by (induction fs) auto
  show ?thesis unfolding watermark_values_def stat_values_def eq ..
qed

lemma watermark_values_committed:
  assumes "fresh_file db tid nf"
  shows "watermark_values (committed_file nf db) tid = watermark_values db tid @ [cs_max (the_stat nf FIELD_ID_LSN)]"
proof -
  let ?db = "committed_file nf db"
  let ?lsn = "\<lambda>s. cs_column_id s = FIELD_ID_LSN"
  have files: "db_files ?db = db_files db @ [nf_file nf]" and stats: "db_stats ?db = db_stats db @ nf_stats nf"
    by (simp_all add: committed_file_def)
  have "stat_values ?db tid s = stat_values db tid s" if "s \<in> set (db_stats db)" for s
  proof -
    have "df_id (nf_file nf) \<noteq> cs_file_id s" using assms that unfolding fresh_file_def by metis
    then show ?thesis by (simp add: stat_values_def files)
  qed
  then have old: "map (stat_values ?db tid) (db_stats db) = map (stat_values db tid) (db_stats db)" by simp
  have "stat_values ?db tid s = (if ?lsn s then [cs_max s] else [])" if "s \<in> set (nf_stats nf)" for s
  proof -
    have "filter (\<lambda>f. df_id f = df_id (nf_file nf) \<and> df_end f = None) (db_files db) = []"
      using assms by (intro filter_none) (auto simp: fresh_file_def)
    moreover have "cs_file_id s = df_id (nf_file nf)" "cs_table_id s = tid" "df_end (nf_file nf) = None"
      using assms that by (auto simp: fresh_file_def)
    ultimately show ?thesis by (simp add: stat_values_def files)
  qed
  then have new: "map (stat_values ?db tid) (nf_stats nf) = map (\<lambda>s. if ?lsn s then [cs_max s] else []) (nf_stats nf)" by simp
  have flat: "concat (map (\<lambda>s. if ?lsn s then [cs_max s] else []) xs) = map cs_max (filter ?lsn xs)" for xs
    by (induction xs) auto
  have "filter ?lsn (nf_stats nf) = [the_stat nf FIELD_ID_LSN]"
    using assms length_1_hd [of "filter ?lsn (nf_stats nf)"] by (simp add: fresh_file_def the_stat_def)
  then show ?thesis unfolding watermark_values_eq stats map_append concat_append old new flat by simp
qed

lemma strict_of_distinct: "sorted_wrt (\<ge>) xs \<Longrightarrow> distinct xs \<Longrightarrow> sorted_wrt (>) (xs :: 'a::linorder list)"
  by (induction xs) (auto simp: order_less_le)

definition ok_val :: "'a res \<Rightarrow> 'a" where
  "ok_val r = (case r of Ok x \<Rightarrow> x)"

lemma load_entries_Ok:
  "load_entries hexd b64 lake rows = Ok es \<longleftrightarrow>
     es = map (ok_val \<circ> load_entry hexd b64 lake) rows \<and> (\<forall>r \<in> set rows. \<exists>e. load_entry hexd b64 lake r = Ok e)"
proof (induction rows arbitrary: es)
  case (Cons r rows)
  show ?case
    by (cases "load_entry hexd b64 lake r") (auto simp: bind_res_Ok_iff Cons ok_val_def)
qed auto

lemma load_entries_perm:
  assumes "load_entries hexd b64 lake rows = Ok es" and "mset rows' = mset rows"
  shows "\<exists>es'. load_entries hexd b64 lake rows' = Ok es' \<and> mset es' = mset es"
proof -
  have "set rows' = set rows" using assms(2) by (rule mset_eq_setD)
  with assms show ?thesis by (auto simp: load_entries_Ok)
qed

lemma load_index_Ok:
  "load_index hexd b64 None db lake = Ok idx \<longleftrightarrow>
     (\<exists>es. load_entries hexd b64 lake (index_rows db (lake_table_id lake)) = Ok es \<and> idx = newest_first es)"
  by (auto simp: load_index_def pg_query_def bind_res_Ok_iff)

section \<open>The catalog and its index\<close>

text \<open>
  The state of the catalog the engine relies on: the index loads, the \<open>lsn\<close> statistics are decimals
  below \<open>2 ^ 63\<close>, and their maximum is the watermark of the index. Committing a file keeps it.
\<close>

definition cat_inv ::
    "(string \<Rightarrow> bytes option) \<Rightarrow> (string \<Rightarrow> bytes option) \<Rightarrow> catalog_db \<Rightarrow> duck_lake \<Rightarrow> file_index \<Rightarrow> bool" where
  "cat_inv hexd b64 db lake idx \<longleftrightarrow>
     load_index hexd b64 None db lake = Ok idx \<and>
     (\<exists>ns. watermark_values db (lake_table_id lake) = map (\<lambda>n. Some (show_nat n)) ns \<and>
           (\<forall>n \<in> set ns. n < 2 ^ 63) \<and> fold max ns 0 = unat (index_watermark idx))"

lemma parse_show_nat: "n < 2 ^ 64 \<Longrightarrow> parse_u64 (show_nat n) = Some (of_nat n)"
  by (simp add: parse_u64_digits show_nat_digits dec_value_show_nat)

lemma cat_inv_watermark:
  assumes "cat_inv hexd b64 db lake idx" and "bigint_ok bigint"
  shows "published_watermark bigint None db lake = Ok (index_watermark idx)"
proof -
  from assms(1) obtain ns where ns: "watermark_values db (lake_table_id lake) = map (\<lambda>n. Some (show_nat n)) ns"
    "\<forall>n \<in> set ns. n < 2 ^ 63" "fold max ns 0 = unat (index_watermark idx)" by (auto simp: cat_inv_def)
  from max_cast_decimals [OF assms(2) ns(2), of None] ns(1,3) show ?thesis
    by (simp add: published_watermark_def pg_query_def)
qed

lemma cat_inv_commit:
  assumes inv: "cat_inv hexd b64 db lake idx" and fresh: "fresh_file db (lake_table_id lake) nf"
    and e: "load_entry hexd b64 lake (new_row nf) = Ok e"
    and wm: "cs_max (the_stat nf FIELD_ID_LSN) = Some (show_nat (unat (fe_watermark e)))"
      "unat (fe_watermark e) < 2 ^ 63" "index_watermark idx < fe_watermark e"
  shows "cat_inv hexd b64 (committed_file nf db) lake (e # idx)"
proof -
  from inv obtain es ns where es: "load_entries hexd b64 lake (index_rows db (lake_table_id lake)) = Ok es" "idx = newest_first es"
    and ns: "watermark_values db (lake_table_id lake) = map (\<lambda>n. Some (show_nat n)) ns"
      "\<forall>n \<in> set ns. n < 2 ^ 63" "fold max ns 0 = unat (index_watermark idx)"
    by (auto simp: cat_inv_def load_index_Ok)
  have "fe_watermark x \<le> index_watermark idx" if "x \<in> set es" for x
    unfolding es(2) index_watermark_max using that by (intro fold_max_elem) simp
  then have "\<forall>x \<in> set es. fe_watermark x < fe_watermark e" using wm(3) by (auto intro: order.strict_trans1)
  then have "load_index hexd b64 None (committed_file nf db) lake = Ok (e # idx)"
    using load_entries_committed [OF fresh es(1) e] es(2) by (auto simp: load_index_Ok newest_first_snoc)
  moreover have "watermark_values (committed_file nf db) (lake_table_id lake)
      = map (\<lambda>n. Some (show_nat n)) (ns @ [unat (fe_watermark e)])"
    using watermark_values_committed [OF fresh] ns(1) wm(1) by simp
  moreover have "fold max (ns @ [unat (fe_watermark e)]) 0 = unat (index_watermark (e # idx))"
    using ns(3) wm(3) by (simp add: index_watermark_def word_less_nat_alt)
  ultimately show ?thesis
    unfolding cat_inv_def using ns(2) wm(2) by (intro conjI exI [of _ "ns @ [unat (fe_watermark e)]"]) simp_all
qed

section \<open>Properties\<close>

text \<open>
  C28. The index does not depend on the order in which the catalog returns its rows, when no two files
  share a watermark: it lists the same entries newest first, its watermark is the highest of all, and
  the candidates for a key are exactly the entries whose bounds enclose it, newest first.
\<close>

theorem index_newest_first:
  assumes "load_entries hexd b64 lake (index_rows db (lake_table_id lake)) = Ok es"
    and "mset (index_rows db' (lake_table_id lake)) = mset (index_rows db (lake_table_id lake))"
    and "distinct (map fe_watermark es)"
  shows "\<exists>idx. load_index hexd b64 None db lake = Ok idx \<and> load_index hexd b64 None db' lake = Ok idx \<and>
           mset idx = mset es \<and> sorted_wrt (>) (map fe_watermark idx) \<and>
           index_watermark idx = fold max (map fe_watermark es) 0 \<and>
           set (candidates idx key) = {e \<in> set es. pk_min e \<le> key \<and> key \<le> pk_max e} \<and>
           sorted_wrt (>) (map fe_watermark (candidates idx key))"
proof -
  from load_entries_perm [OF assms(1,2)] obtain es' where
    es': "load_entries hexd b64 lake (index_rows db' (lake_table_id lake)) = Ok es'" "mset es' = mset es" by blast
  have "distinct (map fe_watermark (newest_first es))"
    using assms(3) by (metis mset_eq_imp_distinct_iff mset_map mset_newest_first)
  with sorted_newest_first [of es] have srt: "sorted_wrt (>) (map fe_watermark (newest_first es))"
    by (rule strict_of_distinct)
  have "load_index hexd b64 None db' lake = Ok (newest_first es)"
    using es' newest_first_perm [OF es'(2) [symmetric] assms(3)] by (auto simp: load_index_Ok)
  moreover have "load_index hexd b64 None db lake = Ok (newest_first es)" using assms(1) by (auto simp: load_index_Ok)
  moreover have "sorted_wrt (>) (map fe_watermark (candidates (newest_first es) key))"
    using srt by (simp add: candidates_def sorted_wrt_map sorted_wrt_filter)
  ultimately show ?thesis
    using srt by (intro exI [of _ "newest_first es"]) (auto simp: index_watermark_max candidates_def may_contain_def)
qed

definition sample_hex :: "string \<Rightarrow> bytes option" where
  "sample_hex s = (if s = ''61'' then Some [97] else if s = ''62'' then Some [98] else None)"

definition sample_entry :: file_entry where
  "sample_entry = \<lparr>location = ''hg/main/kv/a.parquet'', fe_watermark = 7, pk_min = [97], pk_max = [98],
     file_size = 10, record_count = 1, fe_bloom = None\<rparr>"

lemma parse_u64_7: "parse_u64 ''7'' = Some 7"
  using parse_show_nat [of 7] by (simp add: show_nat_7)

lemma sample_entries: "load_entries sample_hex (\<lambda>_. None) sample_lake (index_rows sample_db 1) = Ok [sample_entry]"
  by (simp add: index_rows_def file_rows_def stats_of_def blooms_of_def sample_db_def FIELD_ID_PK_def FIELD_ID_LSN_def
      load_entry_def get_text_def decode_hex_def sample_hex_def parse_u64_7 sample_lake_def sample_entry_def)

theorem index_newest_first_witness:
  "\<exists>idx. load_index sample_hex (\<lambda>_. None) None sample_db sample_lake = Ok idx \<and>
     load_index sample_hex (\<lambda>_. None) None sample_db sample_lake = Ok idx \<and>
     mset idx = mset [sample_entry] \<and> sorted_wrt (>) (map fe_watermark idx) \<and>
     index_watermark idx = fold max (map fe_watermark [sample_entry]) 0 \<and>
     set (candidates idx [97]) = {e \<in> set [sample_entry]. pk_min e \<le> [97] \<and> [97] \<le> pk_max e} \<and>
     sorted_wrt (>) (map fe_watermark (candidates idx [97]))"
  by (rule index_newest_first) (simp_all add: sample_entries [unfolded sample_lake_def] sample_lake_def)

text \<open>
  A committed file. After DuckDB commits one more data file, with a fresh identifier, its
  statistics and possibly a filter, and a higher \<open>lsn\<close> than any before, the next index is the old one
  with the new file in front, and the watermark the catalog publishes is the new file's, equal to the
  index's own.
\<close>

theorem commit_extends_index:
  assumes "cat_inv hexd b64 db lake idx" and "bigint_ok bigint"
    and "fresh_file db (lake_table_id lake) nf" and "load_entry hexd b64 lake (new_row nf) = Ok e"
    and "cs_max (the_stat nf FIELD_ID_LSN) = Some (show_nat (unat (fe_watermark e)))"
    and "unat (fe_watermark e) < 2 ^ 63" and "index_watermark idx < fe_watermark e"
  shows "published_watermark bigint None db lake = Ok (index_watermark idx) \<and>
         load_index hexd b64 None (committed_file nf db) lake = Ok (e # idx) \<and>
         published_watermark bigint None (committed_file nf db) lake = Ok (fe_watermark e) \<and>
         cat_inv hexd b64 (committed_file nf db) lake (e # idx)"
proof -
  have inv: "cat_inv hexd b64 (committed_file nf db) lake (e # idx)"
    using assms(1,3-7) by (rule cat_inv_commit)
  then show ?thesis
    using cat_inv_watermark [OF assms(1,2)] cat_inv_watermark [OF inv assms(2)]
    by (simp add: cat_inv_def index_watermark_def)
qed

definition empty_db :: catalog_db where
  "empty_db = \<lparr>db_files = [], db_stats = [], db_blooms = [], db_columns = [], db_tables = [], db_schemas = []\<rparr>"

definition sample_new :: new_file where
  "sample_new = \<lparr>nf_file = hd (db_files sample_db), nf_stats = db_stats sample_db, nf_bloom = []\<rparr>"

lemma empty_db_inv: "cat_inv hexd b64 empty_db lake []"
  by (simp add: cat_inv_def load_index_Ok index_rows_def watermark_values_def empty_db_def newest_first_def index_watermark_def)

theorem commit_extends_index_witness:
  "published_watermark sample_bigint None empty_db sample_lake = Ok (index_watermark []) \<and>
   load_index sample_hex (\<lambda>_. None) None (committed_file sample_new empty_db) sample_lake = Ok [sample_entry] \<and>
   published_watermark sample_bigint None (committed_file sample_new empty_db) sample_lake = Ok (fe_watermark sample_entry) \<and>
   cat_inv sample_hex (\<lambda>_. None) (committed_file sample_new empty_db) sample_lake [sample_entry]"
proof (rule commit_extends_index [OF empty_db_inv sample_bigint_ok])
  show "fresh_file empty_db (lake_table_id sample_lake) sample_new"
    by (simp add: fresh_file_def empty_db_def sample_lake_def sample_new_def sample_db_def FIELD_ID_PK_def FIELD_ID_LSN_def)
  show "load_entry sample_hex (\<lambda>_. None) sample_lake (new_row sample_new) = Ok sample_entry"
    by (simp add: new_row_def the_stat_def the_bloom_def sample_new_def sample_db_def FIELD_ID_PK_def FIELD_ID_LSN_def
        load_entry_def get_text_def decode_hex_def sample_hex_def parse_u64_7 sample_lake_def sample_entry_def)
  show "cs_max (the_stat sample_new FIELD_ID_LSN) = Some (show_nat (unat (fe_watermark sample_entry)))"
    by (simp add: the_stat_def sample_new_def sample_db_def FIELD_ID_LSN_def sample_entry_def show_nat_7)
qed (simp_all add: sample_entry_def index_watermark_def)

text \<open>
  A dismissal is never wrong. If a file's bounds enclose its keys and its filter, if it has one,
  was built over them, then for every key it holds both the interval check and the filter answer that
  it may be there; and no probe panics.
\<close>

theorem dismissal_is_safe:
  assumes "\<forall>k \<in> ks. pk_min e \<le> k \<and> k \<le> pk_max e"
    and "\<And>b. fe_bloom e = Some b \<Longrightarrow> built_over ks b"
  shows "(key \<in> ks \<longrightarrow> may_contain e key \<and> bloom_may_contain e key = Ok True) \<and>
         (\<exists>x. bloom_may_contain e key = Ok x)"
proof (cases "fe_bloom e")
  case None
  then show ?thesis using assms(1) by (auto simp: may_contain_def bloom_may_contain_def)
next
  case (Some b)
  with assms(2) have "built_over ks b" .
  then show ?thesis
    using assms(1) Some by (auto simp: may_contain_def bloom_may_contain_def built_over_def might_contain_holds)
qed

theorem dismissal_is_safe_witness:
  "([97] \<in> {[97 :: u8], [98]} \<longrightarrow> may_contain sample_entry [97] \<and> bloom_may_contain sample_entry [97] = Ok True) \<and>
   (\<exists>x. bloom_may_contain sample_entry [97] = Ok x)"
  by (rule dismissal_is_safe) (auto simp: sample_entry_def)

end
