(* ===== verification/Byte_Cache.thy ===== *)
theory Byte_Cache
  imports Latency_Shim "HOL-Library.AList" "HOL-Library.Multiset"
begin

text \<open>
  The local cache of Parquet byte ranges, from \<^verbatim>\<open>src/src/cache.rs\<close>: \<open>ByteCache\<close>, \<open>MetadataCache\<close>,
  \<open>RangeFetcher\<close> and \<open>CachedReader\<close>.

  The hash map is an association list, the B-tree map an association list in key order. Reading a range
  of an object is the argument \<open>getr\<close>: lake objects are written once, so it is a function. The Parquet
  reader that drives the cache is code of another crate; a computation of it that asks for ranges is a
  value of type \<open>prog\<close>, and running it is feeding it the ranges. Concurrent fetches are polled in order
  and complete in an order that the argument \<open>sched\<close> chooses.

  Shown: the bytes resident are counted exactly and never exceed the budget; eviction takes the least
  recently used ranges, and no more than needed; a range too large is served and not kept; and the
  cache is transparent: what the reader computes through it is what it computes from the store.
\<close>

section \<open>The cache\<close>

record cache_key =
  ck_path :: string
  ck_start :: u64
  ck_end :: u64

record cache_stats =
  hits :: u64
  misses :: u64
  bytes_fetched :: u64
  evictions :: u64

record cache_stats_snapshot =
  sn_hits :: u64
  sn_misses :: u64
  sn_bytes_fetched :: u64
  sn_evictions :: u64
  bytes_resident :: u64

record cache_inner =
  entries :: "(cache_key \<times> (bytes \<times> u64)) list"
  by_recency :: "(u64 \<times> cache_key) list"
  resident :: u64
  tick :: u64

record byte_cache =
  bc_inner :: cache_inner
  bc_max_bytes :: u64
  bc_stats :: cache_stats

definition byte_cache_new :: "u64 \<Rightarrow> byte_cache" where
  "byte_cache_new max_bytes =
     \<lparr>bc_inner = \<lparr>entries = [], by_recency = [], resident = 0, tick = 0\<rparr>, bc_max_bytes = max_bytes,
      bc_stats = \<lparr>hits = 0, misses = 0, bytes_fetched = 0, evictions = 0\<rparr>\<rparr>"

text \<open>\<open>BTreeMap::insert\<close> and \<open>remove\<close>.\<close>

fun bt_insert :: "'k::linorder \<Rightarrow> 'v \<Rightarrow> ('k \<times> 'v) list \<Rightarrow> ('k \<times> 'v) list" where
  "bt_insert k v [] = [(k, v)]"
| "bt_insert k v ((k', v') # xs) =
     (if k < k' then (k, v) # (k', v') # xs
      else if k = k' then (k, v) # xs
      else (k', v') # bt_insert k v xs)"

definition bt_remove :: "'k \<Rightarrow> ('k \<times> 'v) list \<Rightarrow> ('k \<times> 'v) list" where
  "bt_remove k xs = filter (\<lambda>p. fst p \<noteq> k) xs"

definition cache_get :: "cache_key \<Rightarrow> byte_cache \<Rightarrow> bytes option \<times> byte_cache" where
  "cache_get key c =
     (let i = bc_inner c
      in case map_of (entries i) key of
           None \<Rightarrow> (None, c)
         | Some (bs, old_tick) \<Rightarrow>
             let t = tick i + 1
             in (Some bs,
                 c\<lparr>bc_inner := i\<lparr>by_recency := bt_insert t key (bt_remove old_tick (by_recency i)),
                                  tick := t,
                                  entries := AList.update key (bs, t) (entries i)\<rparr>,
                   bc_stats := (bc_stats c)\<lparr>hits := hits (bc_stats c) + 1\<rparr>\<rparr>))"

text \<open>The eviction loop of \<open>insert\<close>, by recursion on the recency list it pops.\<close>

fun evict ::
    "u64 \<Rightarrow> u64 \<Rightarrow> (u64 \<times> cache_key) list \<Rightarrow> (cache_key \<times> (bytes \<times> u64)) list \<Rightarrow> u64 \<Rightarrow> u64
      \<Rightarrow> (u64 \<times> cache_key) list \<times> (cache_key \<times> (bytes \<times> u64)) list \<times> u64 \<times> u64" where
  "evict sz mx [] es res ev = ([], es, res, ev)"
| "evict sz mx ((t, victim) # rest) es res ev =
     (if mx < res + sz
      then (case map_of es victim of
              Some (evicted, _) \<Rightarrow>
                evict sz mx rest (AList.delete victim es) (res - min (of_nat (length evicted)) res) (ev + 1)
            | None \<Rightarrow> evict sz mx rest es res ev)
      else ((t, victim) # rest, es, res, ev))"

definition cache_insert :: "cache_key \<Rightarrow> bytes \<Rightarrow> byte_cache \<Rightarrow> byte_cache" where
  "cache_insert key bs c =
     (let sz = of_nat (length bs) :: u64
      in if bc_max_bytes c < sz then c
         else
           let i = bc_inner c;
               (es0, br0, res0) =
                 (case map_of (entries i) key of
                    Some (_, old_tick) \<Rightarrow>
                      (AList.delete key (entries i), bt_remove old_tick (by_recency i), resident i - min sz (resident i))
                  | None \<Rightarrow> (entries i, by_recency i, resident i));
               (br1, es1, res1, ev1) = evict sz (bc_max_bytes c) br0 es0 res0 (evictions (bc_stats c));
               t = tick i + 1
           in c\<lparr>bc_inner := \<lparr>entries = AList.update key (bs, t) es1, by_recency = bt_insert t key br1,
                              resident = res1 + sz, tick = t\<rparr>,
                bc_stats := (bc_stats c)\<lparr>evictions := ev1\<rparr>\<rparr>)"

definition cache_stats_of :: "byte_cache \<Rightarrow> cache_stats_snapshot" where
  "cache_stats_of c =
     \<lparr>sn_hits = hits (bc_stats c), sn_misses = misses (bc_stats c), sn_bytes_fetched = bytes_fetched (bc_stats c),
      sn_evictions = evictions (bc_stats c), bytes_resident = resident (bc_inner c)\<rparr>"

definition reset_stats :: "byte_cache \<Rightarrow> byte_cache" where
  "reset_stats c = c\<lparr>bc_stats := \<lparr>hits = 0, misses = 0, bytes_fetched = 0, evictions = 0\<rparr>\<rparr>"

section \<open>Fetching ranges\<close>

text \<open>A failed read of the store carries its message; the fetcher wraps it as a Parquet error.\<close>

type_synonym get_range = "string \<Rightarrow> range \<Rightarrow> string + bytes"

definition count_miss :: "byte_cache \<Rightarrow> byte_cache" where
  "count_miss c = c\<lparr>bc_stats := (bc_stats c)\<lparr>misses := misses (bc_stats c) + 1\<rparr>\<rparr>"

definition key_of :: "string \<Rightarrow> range \<Rightarrow> cache_key" where
  "key_of path r = \<lparr>ck_path = path, ck_start = fst r, ck_end = snd r\<rparr>"

text \<open>What happens when a range arrives from the store: count the bytes, keep them, hand them on.\<close>

definition fetched :: "string \<Rightarrow> range \<Rightarrow> bytes \<Rightarrow> byte_cache \<Rightarrow> byte_cache" where
  "fetched path r bs c =
     cache_insert (key_of path r) bs
       (c\<lparr>bc_stats := (bc_stats c)\<lparr>bytes_fetched := bytes_fetched (bc_stats c) + of_nat (length bs)\<rparr>\<rparr>)"

definition fetch_range :: "get_range \<Rightarrow> string \<Rightarrow> range \<Rightarrow> byte_cache \<Rightarrow> bytes res \<times> byte_cache" where
  "fetch_range getr path r c =
     (case cache_get (key_of path r) c of
        (Some hit, c') \<Rightarrow> (Ok hit, c')
      | (None, c') \<Rightarrow>
          let c1 = count_miss c'
          in case getr path r of
               Inr bs \<Rightarrow> (Ok bs, fetched path r bs c1)
             | Inl m \<Rightarrow> (Err (Parquet m), c1))"

text \<open>
  \<open>get_byte_ranges\<close>: every fetch runs to its first await in order, so the hits are known and the
  misses counted; then the misses complete in the order the scheduler chooses, and the first failure ends
  the join.
\<close>

fun poll_all :: "string \<Rightarrow> range list \<Rightarrow> byte_cache \<Rightarrow> bytes option list \<times> byte_cache" where
  "poll_all path [] c = ([], c)"
| "poll_all path (r # rs) c =
     (case cache_get (key_of path r) c of
        (Some hit, c') \<Rightarrow> (case poll_all path rs c' of (hs, c2) \<Rightarrow> (Some hit # hs, c2))
      | (None, c') \<Rightarrow> (case poll_all path rs (count_miss c') of (hs, c2) \<Rightarrow> (None # hs, c2)))"

fun complete_all ::
    "get_range \<Rightarrow> string \<Rightarrow> range list \<Rightarrow> nat list \<Rightarrow> bytes option list \<Rightarrow> byte_cache \<Rightarrow> bytes option list res \<times> byte_cache" where
  "complete_all getr path rs [] hs c = (Ok hs, c)"
| "complete_all getr path rs (n # ns) hs c =
     (case getr path (rs ! n) of
        Inr bs \<Rightarrow> complete_all getr path rs ns (hs[n := Some bs]) (fetched path (rs ! n) bs c)
      | Inl m \<Rightarrow> (Err (Parquet m), c))"

definition missing_at :: "bytes option list \<Rightarrow> nat list" where
  "missing_at hs = filter (\<lambda>n. hs ! n = None) [0..<length hs]"

type_synonym scheduler = "byte_cache \<Rightarrow> nat list \<Rightarrow> nat list"

definition get_byte_ranges ::
    "get_range \<Rightarrow> scheduler \<Rightarrow> string \<Rightarrow> range list \<Rightarrow> byte_cache \<Rightarrow> bytes list res \<times> byte_cache" where
  "get_byte_ranges getr sched path rs c =
     (case poll_all path rs c of (hs, c1) \<Rightarrow>
        (case complete_all getr path rs (sched c1 (missing_at hs)) hs c1 of
           (Ok got, c2) \<Rightarrow> (Ok (map the got), c2)
         | (Err e, c2) \<Rightarrow> (Err e, c2)
         | (Panic p, c2) \<Rightarrow> (Panic p, c2)))"

section \<open>The reader's computations\<close>

datatype 'a prog = Ret 'a | Fail string | Fetch range "bytes \<Rightarrow> 'a prog" | FetchMany "range list" "bytes list \<Rightarrow> 'a prog"

primrec run_cached ::
    "get_range \<Rightarrow> scheduler \<Rightarrow> string \<Rightarrow> 'a prog \<Rightarrow> byte_cache \<Rightarrow> 'a res \<times> byte_cache" where
  "run_cached getr sched path (Ret x) = (\<lambda>c. (Ok x, c))"
| "run_cached getr sched path (Fail m) = (\<lambda>c. (Err (Parquet m), c))"
| "run_cached getr sched path (Fetch r k) = (\<lambda>c.
     case fetch_range getr path r c of
       (Ok bs, c') \<Rightarrow> run_cached getr sched path (k bs) c'
     | (Err e, c') \<Rightarrow> (Err e, c')
     | (Panic p, c') \<Rightarrow> (Panic p, c'))"
| "run_cached getr sched path (FetchMany rs k) = (\<lambda>c.
     case get_byte_ranges getr sched path rs c of
       (Ok bss, c') \<Rightarrow> run_cached getr sched path (k bss) c'
     | (Err e, c') \<Rightarrow> (Err e, c')
     | (Panic p, c') \<Rightarrow> (Panic p, c'))"

text \<open>The same computation against the store itself, with no cache.\<close>

fun read_all :: "get_range \<Rightarrow> string \<Rightarrow> range list \<Rightarrow> bytes list res" where
  "read_all getr path [] = Ok []"
| "read_all getr path (r # rs) =
     (case getr path r of
        Inl m \<Rightarrow> Err (Parquet m)
      | Inr b \<Rightarrow> bind_res (read_all getr path rs) (\<lambda>bs. Ok (b # bs)))"

primrec run_direct :: "get_range \<Rightarrow> string \<Rightarrow> 'a prog \<Rightarrow> 'a res" where
  "run_direct getr path (Ret x) = Ok x"
| "run_direct getr path (Fail m) = Err (Parquet m)"
| "run_direct getr path (Fetch r k) =
     (case getr path r of Inr bs \<Rightarrow> run_direct getr path (k bs) | Inl m \<Rightarrow> Err (Parquet m))"
| "run_direct getr path (FetchMany rs k) =
     (case read_all getr path rs of Ok bss \<Rightarrow> run_direct getr path (k bss) | Err e \<Rightarrow> Err e | Panic p \<Rightarrow> Panic p)"

section \<open>Cached footers\<close>

type_synonym 'a meta_cache = "(string \<times> 'a) list"

definition get_metadata ::
    "get_range \<Rightarrow> scheduler \<Rightarrow> (u64 \<Rightarrow> 'a prog) \<Rightarrow> string \<Rightarrow> u64 \<Rightarrow> 'a meta_cache \<times> byte_cache
      \<Rightarrow> 'a res \<times> ('a meta_cache \<times> byte_cache)" where
  "get_metadata getr sched load path sz = (\<lambda>(mc, c).
     case map_of mc path of
       Some hit \<Rightarrow> (Ok hit, (mc, c))
     | None \<Rightarrow>
         (case run_cached getr sched path (load sz) c of
            (Ok m, c') \<Rightarrow> (Ok m, (AList.update path m mc, c'))
          | (Err e, c') \<Rightarrow> (Err e, (mc, c'))
          | (Panic p, c') \<Rightarrow> (Panic p, (mc, c'))))"

section \<open>Transparency\<close>

text \<open>Every range kept is what the store holds for it.\<close>

definition cache_holds :: "get_range \<Rightarrow> byte_cache \<Rightarrow> bool" where
  "cache_holds getr c \<longleftrightarrow>
     (\<forall>k b t. map_of (entries (bc_inner c)) k = Some (b, t) \<longrightarrow> getr (ck_path k) (ck_start k, ck_end k) = Inr b)"

definition sched_ok :: "scheduler \<Rightarrow> bool" where
  "sched_ok sched \<longleftrightarrow> (\<forall>c ns. mset (sched c ns) = mset ns)"

lemma key_of_simps [simp]: "ck_path (key_of p r) = p" "(ck_start (key_of p r), ck_end (key_of p r)) = r"
  by (simp_all add: key_of_def)

lemma cache_holds_new [simp]: "cache_holds getr (byte_cache_new n)"
  by (simp add: cache_holds_def byte_cache_new_def)

lemma cache_holds_stats [simp]: "cache_holds getr (c\<lparr>bc_stats := s\<rparr>) = cache_holds getr c"
  by (simp add: cache_holds_def)

lemma cache_holds_miss [simp]: "cache_holds getr (count_miss c) = cache_holds getr c"
  by (simp add: count_miss_def)

lemma cache_get_hit:
  assumes "cache_holds getr c" and "cache_get (key_of path r) c = (Some b, c')"
  shows "getr path r = Inr b \<and> cache_holds getr c'"
proof -
  from assms(2) obtain t where t: "map_of (entries (bc_inner c)) (key_of path r) = Some (b, t)"
    by (auto simp: cache_get_def Let_def split: option.splits)
  have hit: "getr path r = Inr b"
    using assms(1) t unfolding cache_holds_def by (metis key_of_simps)
  have "entries (bc_inner c') = AList.update (key_of path r) (b, tick (bc_inner c) + 1) (entries (bc_inner c))"
    using assms(2) t by (auto simp: cache_get_def Let_def)
  with assms(1) hit show ?thesis by (auto simp: cache_holds_def update_conv')
qed

lemma cache_get_miss: "cache_get k c = (None, c') \<Longrightarrow> c' = c"
  by (auto simp: cache_get_def Let_def split: option.splits)

lemma evict_subset:
  "evict sz mx br es res ev = (br', es', res', ev') \<Longrightarrow> map_of es' k = Some v \<Longrightarrow> map_of es k = Some v"
proof (induction sz mx br es res ev arbitrary: br' es' res' ev' rule: evict.induct)
  case (2 sz mx t victim rest es res ev)
  show ?case
  proof (cases "mx < res + sz")
    case True
    show ?thesis
    proof (cases "map_of es victim")
      case None
      with True 2 show ?thesis by simp
    next
      case (Some p)
      then obtain b u where p: "map_of es victim = Some (b, u)" by (cases p) auto
      have "map_of (AList.delete victim es) k = Some v"
        using True p 2(3,4) by (intro 2(2) [OF True p refl]) simp_all
      then show ?thesis by (simp add: delete_conv' split: if_splits)
    qed
  qed (use 2 in simp)
qed simp

lemma cache_insert_entries:
  assumes "map_of (entries (bc_inner (cache_insert k b c))) k' = Some (b', t')"
  shows "(k' = k \<and> b' = b) \<or> map_of (entries (bc_inner c)) k' = Some (b', t')"
proof (cases "bc_max_bytes c < (of_nat (length b) :: u64)")
  case True
  with assms show ?thesis by (simp add: cache_insert_def)
next
  case False
  let ?i = "bc_inner c"
  obtain es0 br0 res0 where pre: "(case map_of (entries ?i) k of
        Some (_, old_tick) \<Rightarrow> (AList.delete k (entries ?i), bt_remove old_tick (by_recency ?i),
            resident ?i - min (of_nat (length b)) (resident ?i))
      | None \<Rightarrow> (entries ?i, by_recency ?i, resident ?i)) = (es0, br0, res0)" by (metis prod_cases3)
  obtain br1 es1 res1 ev1 where
    ev: "evict (of_nat (length b)) (bc_max_bytes c) br0 es0 res0 (evictions (bc_stats c)) = (br1, es1, res1, ev1)"
    by (metis prod_cases4)
  have "entries (bc_inner (cache_insert k b c)) = AList.update k (b, tick ?i + 1) es1"
    using False by (simp add: cache_insert_def Let_def pre ev)
  with assms have "k' = k \<and> b' = b \<or> map_of es1 k' = Some (b', t')" by (auto simp: update_conv' split: if_splits)
  moreover have "map_of es0 k' = Some (b', t')" if "map_of es1 k' = Some (b', t')"
    using ev that by (rule evict_subset)
  moreover have "map_of (entries ?i) k' = Some (b', t')" if "map_of es0 k' = Some (b', t')"
    using pre that by (auto simp: delete_conv' split: option.splits prod.splits if_splits)
  ultimately show ?thesis by blast
qed

lemma fetched_holds: "cache_holds getr c \<Longrightarrow> getr path r = Inr bs \<Longrightarrow> cache_holds getr (fetched path r bs c)"
  unfolding cache_holds_def fetched_def by (auto dest!: cache_insert_entries)

lemma fetch_range_ok:
  assumes "cache_holds getr c" and "getr path r = Inr bs"
  shows "\<exists>c'. fetch_range getr path r c = (Ok bs, c') \<and> cache_holds getr c'"
proof -
  obtain x c1 where get: "cache_get (key_of path r) c = (x, c1)" by fastforce
  show ?thesis
  proof (cases x)
    case None
    with get have "c1 = c" using cache_get_miss by blast
    then show ?thesis using None get assms by (simp add: fetch_range_def Let_def fetched_holds)
  next
    case (Some b)
    with get cache_get_hit [OF assms(1)] have "getr path r = Inr b" "cache_holds getr c1" by auto
    then show ?thesis using Some get assms(2) by (simp add: fetch_range_def)
  qed
qed

lemma poll_all_ok:
  assumes "cache_holds getr c" and "poll_all path rs c = (hs, c')"
  shows "cache_holds getr c' \<and> list_all2 (\<lambda>h r. \<forall>b. h = Some b \<longrightarrow> getr path r = Inr b) hs rs"
  using assms
proof (induction rs arbitrary: c hs c')
  case (Cons r rs)
  obtain x c1 where get: "cache_get (key_of path r) c = (x, c1)" by fastforce
  show ?case
  proof (cases x)
    case None
    with get have "c1 = c" using cache_get_miss by blast
    obtain hs' c2 where rest: "poll_all path rs (count_miss c) = (hs', c2)" by fastforce
    with Cons.IH [of "count_miss c" hs' c2] Cons.prems None get \<open>c1 = c\<close> show ?thesis by auto
  next
    case (Some b)
    with get cache_get_hit [OF Cons.prems(1)] have hit: "getr path r = Inr b" "cache_holds getr c1" by auto
    obtain hs' c2 where rest: "poll_all path rs c1 = (hs', c2)" by fastforce
    with Cons.IH [of c1 hs' c2] hit Cons.prems(2) Some get show ?thesis by auto
  qed
qed simp

lemma complete_all_ok:
  assumes "cache_holds getr c" and "\<forall>n < length rs. getr path (rs ! n) = Inr (bss ! n)"
    and "\<forall>n \<in> set ns. n < length rs" and "length hs = length rs"
    and "\<forall>n < length rs. n \<notin> set ns \<longrightarrow> hs ! n = Some (bss ! n)"
  shows "\<exists>c'. complete_all getr path rs ns hs c = (Ok (map (\<lambda>n. Some (bss ! n)) [0..<length rs]), c') \<and>
              cache_holds getr c'"
  using assms
proof (induction ns arbitrary: hs c)
  case Nil
  then have "hs = map (\<lambda>n. Some (bss ! n)) [0..<length rs]" by (intro nth_equalityI) auto
  then show ?case using Nil by simp
next
  case (Cons n ns)
  have n: "getr path (rs ! n) = Inr (bss ! n)" using Cons.prems by simp
  have "\<exists>c'. complete_all getr path rs ns (hs[n := Some (bss ! n)]) (fetched path (rs ! n) (bss ! n) c)
      = (Ok (map (\<lambda>n. Some (bss ! n)) [0..<length rs]), c') \<and> cache_holds getr c'"
  proof (rule Cons.IH)
    show "cache_holds getr (fetched path (rs ! n) (bss ! n) c)" using Cons.prems(1) n by (rule fetched_holds)
    show "\<forall>m < length rs. m \<notin> set ns \<longrightarrow> hs[n := Some (bss ! n)] ! m = Some (bss ! m)"
    proof (intro allI impI)
      fix m
      assume "m < length rs" "m \<notin> set ns"
      then show "hs[n := Some (bss ! n)] ! m = Some (bss ! m)"
        using Cons.prems(4,5) by (cases "m = n") auto
    qed
  qed (use Cons.prems in auto)
  then show ?case by (simp add: n)
qed

lemma read_all_Ok:
  "read_all getr path rs = Ok bss \<Longrightarrow> length bss = length rs \<and> (\<forall>n < length rs. getr path (rs ! n) = Inr (bss ! n))"
proof (induction rs arbitrary: bss)
  case (Cons r rs)
  then show ?case by (auto simp: bind_res_Ok_iff nth_Cons' split: sum.splits)
qed simp

lemma get_byte_ranges_ok:
  assumes "cache_holds getr c" and "sched_ok sched" and "read_all getr path rs = Ok bss"
  shows "\<exists>c'. get_byte_ranges getr sched path rs c = (Ok bss, c') \<and> cache_holds getr c'"
proof -
  obtain hs c1 where poll: "poll_all path rs c = (hs, c1)" by fastforce
  have holds: "cache_holds getr c1" and hits: "list_all2 (\<lambda>h r. \<forall>b. h = Some b \<longrightarrow> getr path r = Inr b) hs rs"
    using poll_all_ok [OF assms(1) poll] by simp_all
  have len: "length hs = length rs" using hits by (rule list_all2_lengthD)
  note b = read_all_Ok [OF assms(3)]
  have "set (sched c1 (missing_at hs)) = set (missing_at hs)"
    using assms(2) unfolding sched_ok_def by (metis mset_eq_setD)
  then have idx: "n \<in> set (sched c1 (missing_at hs)) \<longleftrightarrow> n < length rs \<and> hs ! n = None" for n
    by (auto simp: missing_at_def len)
  have "\<exists>c'. complete_all getr path rs (sched c1 (missing_at hs)) hs c1
      = (Ok (map (\<lambda>n. Some (bss ! n)) [0..<length rs]), c') \<and> cache_holds getr c'"
  proof (rule complete_all_ok [OF holds])
    show "\<forall>n < length rs. getr path (rs ! n) = Inr (bss ! n)" using b by blast
    show "\<forall>n \<in> set (sched c1 (missing_at hs)). n < length rs" using idx by blast
    show "\<forall>n < length rs. n \<notin> set (sched c1 (missing_at hs)) \<longrightarrow> hs ! n = Some (bss ! n)"
    proof (intro allI impI)
      fix n
      assume n: "n < length rs" "n \<notin> set (sched c1 (missing_at hs))"
      then have "hs ! n \<noteq> None" using idx by simp
      then obtain x where x: "hs ! n = Some x" by auto
      then have "getr path (rs ! n) = Inr x" using list_all2_nthD2 [OF hits n(1)] by blast
      moreover have "getr path (rs ! n) = Inr (bss ! n)" using b n(1) by blast
      ultimately show "hs ! n = Some (bss ! n)" using x by simp
    qed
  qed (rule len)
  moreover have "map the (map (\<lambda>n. Some (bss ! n)) [0..<length rs]) = bss"
    using b by (intro nth_equalityI) auto
  ultimately show ?thesis by (auto simp: get_byte_ranges_def poll simp del: map_map)
qed

lemma run_cached_direct:
  assumes "sched_ok sched" and "cache_holds getr c" and "run_direct getr path p = Ok x"
  shows "\<exists>c'. run_cached getr sched path p c = (Ok x, c') \<and> cache_holds getr c'"
  using assms(2,3)
proof (induction p arbitrary: c)
  case (Ret y)
  then show ?case by simp
next
  case (Fail m)
  then show ?case by simp
next
  case (Fetch r k)
  then obtain bs where bs: "getr path r = Inr bs" "run_direct getr path (k bs) = Ok x" by (auto split: sum.splits)
  from fetch_range_ok [OF Fetch.prems(1) bs(1)] obtain c1 where "fetch_range getr path r c = (Ok bs, c1)" "cache_holds getr c1"
    by blast
  with Fetch.IH [of "k bs" c1] bs(2) show ?case by simp
next
  case (FetchMany rs k)
  then obtain bss where bss: "read_all getr path rs = Ok bss" "run_direct getr path (k bss) = Ok x"
    by (auto split: res.splits)
  from get_byte_ranges_ok [OF FetchMany.prems(1) assms(1) bss(1)] obtain c1 where
    "get_byte_ranges getr sched path rs c = (Ok bss, c1)" "cache_holds getr c1" by blast
  with FetchMany.IH [of "k bss" c1] bss(2) show ?case by simp
qed

section \<open>Recency and accounting\<close>

type_synonym cache_entries = "(cache_key \<times> (bytes \<times> u64)) list"
type_synonym recency = "(u64 \<times> cache_key) list"

definition bytes_of :: "cache_entries \<Rightarrow> nat" where
  "bytes_of es = sum_list (map (\<lambda>e. length (fst (snd e))) es)"

text \<open>The recency list is the entries by tick, each once, and no tick is in the future.\<close>

definition lru_ok :: "cache_entries \<Rightarrow> recency \<Rightarrow> u64 \<Rightarrow> bool" where
  "lru_ok es br now \<longleftrightarrow>
     distinct (map fst es) \<and> sorted_wrt (<) (map fst br) \<and>
     (\<forall>t k. (t, k) \<in> set br \<longleftrightarrow> (\<exists>b. map_of es k = Some (b, t))) \<and> (\<forall>p \<in> set br. fst p \<le> now)"

definition cache_inv :: "byte_cache \<Rightarrow> bool" where
  "cache_inv c \<longleftrightarrow>
     lru_ok (entries (bc_inner c)) (by_recency (bc_inner c)) (tick (bc_inner c)) \<and>
     unat (resident (bc_inner c)) = bytes_of (entries (bc_inner c)) \<and>
     resident (bc_inner c) \<le> bc_max_bytes c \<and> unat (bc_max_bytes c) < 2 ^ 63"

lemma delete_filter: "AList.delete k es = filter (\<lambda>e. fst e \<noteq> k) es"
  by (induction es) auto

lemma bytes_of_simps [simp]:
  "bytes_of [] = 0" "bytes_of (e # es) = length (fst (snd e)) + bytes_of es"
  by (simp_all add: bytes_of_def)

lemma bytes_of_delete:
  assumes "distinct (map fst es)" and "map_of es k = Some (b, t)"
  shows "bytes_of es = length b + bytes_of (AList.delete k es)"
  using assms
proof (induction es)
  case (Cons e es)
  show ?case
  proof (cases "fst e = k")
    case True
    then have "AList.delete k es = es" using Cons.prems(1) by (intro delete_id) simp
    with True Cons.prems show ?thesis by (cases e) (simp add: delete_filter)
  next
    case False
    with Cons show ?thesis by (cases e) (simp add: delete_filter)
  qed
qed simp

lemma bytes_of_update_new: "map_of es k = None \<Longrightarrow> bytes_of (AList.update k (b, t) es) = bytes_of es + length b"
  by (induction es) (auto split: if_splits)

lemma bytes_of_update_same:
  "distinct (map fst es) \<Longrightarrow> map_of es k = Some (b, t) \<Longrightarrow> bytes_of (AList.update k (b, t') es) = bytes_of es"
  by (induction es) (auto split: if_splits)

lemma lru_unique:
  assumes "lru_ok es br now" and "(t, k) \<in> set br" and "(t, k') \<in> set br"
  shows "k = k'"
proof -
  have "distinct (map fst br)" using assms(1) by (simp add: lru_ok_def strict_sorted_iff)
  with assms(2,3) show ?thesis by (metis eq_key_imp_eq_value)
qed

lemma lru_remove:
  assumes ok: "lru_ok es br now" and k: "map_of es k = Some (b, t)"
  shows "lru_ok (AList.delete k es) (bt_remove t br) now"
proof -
  have mem: "(t', k') \<in> set br \<longleftrightarrow> (\<exists>b. map_of es k' = Some (b, t'))" for t' k' using ok by (simp add: lru_ok_def)
  have "(t', k') \<in> set br \<and> t' \<noteq> t \<longleftrightarrow> (\<exists>b'. map_of (AList.delete k es) k' = Some (b', t'))" for t' k'
  proof
    assume a: "(t', k') \<in> set br \<and> t' \<noteq> t"
    then obtain b' where b': "map_of es k' = Some (b', t')" using mem by blast
    with a k have "k' \<noteq> k" by auto
    with b' show "\<exists>b'. map_of (AList.delete k es) k' = Some (b', t')" by (simp add: delete_conv')
  next
    assume "\<exists>b'. map_of (AList.delete k es) k' = Some (b', t')"
    then obtain b' where b': "k' \<noteq> k" "map_of es k' = Some (b', t')" by (auto simp: delete_conv' split: if_splits)
    then have "(t', k') \<in> set br" using mem by blast
    moreover have "(t, k) \<in> set br" using k mem by blast
    ultimately show "(t', k') \<in> set br \<and> t' \<noteq> t" using lru_unique [OF ok] b'(1) by blast
  qed
  moreover have "distinct (map fst (AList.delete k es))" using ok by (simp add: lru_ok_def distinct_delete)
  moreover have "sorted_wrt (<) (map fst (bt_remove t br))"
    using ok by (simp add: lru_ok_def bt_remove_def sorted_wrt_map sorted_wrt_filter)
  ultimately show ?thesis using ok by (auto simp: lru_ok_def bt_remove_def)
qed

lemma bt_remove_head:
  assumes "sorted_wrt (<) (map fst ((t :: 'k::linorder, v) # rest))"
  shows "bt_remove t ((t, v) # rest) = rest"
proof -
  have "\<forall>x \<in> set rest. t < fst x" using assms by simp
  then have "filter (\<lambda>p. fst p \<noteq> t) rest = rest" by (intro filter_True ballI notI) (metis less_irrefl)
  then show ?thesis by (simp add: bt_remove_def)
qed

lemma bt_insert_last: "\<forall>p \<in> set br. fst p < t \<Longrightarrow> bt_insert t k br = br @ [(t, k)]"
  by (induction br) auto

lemma lru_add:
  assumes ok: "lru_ok es br now" and k: "map_of es k = None" and t: "now < t"
  shows "lru_ok (AList.update k (b, t) es) (bt_insert t k br) t" and "bt_insert t k br = br @ [(t, k)]"
proof -
  have lt: "\<forall>p \<in> set br. fst p < t" using ok t by (auto simp: lru_ok_def intro: order.strict_trans1)
  then show ins: "bt_insert t k br = br @ [(t, k)]" by (rule bt_insert_last)
  have mem: "(t', k') \<in> set br \<longleftrightarrow> (\<exists>b. map_of es k' = Some (b, t'))" for t' k' using ok by (simp add: lru_ok_def)
  have "(t', k') \<in> set (br @ [(t, k)]) \<longleftrightarrow> (\<exists>b'. map_of (AList.update k (b, t) es) k' = Some (b', t'))" for t' k'
    using mem [of t' k'] k by (auto simp: update_conv')
  moreover have "distinct (map fst (AList.update k (b, t) es))" using ok by (simp add: lru_ok_def distinct_update)
  moreover have "sorted_wrt (<) (map fst (br @ [(t, k)]))" using ok lt by (simp add: lru_ok_def sorted_wrt_append)
  moreover have "\<forall>p \<in> set (br @ [(t, k)]). fst p \<le> t" using lt by auto
  ultimately show "lru_ok (AList.update k (b, t) es) (bt_insert t k br) t" unfolding lru_ok_def ins by blast
qed

lemma unat_add_small:
  "unat (a :: u64) \<le> m \<Longrightarrow> unat b \<le> m \<Longrightarrow> m < 2 ^ 63 \<Longrightarrow> unat (a + b) = unat a + unat b"
  by (simp add: unat_word_ariths)

text \<open>Entries left when the first \<open>n\<close> of the recency list are gone.\<close>

definition survivors :: "nat \<Rightarrow> recency \<Rightarrow> cache_entries \<Rightarrow> cache_entries" where
  "survivors n br es = filter (\<lambda>e. fst e \<notin> snd ` set (take n br)) es"

lemma survivors_0 [simp]: "survivors 0 br es = es"
  by (simp add: survivors_def)

lemma survivors_Suc: "survivors (Suc n) ((t, v) # br) es = survivors n br (AList.delete v es)"
  by (simp add: survivors_def delete_filter conj_commute)

text \<open>One eviction: the head of the recency list is in the cache, and without it the bytes are still counted.\<close>

lemma evict_head:
  assumes ok: "lru_ok es ((t, v) # rest) now" and res: "unat (res :: u64) = bytes_of es" and "res \<le> mx" and "unat mx < 2 ^ 63"
  shows "\<exists>b. map_of es v = Some (b, t) \<and> lru_ok (AList.delete v es) rest now \<and>
             unat (res - min (of_nat (length b)) res) = bytes_of (AList.delete v es) \<and> res - min (of_nat (length b)) res \<le> mx"
proof -
  have "(t, v) \<in> set ((t, v) # rest)" by simp
  then obtain b where b: "map_of es v = Some (b, t)" using ok unfolding lru_ok_def by blast
  have bytes: "bytes_of es = length b + bytes_of (AList.delete v es)" using bytes_of_delete [OF _ b] ok by (simp add: lru_ok_def)
  then have "length b < 2 ^ 63" using assms(2-4) by (simp add: word_le_nat_alt)
  then have ub: "unat (of_nat (length b) :: u64) = length b" by (simp add: unat_of_nat_u64)
  then have "of_nat (length b) \<le> res" using bytes res by (simp add: word_le_nat_alt)
  then have u: "unat (res - min (of_nat (length b)) res) = bytes_of (AList.delete v es)"
    using bytes res ub by (simp add: min_absorb1 unat_sub)
  moreover have "res - min (of_nat (length b)) res \<le> mx" using u bytes res assms(3) by (simp add: word_le_nat_alt)
  moreover have "bt_remove t ((t, v) # rest) = rest" using ok unfolding lru_ok_def by (intro bt_remove_head) blast
  ultimately show ?thesis using b lru_remove [OF ok b] by simp
qed

lemma evict_spec:
  assumes "lru_ok es br now" and "unat res = bytes_of es" and "res \<le> mx" and "sz \<le> mx" and "unat mx < 2 ^ 63"
    and "evict sz mx br es res ev = (br', es', res', ev')"
  shows "\<exists>n. br' = drop n br \<and> es' = survivors n br es \<and> lru_ok es' br' now \<and> unat res' = bytes_of es' \<and>
             unat res' + unat sz \<le> unat mx \<and> (\<forall>m < n. unat mx < bytes_of (survivors m br es) + unat sz)"
  using assms
proof (induction br arbitrary: es res ev)
  case Nil
  have "map_of es k = None" for k
  proof (cases "map_of es k")
    case (Some p)
    then show ?thesis using Nil.prems(1) by (cases p) (auto simp: lru_ok_def)
  qed simp
  then have "es = []" by (metis map_of_eq_None_iff list.set_intros(1) neq_Nil_conv image_eqI)
  with Nil.prems show ?case by (intro exI [of _ 0]) (simp add: word_le_nat_alt)
next
  case (Cons p rest)
  obtain t v where p: "p = (t, v)" by (cases p)
  have sum: "unat (res + sz) = unat res + unat sz"
    using Cons.prems(3-5) by (intro unat_add_small [of _ "unat mx"]) (simp_all add: word_le_nat_alt)
  show ?case
  proof (cases "mx < res + sz")
    case True
    from evict_head [OF Cons.prems(1) [unfolded p] Cons.prems(2,3,5)] obtain b where b: "map_of es v = Some (b, t)"
      and ok: "lru_ok (AList.delete v es) rest now" "unat (res - min (of_nat (length b)) res) = bytes_of (AList.delete v es)"
        "res - min (of_nat (length b)) res \<le> mx" by blast
    let ?es = "AList.delete v es" and ?res = "res - min (of_nat (length b)) res"
    have "evict sz mx rest ?es ?res (ev + 1) = (br', es', res', ev')" using Cons.prems(6) True b by (simp add: p)
    then obtain n where n: "br' = drop n rest" "es' = survivors n rest ?es" "lru_ok es' br' now"
      "unat res' = bytes_of es'" "unat res' + unat sz \<le> unat mx"
      "\<forall>m < n. unat mx < bytes_of (survivors m rest ?es) + unat sz"
      using Cons.IH [OF ok Cons.prems(4,5)] by blast
    have "\<forall>m < Suc n. unat mx < bytes_of (survivors m (p # rest) es) + unat sz"
    proof (intro allI impI)
      fix m
      assume "m < Suc n"
      then show "unat mx < bytes_of (survivors m (p # rest) es) + unat sz"
        using n(6) True sum Cons.prems(2) by (cases m) (simp_all add: p survivors_Suc word_less_nat_alt)
    qed
    with n show ?thesis by (intro exI [of _ "Suc n"]) (simp add: p survivors_Suc)
  next
    case False
    with Cons.prems sum show ?thesis by (intro exI [of _ 0]) (simp add: p not_less word_le_nat_alt)
  qed
qed

lemma lru_touch:
  assumes ok: "lru_ok es br now" and k: "map_of es k = Some (b, old)" and t: "now < t"
  shows "lru_ok (AList.update k (b, t) es) (bt_insert t k (bt_remove old br)) t"
proof -
  have "lru_ok (AList.delete k es) (bt_remove old br) now" using ok k by (rule lru_remove)
  moreover have "map_of (AList.delete k es) k = None" by (simp add: delete_conv')
  ultimately have "lru_ok (AList.update k (b, t) (AList.delete k es)) (bt_insert t k (bt_remove old br)) t"
    using t by (rule lru_add)
  moreover have "map_of (AList.update k (b, t) (AList.delete k es)) = map_of (AList.update k (b, t) es)"
    by (simp add: update_conv' delete_conv')
  moreover have "distinct (map fst (AList.update k (b, t) es))" using ok by (simp add: lru_ok_def distinct_update)
  ultimately show ?thesis by (simp add: lru_ok_def)
qed

definition tick_ok :: "byte_cache \<Rightarrow> bool" where
  "tick_ok c \<longleftrightarrow> tick (bc_inner c) < tick (bc_inner c) + 1"

lemma cache_get_inv:
  assumes "cache_inv c" and "tick_ok c"
  shows "cache_inv (snd (cache_get k c))"
proof (cases "map_of (entries (bc_inner c)) k")
  case None
  then show ?thesis using assms(1) by (simp add: cache_get_def Let_def)
next
  case (Some p)
  then obtain b old where b: "map_of (entries (bc_inner c)) k = Some (b, old)" by (cases p) auto
  have "distinct (map fst (entries (bc_inner c)))" using assms(1) by (simp add: cache_inv_def lru_ok_def)
  note bytes = bytes_of_update_same [OF this b]
  have "lru_ok (AList.update k (b, tick (bc_inner c) + 1) (entries (bc_inner c)))
      (bt_insert (tick (bc_inner c) + 1) k (bt_remove old (by_recency (bc_inner c)))) (tick (bc_inner c) + 1)"
    using assms b by (intro lru_touch) (auto simp: cache_inv_def tick_ok_def)
  then show ?thesis using assms(1) b bytes by (simp add: cache_get_def cache_inv_def Let_def)
qed

text \<open>What \<open>insert\<close> starts the eviction from: the key's old range, if any, is gone.\<close>

definition without :: "cache_key \<Rightarrow> byte_cache \<Rightarrow> cache_entries \<times> recency" where
  "without k c =
     (case map_of (entries (bc_inner c)) k of
        None \<Rightarrow> (entries (bc_inner c), by_recency (bc_inner c))
      | Some (_, old) \<Rightarrow> (AList.delete k (entries (bc_inner c)), bt_remove old (by_recency (bc_inner c))))"

lemma without_spec:
  assumes inv: "cache_inv c" and usz: "unat (sz :: u64) = n" and wo: "without k c = (es0, br0)"
    and same: "\<forall>b' t. map_of (entries (bc_inner c)) k = Some (b', t) \<longrightarrow> length b' = n"
    and res0: "res0 = (case map_of (entries (bc_inner c)) k of None \<Rightarrow> resident (bc_inner c)
                | Some _ \<Rightarrow> resident (bc_inner c) - min sz (resident (bc_inner c)))"
  shows "lru_ok es0 br0 (tick (bc_inner c)) \<and> unat res0 = bytes_of es0 \<and> res0 \<le> bc_max_bytes c \<and> map_of es0 k = None"
proof -
  let ?i = "bc_inner c"
  have res: "unat (resident ?i) = bytes_of (entries ?i)" and resmx: "resident ?i \<le> bc_max_bytes c"
    and lru: "lru_ok (entries ?i) (by_recency ?i) (tick ?i)" using inv by (auto simp: cache_inv_def)
  show ?thesis
  proof (cases "map_of (entries ?i) k")
    case None
    then show ?thesis using wo lru res resmx by (simp add: without_def res0)
  next
    case (Some p)
    then obtain b' old where b': "map_of (entries ?i) k = Some (b', old)" by (cases p) auto
    have es0: "es0 = AList.delete k (entries ?i)" "br0 = bt_remove old (by_recency ?i)" using wo b' by (simp_all add: without_def)
    have "distinct (map fst (entries ?i))" using lru by (simp add: lru_ok_def)
    then have bytes: "bytes_of (entries ?i) = n + bytes_of es0" using bytes_of_delete [OF _ b'] same b' es0 by simp
    then have "sz \<le> resident ?i" using res usz by (simp add: word_le_nat_alt)
    then have u: "unat res0 = bytes_of es0" using b' bytes res usz by (simp add: res0 min_absorb1 unat_sub)
    have "res0 \<le> bc_max_bytes c" using u bytes res resmx by (simp add: word_le_nat_alt)
    with u lru_remove [OF lru b'] show ?thesis by (simp add: es0 delete_conv')
  qed
qed

lemma cache_insert_spec:
  assumes inv: "cache_inv c" and tick: "tick_ok c" and fit: "length b \<le> unat (bc_max_bytes c)"
    and same: "\<forall>b' t. map_of (entries (bc_inner c)) k = Some (b', t) \<longrightarrow> length b' = length b"
    and wo: "without k c = (es0, br0)"
  defines "c' \<equiv> cache_insert k b c"
  shows "\<exists>n. entries (bc_inner c') = AList.update k (b, tick (bc_inner c) + 1) (survivors n br0 es0) \<and>
             by_recency (bc_inner c') = drop n br0 @ [(tick (bc_inner c) + 1, k)] \<and>
             (\<forall>m < n. unat (bc_max_bytes c) < bytes_of (survivors m br0 es0) + length b) \<and> cache_inv c'"
proof -
  let ?i = "bc_inner c" and ?sz = "of_nat (length b) :: u64"
  have mx: "unat (bc_max_bytes c) < 2 ^ 63" using inv by (auto simp: cache_inv_def)
  have usz: "unat ?sz = length b" using fit mx by (simp add: unat_of_nat_u64)
  define res0 where "res0 = (case map_of (entries ?i) k of None \<Rightarrow> resident ?i | Some _ \<Rightarrow> resident ?i - min ?sz (resident ?i))"
  have pre: "(case map_of (entries ?i) k of
      Some (_, old_tick) \<Rightarrow> (AList.delete k (entries ?i), bt_remove old_tick (by_recency ?i), resident ?i - min ?sz (resident ?i))
    | None \<Rightarrow> (entries ?i, by_recency ?i, resident ?i)) = (es0, br0, res0)"
    using wo by (auto simp: without_def res0_def split: option.splits)
  note start = without_spec [OF inv usz wo same res0_def]
  obtain br1 es1 res1 ev1 where
    ev: "evict ?sz (bc_max_bytes c) br0 es0 res0 (evictions (bc_stats c)) = (br1, es1, res1, ev1)" by (metis prod_cases4)
  have szle: "?sz \<le> bc_max_bytes c" using fit usz by (simp add: word_le_nat_alt)
  obtain n where n: "br1 = drop n br0" "es1 = survivors n br0 es0" "lru_ok es1 br1 (tick ?i)" "unat res1 = bytes_of es1"
    "unat res1 + length b \<le> unat (bc_max_bytes c)" "\<forall>m < n. unat (bc_max_bytes c) < bytes_of (survivors m br0 es0) + length b"
    using evict_spec [OF _ _ _ szle mx ev, of "tick ?i"] start usz by auto
  have k1: "map_of es1 k = None"
    using evict_subset [OF ev, of k] start by (cases "map_of es1 k") auto
  have t: "tick ?i < tick ?i + 1" using tick by (simp add: tick_ok_def)
  have c': "bc_inner c' = \<lparr>entries = AList.update k (b, tick ?i + 1) es1, by_recency = bt_insert (tick ?i + 1) k br1,
      resident = res1 + ?sz, tick = tick ?i + 1\<rparr>" "bc_max_bytes c' = bc_max_bytes c"
    using szle by (simp_all add: c'_def cache_insert_def Let_def pre ev)
  have sum: "unat (res1 + ?sz) = unat res1 + length b"
    using n(5) mx usz unat_add_small [of res1 "unat (bc_max_bytes c)" ?sz] by simp
  have "cache_inv c'"
    using lru_add(1) [OF n(3) k1 t, of b] bytes_of_update_new [OF k1, of b "tick ?i + 1"] sum n(4,5) mx
    by (simp add: cache_inv_def c' word_le_nat_alt)
  then show ?thesis using n lru_add(2) [OF n(3) k1 t] by (auto simp: c')
qed

section \<open>The cache as a source of files\<close>

text \<open>
  What the reader relies on: a source in a good state that is asked for the footer of a file or to run
  a computation over it answers as the store itself would, and stays in a good state.
\<close>

locale file_source =
  fixes s_inv :: "'s \<Rightarrow> bool"
    and s_meta :: "string \<Rightarrow> u64 \<Rightarrow> 's \<Rightarrow> 'm res \<times> 's"
    and s_run :: "string \<Rightarrow> 'r prog \<Rightarrow> 's \<Rightarrow> 'r res \<times> 's"
    and d_meta :: "string \<Rightarrow> u64 \<Rightarrow> 'm res"
    and d_run :: "string \<Rightarrow> 'r prog \<Rightarrow> 'r res"
    and size_of :: "string \<Rightarrow> u64"
  assumes meta_ok: "s_inv s \<Longrightarrow> d_meta path (size_of path) = Ok m \<Longrightarrow>
      \<exists>s'. s_meta path (size_of path) s = (Ok m, s') \<and> s_inv s'"
    and run_ok: "s_inv s \<Longrightarrow> d_run path p = Ok x \<Longrightarrow> \<exists>s'. s_run path p s = (Ok x, s') \<and> s_inv s'"

definition reader_inv ::
    "get_range \<Rightarrow> (u64 \<Rightarrow> 'm prog) \<Rightarrow> (string \<Rightarrow> u64) \<Rightarrow> 'm meta_cache \<times> byte_cache \<Rightarrow> bool" where
  "reader_inv getr load size_of = (\<lambda>(mc, c).
     cache_holds getr c \<and> (\<forall>path m. map_of mc path = Some m \<longrightarrow> run_direct getr path (load (size_of path)) = Ok m))"

definition reader_run ::
    "get_range \<Rightarrow> scheduler \<Rightarrow> string \<Rightarrow> 'r prog \<Rightarrow> 'm meta_cache \<times> byte_cache \<Rightarrow> 'r res \<times> ('m meta_cache \<times> byte_cache)" where
  "reader_run getr sched path p = (\<lambda>(mc, c). case run_cached getr sched path p c of (x, c') \<Rightarrow> (x, (mc, c')))"

lemma get_metadata_ok:
  assumes "sched_ok sched" and "reader_inv getr load size_of s"
    and "run_direct getr path (load (size_of path)) = Ok m"
  shows "\<exists>s'. get_metadata getr sched load path (size_of path) s = (Ok m, s') \<and> reader_inv getr load size_of s'"
proof -
  obtain mc c where s: "s = (mc, c)" by (cases s)
  show ?thesis
  proof (cases "map_of mc path")
    case (Some m')
    then have "m' = m" using assms(2,3) by (auto simp: reader_inv_def s)
    then show ?thesis using assms(2) Some by (simp add: s get_metadata_def)
  next
    case None
    have "cache_holds getr c" using assms(2) by (simp add: reader_inv_def s)
    from run_cached_direct [OF assms(1) this assms(3)] obtain c' where
      "run_cached getr sched path (load (size_of path)) c = (Ok m, c')" "cache_holds getr c'" by blast
    then show ?thesis using None assms(2,3) by (auto simp: s get_metadata_def reader_inv_def update_conv')
  qed
qed

lemma cached_source:
  assumes "sched_ok sched"
  shows "file_source (reader_inv getr load size_of) (get_metadata getr sched load) (reader_run getr sched)
           (\<lambda>path n. run_direct getr path (load n)) (run_direct getr) size_of"
proof (unfold_locales, goal_cases)
  case (1 s path m)
  with assms show ?case by (intro get_metadata_ok)
next
  case (2 s path p x)
  obtain mc c where s: "s = (mc, c)" by (cases s)
  with 2 have "cache_holds getr c" by (simp add: reader_inv_def)
  from run_cached_direct [OF assms this 2(2)] obtain c' where "run_cached getr sched path p c = (Ok x, c')" "cache_holds getr c'" by blast
  with 2(1) show ?case by (auto simp: s reader_run_def reader_inv_def)
qed

text \<open>The scheduler that completes fetches in the order they were issued.\<close>

definition in_order :: scheduler where
  "in_order c ns = ns"

lemma in_order_ok: "sched_ok in_order"
  by (simp add: sched_ok_def in_order_def)

interpretation ordered: file_source "reader_inv getr load size_of" "get_metadata getr in_order load"
  "reader_run getr in_order" "\<lambda>path n. run_direct getr path (load n)" "run_direct getr" size_of
  by (rule cached_source [OF in_order_ok])

section \<open>Properties\<close>

text \<open>
  C29. The cache is transparent. Whatever computation the Parquet reader runs over a file, in whatever
  order concurrent fetches complete, if it succeeds against the store then through the cache it
  succeeds with the same result, and every range the cache keeps afterwards is still the store's.
\<close>

theorem cache_transparent:
  assumes "sched_ok sched" and "cache_holds getr c" and "run_direct getr path p = Ok x"
  shows "\<exists>c'. run_cached getr sched path p c = (Ok x, c') \<and> cache_holds getr c'"
  using assms by (rule run_cached_direct)

definition sample_getr :: get_range where
  "sample_getr path r = Inr (replicate (unat (snd r - fst r)) 7)"

definition sample_prog :: "bytes prog" where
  "sample_prog = Fetch (0, 2) (\<lambda>a. FetchMany [(2, 3), (4, 6), (2, 3)] (\<lambda>bss. Ret (a @ concat bss)))"

theorem cache_transparent_witness:
  "\<exists>c'. run_cached sample_getr (\<lambda>_. rev) ''f'' sample_prog (byte_cache_new 3) = (Ok [7, 7, 7, 7, 7, 7], c') \<and>
        cache_holds sample_getr c'"
proof (rule cache_transparent)
  show "sched_ok (\<lambda>_. rev)" by (simp add: sched_ok_def)
  show "run_direct sample_getr ''f'' sample_prog = Ok [7, 7, 7, 7, 7, 7]"
    by code_simp
qed simp

text \<open>
  C30. The budget. The cache counts its resident bytes exactly and never holds more than its maximum,
  before and after a lookup and an insertion, as long as a range that is inserted again has the size it
  had; and a range larger than the whole cache is not kept and changes nothing.
\<close>

theorem cache_budget:
  assumes "cache_inv c" and "tick_ok c" and "length b < 2 ^ 64"
    and "\<forall>b' t. map_of (entries (bc_inner c)) k = Some (b', t) \<longrightarrow> length b' = length b"
  shows "unat (bytes_resident (cache_stats_of c)) = bytes_of (entries (bc_inner c)) \<and>
         bytes_of (entries (bc_inner c)) \<le> unat (bc_max_bytes c) \<and>
         cache_inv (snd (cache_get k' c)) \<and> cache_inv (cache_insert k b c) \<and>
         (unat (bc_max_bytes c) < length b \<longrightarrow> cache_insert k b c = c)"
proof -
  have now: "unat (bytes_resident (cache_stats_of c)) = bytes_of (entries (bc_inner c))"
    "bytes_of (entries (bc_inner c)) \<le> unat (bc_max_bytes c)"
    using assms(1) by (auto simp: cache_inv_def cache_stats_of_def word_le_nat_alt)
  have over: "cache_insert k b c = c" if "unat (bc_max_bytes c) < length b"
  proof -
    have "bc_max_bytes c < (of_nat (length b) :: u64)"
      using that assms(3) by (simp add: word_less_nat_alt unat_of_nat_u64)
    then show ?thesis by (simp add: cache_insert_def)
  qed
  have "cache_inv (cache_insert k b c)"
  proof (cases "length b \<le> unat (bc_max_bytes c)")
    case True
    obtain es0 br0 where wo: "without k c = (es0, br0)" by fastforce
    from cache_insert_spec [OF assms(1,2) True assms(4) wo] show ?thesis by blast
  next
    case False
    then show ?thesis using over assms(1) by simp
  qed
  then show ?thesis using now over cache_get_inv [OF assms(1,2)] by blast
qed

lemma new_inv: "unat n < 2 ^ 63 \<Longrightarrow> cache_inv (byte_cache_new n) \<and> tick_ok (byte_cache_new n)"
  by (simp add: cache_inv_def byte_cache_new_def lru_ok_def tick_ok_def)

theorem cache_budget_witness:
  "cache_inv (cache_insert (key_of ''f'' (0, 2)) [1, 2] (byte_cache_new 3)) \<and>
   cache_insert (key_of ''f'' (0, 4)) [1, 2, 3, 4] (byte_cache_new 3) = byte_cache_new 3"
  using cache_budget [of "byte_cache_new 3" "[1, 2]" "key_of ''f'' (0, 2)"]
    cache_budget [of "byte_cache_new 3" "[1, 2, 3, 4]" "key_of ''f'' (0, 4)"] new_inv [of 3]
  by (auto simp: byte_cache_new_def)




end
