(* ===== verification/Columnar_Read.thy ===== *)
theory Columnar_Read
  imports File_Index Byte_Cache
begin

text \<open>
  Point reads in the columnar level, from \<^verbatim>\<open>src/src/read.rs\<close>: \<open>ColumnarReader::get\<close>, \<open>get_from_file\<close>,
  \<open>scan_row_group\<close>, \<open>binary_col\<close> and \<open>row_group_may_contain\<close>. The Parquet reader is the argument \<open>pq\<close>: two
  computations that ask for ranges, one for the footer and one for the rows of a row group. An Arrow
  array is the list of its slots; reading a slot does not look at its validity.

  Shown: a read of a file whose row groups have bounds that tell them apart answers exactly from the
  file's rows; a read of the level answers from the newest file that knows the key, and its state stays
  good; and what happens to a file whose row groups carry no statistics.
\<close>

section \<open>The Parquet reader\<close>

record pq_stats =
  min_bytes_opt :: "bytes option"
  max_bytes_opt :: "bytes option"

record column_chunk =
  statistics :: "pq_stats option"

record parquet_meta =
  row_groups :: "column_chunk list list"

datatype array = BinaryArray "bytes list" | LargeBinaryArray "bytes list" | Int32Array "int list" | Int64Array "int list"

record record_batch =
  batch_columns :: "array list"
  num_rows :: nat

record parquet_api =
  pq_load :: "u64 \<Rightarrow> parquet_meta prog"
  pq_arrow :: "parquet_meta \<Rightarrow> string option"
  pq_rows :: "parquet_meta \<Rightarrow> nat \<Rightarrow> nat list \<Rightarrow> record_batch list prog"

type_synonym reader_state = "parquet_meta meta_cache \<times> byte_cache"

definition PK_COL :: nat where
  "PK_COL = 0"

section \<open>Row groups\<close>

definition row_group_may_contain :: "column_chunk \<Rightarrow> bytes \<Rightarrow> bool" where
  "row_group_may_contain column key =
     (case statistics column of
        None \<Rightarrow> True
      | Some st \<Rightarrow>
          (case (min_bytes_opt st, max_bytes_opt st) of
             (Some lo, Some hi) \<Rightarrow> lo \<le> key \<and> key \<le> hi
           | _ \<Rightarrow> True))"

text \<open>The loop over the row groups: the first one that may contain the key, if any.\<close>

fun pick_row_group :: "column_chunk list list \<Rightarrow> bytes \<Rightarrow> nat \<Rightarrow> nat option res" where
  "pick_row_group [] key i = Ok None"
| "pick_row_group (cols # rest) key i =
     (if length cols \<le> PK_COL then Panic ''index out of bounds''
      else if row_group_may_contain (cols ! PK_COL) key then Ok (Some i)
      else pick_row_group rest key (Suc i))"

section \<open>Scanning rows\<close>

definition binary_col :: "record_batch \<Rightarrow> nat \<Rightarrow> bytes list res" where
  "binary_col batch i =
     (if length (batch_columns batch) \<le> i then Panic ''index out of bounds''
      else case batch_columns batch ! i of BinaryArray xs \<Rightarrow> Ok xs | _ \<Rightarrow> Panic ''pk and value are binary'')"

definition int32_col :: "record_batch \<Rightarrow> nat \<Rightarrow> int list res" where
  "int32_col batch i =
     (if length (batch_columns batch) \<le> i then Panic ''index out of bounds''
      else case batch_columns batch ! i of Int32Array xs \<Rightarrow> Ok xs | _ \<Rightarrow> Panic ''op is int32'')"

definition op_code :: "op \<Rightarrow> int" where
  "op_code x = (case x of Put \<Rightarrow> 0 | Delete \<Rightarrow> 1)"

definition array_value :: "'a list \<Rightarrow> nat \<Rightarrow> 'a res" where
  "array_value xs i = (if i < length xs then Ok (xs ! i) else Panic ''index out of bounds'')"

fun scan_rows :: "bytes list \<Rightarrow> int list \<Rightarrow> bytes list \<Rightarrow> bytes \<Rightarrow> nat list \<Rightarrow> lookup option res" where
  "scan_rows pk ops values key [] = Ok None"
| "scan_rows pk ops values key (i # is) =
     bind_res (array_value pk i) (\<lambda>k.
       if k \<noteq> key then scan_rows pk ops values key is
       else bind_res (array_value ops i) (\<lambda>x.
              if x = op_code Delete then Ok (Some Deleted)
              else bind_res (array_value values i) (\<lambda>v. Ok (Some (Found v)))))"

fun scan_batches :: "record_batch list \<Rightarrow> bytes \<Rightarrow> lookup res" where
  "scan_batches [] key = Ok Missing"
| "scan_batches (batch # rest) key =
     bind_res (binary_col batch 0) (\<lambda>pk.
     bind_res (int32_col batch 1) (\<lambda>ops.
     bind_res (binary_col batch 2) (\<lambda>values.
     bind_res (scan_rows pk ops values key [0..<num_rows batch]) (\<lambda>hit.
       case hit of Some l \<Rightarrow> Ok l | None \<Rightarrow> scan_batches rest key))))"

definition scan_row_group ::
    "parquet_api \<Rightarrow> get_range \<Rightarrow> scheduler \<Rightarrow> string \<Rightarrow> parquet_meta \<Rightarrow> nat \<Rightarrow> bytes \<Rightarrow> reader_state \<Rightarrow> lookup res \<times> reader_state" where
  "scan_row_group pq getr sched path meta rg key st =
     (case reader_run getr sched path (pq_rows pq meta rg [PK_COL, 2, 3]) st of
        (Ok batches, st') \<Rightarrow> (scan_batches batches key, st')
      | (Err e, st') \<Rightarrow> (Err e, st')
      | (Panic p, st') \<Rightarrow> (Panic p, st'))"

section \<open>Files and the level\<close>

definition get_from_file ::
    "parquet_api \<Rightarrow> get_range \<Rightarrow> scheduler \<Rightarrow> (string \<Rightarrow> string) \<Rightarrow> string \<Rightarrow> file_entry \<Rightarrow> bytes \<Rightarrow> reader_state
      \<Rightarrow> lookup res \<times> reader_state" where
  "get_from_file pq getr sched path_from bucket e key st =
     (let path = object_path path_from e bucket
      in case get_metadata getr sched (pq_load pq) path (file_size e) st of
           (Ok meta, st1) \<Rightarrow>
             (case pq_arrow pq meta of
                Some m \<Rightarrow> (Err (Parquet m), st1)
              | None \<Rightarrow>
                  (case pick_row_group (row_groups meta) key 0 of
                     Ok None \<Rightarrow> (Ok Missing, st1)
                   | Ok (Some rg) \<Rightarrow> scan_row_group pq getr sched path meta rg key st1
                   | Err x \<Rightarrow> (Err x, st1)
                   | Panic p \<Rightarrow> (Panic p, st1)))
         | (Err x, st1) \<Rightarrow> (Err x, st1)
         | (Panic p, st1) \<Rightarrow> (Panic p, st1))"

fun get_candidates ::
    "parquet_api \<Rightarrow> get_range \<Rightarrow> scheduler \<Rightarrow> (string \<Rightarrow> string) \<Rightarrow> string \<Rightarrow> file_entry list \<Rightarrow> bytes \<Rightarrow> reader_state
      \<Rightarrow> lookup res \<times> reader_state" where
  "get_candidates pq getr sched path_from bucket [] key st = (Ok Missing, st)"
| "get_candidates pq getr sched path_from bucket (e # es) key st =
     (case bloom_may_contain e key of
        Ok False \<Rightarrow> get_candidates pq getr sched path_from bucket es key st
      | Ok True \<Rightarrow>
          (case get_from_file pq getr sched path_from bucket e key st of
             (Ok Missing, st') \<Rightarrow> get_candidates pq getr sched path_from bucket es key st'
           | (hit, st') \<Rightarrow> (hit, st'))
      | Err x \<Rightarrow> (Err x, st)
      | Panic p \<Rightarrow> (Panic p, st))"

definition columnar_get ::
    "parquet_api \<Rightarrow> get_range \<Rightarrow> scheduler \<Rightarrow> (string \<Rightarrow> string) \<Rightarrow> string \<Rightarrow> file_index \<Rightarrow> bytes \<Rightarrow> reader_state
      \<Rightarrow> lookup res \<times> reader_state" where
  "columnar_get pq getr sched path_from bucket idx key st =
     get_candidates pq getr sched path_from bucket (candidates idx key) key st"

section \<open>What a file holds\<close>

type_synonym row = "bytes \<times> op \<times> bytes"

definition batch_shows :: "record_batch \<Rightarrow> row list \<Rightarrow> bool" where
  "batch_shows b rows \<longleftrightarrow>
     num_rows b = length rows \<and>
     (\<exists>vs. batch_columns b = [BinaryArray (map fst rows), Int32Array (map (op_code \<circ> fst \<circ> snd) rows), BinaryArray vs] \<and>
           length vs = length rows \<and> (\<forall>i < length rows. fst (snd (rows ! i)) = Put \<longrightarrow> vs ! i = snd (snd (rows ! i))))"

lemma op_code_Delete [simp]: "op_code x = op_code Delete \<longleftrightarrow> x = Delete"
  by (cases x) (simp_all add: op_code_def)

lemma scan_rows_spec:
  assumes "length vs = length rows" and "\<forall>i < length rows. fst (snd (rows ! i)) = Put \<longrightarrow> vs ! i = snd (snd (rows ! i))"
    and "n \<le> length rows"
  shows "scan_rows (map fst rows) (map (op_code \<circ> fst \<circ> snd) rows) vs key [n..<length rows]
           = Ok (map_option (lookup_of \<circ> Some) (map_of (drop n rows) key))"
  using assms(3)
proof (induction "length rows - n" arbitrary: n)
  case 0
  then show ?case by simp
next
  case (Suc d)
  then have n: "n < length rows" by simp
  then have up: "[n..<length rows] = n # [Suc n..<length rows]" by (simp add: upt_conv_Cons)
  have dr: "drop n rows = rows ! n # drop (Suc n) rows" using n by (simp add: Cons_nth_drop_Suc)
  obtain k x v where row: "rows ! n = (k, x, v)" by (cases "rows ! n")
  have IH: "scan_rows (map fst rows) (map (op_code \<circ> fst \<circ> snd) rows) vs key [Suc n..<length rows]
      = Ok (map_option (lookup_of \<circ> Some) (map_of (drop (Suc n) rows) key))" using Suc n by simp
  show ?case
  proof (cases "k = key")
    case True
    have "vs ! n = v" if "x = Put" using assms(2) n row that by fastforce
    then show ?thesis
      using True n row assms(1) by (cases x) (simp_all add: up dr array_value_def op_code_def)
  next
    case False
    then show ?thesis using n row IH by (simp add: up dr array_value_def)
  qed
qed

lemma scan_batches_spec:
  assumes "list_all2 batch_shows bs rss"
  shows "scan_batches bs key = Ok (lookup_of (map_of (concat rss) key))"
  using assms
proof (induction bs rss rule: list_all2_induct)
  case Nil
  show ?case by simp
next
  case (Cons b bs rows rss)
  from Cons(1) obtain vs where vs: "num_rows b = length rows"
    "batch_columns b = [BinaryArray (map fst rows), Int32Array (map (op_code \<circ> fst \<circ> snd) rows), BinaryArray vs]"
    "length vs = length rows" "\<forall>i < length rows. fst (snd (rows ! i)) = Put \<longrightarrow> vs ! i = snd (snd (rows ! i))"
    by (auto simp: batch_shows_def)
  have "scan_batches (b # bs) key =
      (case map_option (lookup_of \<circ> Some) (map_of rows key) of Some l \<Rightarrow> Ok l | None \<Rightarrow> scan_batches bs key)"
    using scan_rows_spec [OF vs(3,4), of 0 key] vs(1,2) by (simp add: binary_col_def int32_col_def)
  then show ?case using Cons.IH by (cases "map_of rows key") (simp_all add: map_add_def)
qed

text \<open>
  The contract of a data file: its footer parses, its row groups hold the rows in key order, each
  group's bounds admit its own keys, and no earlier group's bounds admit them.
\<close>

definition group_bounds :: "column_chunk list list \<Rightarrow> row list list \<Rightarrow> bool" where
  "group_bounds cols groups \<longleftrightarrow>
     length cols = length groups \<and> (\<forall>c \<in> set cols. PK_COL < length c) \<and>
     (\<forall>j < length groups. \<forall>k \<in> fst ` set (groups ! j).
        row_group_may_contain (cols ! j ! PK_COL) k \<and> (\<forall>i < j. \<not> row_group_may_contain (cols ! i ! PK_COL) k))"

definition file_serves :: "parquet_api \<Rightarrow> get_range \<Rightarrow> string \<Rightarrow> u64 \<Rightarrow> row list \<Rightarrow> bool" where
  "file_serves pq getr path n rows \<longleftrightarrow>
     (\<exists>meta groups.
        run_direct getr path (pq_load pq n) = Ok meta \<and> pq_arrow pq meta = None \<and>
        concat groups = rows \<and> distinct (map fst rows) \<and> group_bounds (row_groups meta) groups \<and>
        (\<forall>j < length groups. \<exists>bs rss. run_direct getr path (pq_rows pq meta j [PK_COL, 2, 3]) = Ok bs \<and>
           list_all2 batch_shows bs rss \<and> concat rss = groups ! j))"

lemma pick_row_group_spec:
  assumes "\<forall>c \<in> set cols. PK_COL < length c"
  shows "(pick_row_group cols key n = Ok None \<and> (\<forall>i < length cols. \<not> row_group_may_contain (cols ! i ! PK_COL) key)) \<or>
         (\<exists>j < length cols. pick_row_group cols key n = Ok (Some (n + j)) \<and>
            row_group_may_contain (cols ! j ! PK_COL) key \<and> (\<forall>i < j. \<not> row_group_may_contain (cols ! i ! PK_COL) key))"
  using assms
proof (induction cols arbitrary: n)
  case (Cons c cols)
  show ?case
  proof (cases "row_group_may_contain (c ! PK_COL) key")
    case True
    then show ?thesis using Cons.prems by (intro disjI2 exI [of _ 0]) auto
  next
    case False
    then have step: "pick_row_group (c # cols) key n = pick_row_group cols key (Suc n)" using Cons.prems by simp
    from Cons.IH [of "Suc n"] Cons.prems consider
      "pick_row_group cols key (Suc n) = Ok None" "\<forall>i < length cols. \<not> row_group_may_contain (cols ! i ! PK_COL) key"
      | j where "j < length cols" "pick_row_group cols key (Suc n) = Ok (Some (Suc n + j))"
        "row_group_may_contain (cols ! j ! PK_COL) key" "\<forall>i < j. \<not> row_group_may_contain (cols ! i ! PK_COL) key"
      by auto
    then show ?thesis
    proof cases
      case 1
      then show ?thesis using step False by (auto simp: nth_Cons')
    next
      case 2
      then show ?thesis using step False by (intro disjI2 exI [of _ "Suc j"]) (auto simp: nth_Cons')
    qed
  qed
qed simp

text \<open>The group that is picked knows all the file knows about the key.\<close>

lemma picked_group:
  assumes gb: "group_bounds cols groups" and j: "j < length groups"
    and hit: "row_group_may_contain (cols ! j ! PK_COL) key" and before: "\<forall>i < j. \<not> row_group_may_contain (cols ! i ! PK_COL) key"
    and dist: "distinct (map fst (concat groups))"
  shows "map_of (concat groups) key = map_of (groups ! j) key"
proof (cases "key \<in> fst ` set (concat groups)")
  case False
  moreover have "set (groups ! j) \<subseteq> set (concat groups)" using j by (auto intro: nth_mem)
  with False have "key \<notin> fst ` set (groups ! j)" by blast
  ultimately show ?thesis by (metis map_of_eq_None_iff)
next
  case True
  then obtain v where v: "(key, v) \<in> set (concat groups)" by force
  then obtain g where "g \<in> set groups" "(key, v) \<in> set g" by auto
  then obtain m where m: "m < length groups" "(key, v) \<in> set (groups ! m)" by (metis in_set_conv_nth)
  then have "key \<in> fst ` set (groups ! m)" by force
  with gb m(1) have own: "row_group_may_contain (cols ! m ! PK_COL) key"
    and excl: "\<forall>i < m. \<not> row_group_may_contain (cols ! i ! PK_COL) key"
    unfolding group_bounds_def by blast+
  then have "m = j" using hit before by (metis linorder_neqE_nat)
  have "map_of (concat groups) key = Some v" using dist v by simp
  moreover have "distinct (map fst (groups ! j))"
    using dist j by (metis (no_types, lifting) distinct_concat_iff distinct_map inj_on_subset map_concat nth_mem
        list.set_map image_iff Union_upper set_concat)
  then have "map_of (groups ! j) key = Some v" using m \<open>m = j\<close> by simp
  ultimately show ?thesis by simp
qed

context file_source
begin

text \<open>Reading through a good source, once the footer and the row groups are known.\<close>

lemma run_then:
  assumes "s_inv s" and "d_run path p = Ok x"
  shows "\<exists>s'. (case s_run path p s of (Ok y, s') \<Rightarrow> (f y, s') | (Err e, s') \<Rightarrow> (Err e, s') | (Panic m, s') \<Rightarrow> (Panic m, s'))
             = (f x, s') \<and> s_inv s'"
  using run_ok [OF assms] by force

end

lemma pruned_file:
  assumes gb: "group_bounds cols groups" and out: "\<forall>i < length cols. \<not> row_group_may_contain (cols ! i ! PK_COL) key"
  shows "map_of (concat groups) key = None"
proof -
  have "key \<notin> fst ` set (groups ! j)" if "j < length groups" for j
    using gb out that unfolding group_bounds_def by metis
  then have "\<forall>rows \<in> set groups. key \<notin> fst ` set rows" by (metis in_set_conv_nth)
  then show ?thesis by (auto simp: map_of_eq_None_iff)
qed

lemma get_from_file_spec:
  assumes sched: "sched_ok sched" and inv: "reader_inv getr (pq_load pq) size_of st"
    and serves: "file_serves pq getr (object_path path_from e bucket) (file_size e) rows"
    and sz: "size_of (object_path path_from e bucket) = file_size e"
  shows "\<exists>st'. get_from_file pq getr sched path_from bucket e key st = (Ok (lookup_of (map_of rows key)), st') \<and>
               reader_inv getr (pq_load pq) size_of st'"
proof -
  let ?path = "object_path path_from e bucket"
  from serves obtain meta groups where f: "run_direct getr ?path (pq_load pq (file_size e)) = Ok meta" "pq_arrow pq meta = None"
    "concat groups = rows" "distinct (map fst rows)" and gb: "group_bounds (row_groups meta) groups"
    and rd: "\<forall>j < length groups. \<exists>bs rss. run_direct getr ?path (pq_rows pq meta j [PK_COL, 2, 3]) = Ok bs \<and>
           list_all2 batch_shows bs rss \<and> concat rss = groups ! j"
    unfolding file_serves_def by blast
  from file_source.meta_ok [OF cached_source [OF sched] inv, of ?path meta] f(1) sz obtain st1 where
    m: "get_metadata getr sched (pq_load pq) ?path (file_size e) st = (Ok meta, st1)" and inv1: "reader_inv getr (pq_load pq) size_of st1"
    by auto
  have cols: "\<forall>c \<in> set (row_groups meta). PK_COL < length c" and len: "length (row_groups meta) = length groups"
    using gb by (simp_all add: group_bounds_def)
  from pick_row_group_spec [OF cols, of key 0] show ?thesis
  proof
    assume a: "pick_row_group (row_groups meta) key 0 = Ok None \<and>
      (\<forall>i < length (row_groups meta). \<not> row_group_may_contain (row_groups meta ! i ! PK_COL) key)"
    then have "map_of rows key = None" using pruned_file [OF gb, of key] f(3) by simp
    then show ?thesis using a m f(2) inv1 by (simp add: get_from_file_def)
  next
    assume "\<exists>j < length (row_groups meta). pick_row_group (row_groups meta) key 0 = Ok (Some (0 + j)) \<and>
      row_group_may_contain (row_groups meta ! j ! PK_COL) key \<and> (\<forall>i < j. \<not> row_group_may_contain (row_groups meta ! i ! PK_COL) key)"
    then obtain j where j: "j < length groups" "pick_row_group (row_groups meta) key 0 = Ok (Some j)"
      "row_group_may_contain (row_groups meta ! j ! PK_COL) key" "\<forall>i < j. \<not> row_group_may_contain (row_groups meta ! i ! PK_COL) key"
      by (auto simp: len)
    from rd j(1) obtain bs rss where b: "run_direct getr ?path (pq_rows pq meta j [PK_COL, 2, 3]) = Ok bs"
      "list_all2 batch_shows bs rss" "concat rss = groups ! j" by blast
    from file_source.run_then [OF cached_source [OF sched] inv1 b(1), of "\<lambda>bs. scan_batches bs key"] obtain st2 where
      "scan_row_group pq getr sched ?path meta j key st1 = (scan_batches bs key, st2)" "reader_inv getr (pq_load pq) size_of st2"
      unfolding scan_row_group_def by blast
    moreover have "map_of rows key = map_of (groups ! j) key"
      using picked_group [OF gb j(1,3,4)] f(3,4) by simp
    ultimately show ?thesis
      using m f(2) j(2) scan_batches_spec [OF b(2), of key] b(3) by (simp add: get_from_file_def)
  qed
qed

section \<open>The columnar level\<close>

text \<open>The files of the level, newest first, and what it knows.\<close>

fun files_view :: "row list list \<Rightarrow> view" where
  "files_view [] = Map.empty"
| "files_view (rows # older) = files_view older ++ map_of rows"

definition entry_serves ::
    "parquet_api \<Rightarrow> get_range \<Rightarrow> (string \<Rightarrow> string) \<Rightarrow> string \<Rightarrow> (string \<Rightarrow> u64) \<Rightarrow> file_entry \<Rightarrow> row list \<Rightarrow> bool" where
  "entry_serves pq getr path_from bucket size_of e rows \<longleftrightarrow>
     file_serves pq getr (object_path path_from e bucket) (file_size e) rows \<and>
     size_of (object_path path_from e bucket) = file_size e \<and>
     (\<forall>k \<in> fst ` set rows. pk_min e \<le> k \<and> k \<le> pk_max e) \<and>
     (\<forall>b. fe_bloom e = Some b \<longrightarrow> built_over (fst ` set rows) b)"

lemma bloom_ok_answers:
  assumes "\<forall>b. fe_bloom e = Some b \<longrightarrow> built_over ks b"
  shows "\<exists>x. bloom_may_contain e key = Ok x \<and> (key \<in> ks \<longrightarrow> x)"
proof (cases "fe_bloom e")
  case (Some b)
  then have "bloom_ok b" "key \<in> ks \<longrightarrow> holds_key b key" using assms by (auto simp: built_over_def)
  then show ?thesis using Some by (simp add: bloom_may_contain_def might_contain_holds)
qed (auto simp: bloom_may_contain_def)

text \<open>One file of the level: it answers, or the read goes on with the older ones.\<close>

lemma columnar_step:
  assumes es: "entry_serves pq getr path_from bucket size_of e rows"
    and "sched_ok sched" and inv: "reader_inv getr (pq_load pq) size_of st"
  shows "\<exists>st1. reader_inv getr (pq_load pq) size_of st1 \<and>
     columnar_get pq getr sched path_from bucket (e # idx) key st =
       (case map_of rows key of
          None \<Rightarrow> columnar_get pq getr sched path_from bucket idx key st1
        | Some y \<Rightarrow> (Ok (lookup_of (Some y)), st1))"
proof -
  from es have sv: "file_serves pq getr (object_path path_from e bucket) (file_size e) rows"
    "size_of (object_path path_from e bucket) = file_size e"
    and bounds: "\<forall>k \<in> fst ` set rows. pk_min e \<le> k \<and> k \<le> pk_max e"
    and bl: "\<forall>b. fe_bloom e = Some b \<longrightarrow> built_over (fst ` set rows) b"
    by (auto simp: entry_serves_def)
  from bloom_ok_answers [OF bl, of key] obtain x where x: "bloom_may_contain e key = Ok x" "key \<in> fst ` set rows \<longrightarrow> x" by blast
  note unf = columnar_get_def candidates_def
  show ?thesis
  proof (cases "may_contain e key \<and> x")
    case False
    then have "map_of rows key = None" using bounds x(2) by (auto simp: map_of_eq_None_iff may_contain_def)
    then show ?thesis using False x(1) inv by (intro exI [of _ st]) (auto simp: unf)
  next
    case True
    from get_from_file_spec [OF assms(2) inv sv, of key] obtain st1 where
      g: "get_from_file pq getr sched path_from bucket e key st = (Ok (lookup_of (map_of rows key)), st1)"
      "reader_inv getr (pq_load pq) size_of st1" by blast
    then show ?thesis using True x(1)
      by (intro exI [of _ st1], cases "map_of rows key"; cases "lookup_of (map_of rows key)") (auto simp: unf)
  qed
qed

lemma columnar_get_spec:
  assumes "list_all2 (entry_serves pq getr path_from bucket size_of) idx files"
    and "sched_ok sched" and "reader_inv getr (pq_load pq) size_of st"
  shows "\<exists>st'. columnar_get pq getr sched path_from bucket idx key st = (Ok (lookup_of (files_view files key)), st') \<and>
               reader_inv getr (pq_load pq) size_of st'"
  using assms(1,3)
proof (induction idx files arbitrary: st rule: list_all2_induct)
  case Nil
  then show ?case by (simp add: columnar_get_def candidates_def)
next
  case (Cons e idx rows files)
  from columnar_step [OF Cons.hyps(1) assms(2) Cons.prems] obtain st1 where
    st1: "reader_inv getr (pq_load pq) size_of st1"
    "columnar_get pq getr sched path_from bucket (e # idx) key st =
       (case map_of rows key of None \<Rightarrow> columnar_get pq getr sched path_from bucket idx key st1 | Some y \<Rightarrow> (Ok (lookup_of (Some y)), st1))"
    by blast
  from Cons.IH [OF st1(1)] st1 show ?case by (cases "map_of rows key") (auto simp: map_add_def)
qed

section \<open>Exact statistics\<close>

text \<open>Row groups of a file in key order whose statistics are their first and last keys.\<close>

definition exact_stats :: "row list \<Rightarrow> column_chunk" where
  "exact_stats g = \<lparr>statistics = Some \<lparr>min_bytes_opt = Some (fst (hd g)), max_bytes_opt = Some (fst (last g))\<rparr>\<rparr>"

lemma sorted_concat_groups:
  assumes "sorted_wrt (<) (concat gs)" and "i < j" and "j < length gs" and "x \<in> set (gs ! i)" and "y \<in> set (gs ! j)"
  shows "x < (y :: 'a::linorder)"
  using assms
proof (induction gs arbitrary: i j)
  case (Cons g gs)
  then obtain j' where j': "j = Suc j'" by (cases j) auto
  show ?case
  proof (cases i)
    case 0
    have "y \<in> set (concat gs)" using Cons.prems j' by (auto intro: nth_mem)
    then show ?thesis using Cons.prems 0 by (auto simp: sorted_wrt_append)
  next
    case (Suc i')
    then show ?thesis using Cons.prems j' by (intro Cons.IH [of i' j']) (auto simp: sorted_wrt_append)
  qed
qed simp

lemma sorted_bounds:
  assumes "sorted_wrt (<) xs" and "x \<in> set xs"
  shows "hd xs \<le> x \<and> x \<le> last (xs :: 'a::linorder list)"
  using assms
proof (induction xs)
  case (Cons a xs)
  show ?case
  proof (cases "xs = []")
    case False
    then have "last xs \<in> set xs" by simp
    with Cons False show ?thesis by (auto intro: less_imp_le)
  qed (use Cons in simp)
qed simp

lemma exact_group_bounds:
  assumes srt: "sorted_wrt (<) (map fst (concat groups))" and ne: "\<forall>g \<in> set groups. g \<noteq> []"
  shows "group_bounds (map (\<lambda>g. [exact_stats g]) groups) groups"
proof -
  have keys: "concat (map (map fst) groups) = map fst (concat groups)" by (simp add: map_concat)
  have own: "row_group_may_contain (exact_stats (groups ! j)) k"
    if j: "j < length groups" and k: "k \<in> fst ` set (groups ! j)" for j k
  proof -
    obtain pre post where "groups = pre @ groups ! j # post" using j by (metis id_take_nth_drop)
    then have "map fst (concat groups) = map fst (concat pre) @ map fst (groups ! j) @ map fst (concat post)"
      by (metis concat_append concat.simps(2) map_append)
    then have "sorted_wrt (<) (map fst (groups ! j))" using srt by (simp add: sorted_wrt_append)
    from sorted_bounds [OF this, of k] k have "hd (map fst (groups ! j)) \<le> k \<and> k \<le> last (map fst (groups ! j))" by simp
    moreover have "groups ! j \<noteq> []" using ne j by simp
    ultimately show ?thesis by (simp add: row_group_may_contain_def exact_stats_def hd_map last_map)
  qed
  have other: "\<not> row_group_may_contain (exact_stats (groups ! i)) k"
    if j: "j < length groups" and k: "k \<in> fst ` set (groups ! j)" and i: "i < j" for i j k
  proof -
    have "groups ! i \<noteq> []" using ne i j by simp
    then have "fst (last (groups ! i)) \<in> set (map (map fst) groups ! i)" using i j by simp
    moreover have "k \<in> set (map (map fst) groups ! j)" using j k by simp
    ultimately have "fst (last (groups ! i)) < k"
      using sorted_concat_groups [of "map (map fst) groups" i j] srt keys i j by simp
    then show ?thesis by (auto simp: row_group_may_contain_def exact_stats_def)
  qed
  show ?thesis using own other by (auto simp: group_bounds_def PK_COL_def)
qed

section \<open>Properties\<close>

text \<open>
  A read of one file. When the footer and the row groups can be read and the bounds of the row
  groups tell them apart, looking a key up, through the cache and whatever it holds, gives the value or
  the tombstone of the file's row for the key, and misses exactly when the file has none.
\<close>

theorem file_read_exact:
  assumes "sched_ok sched" and "reader_inv getr (pq_load pq) size_of st"
    and "file_serves pq getr (object_path path_from e bucket) (file_size e) rows"
    and "size_of (object_path path_from e bucket) = file_size e"
  shows "\<exists>st'. get_from_file pq getr sched path_from bucket e key st = (Ok (lookup_of (map_of rows key)), st') \<and>
               reader_inv getr (pq_load pq) size_of st'"
  using assms by (rule get_from_file_spec)

definition sample_groups :: "row list list" where
  "sample_groups = [[([97], Put, [1])], [([98], Delete, []), ([99], Put, [3])]]"

definition sample_batch :: "row list \<Rightarrow> record_batch" where
  "sample_batch rows =
     \<lparr>batch_columns = [BinaryArray (map fst rows), Int32Array (map (op_code \<circ> fst \<circ> snd) rows), BinaryArray (map (snd \<circ> snd) rows)],
      num_rows = length rows\<rparr>"

definition sample_pq :: "column_chunk list \<Rightarrow> parquet_api" where
  "sample_pq stats =
     \<lparr>pq_load = (\<lambda>n. Fetch (0, n) (\<lambda>_. Ret \<lparr>row_groups = map (\<lambda>s. [s]) stats\<rparr>)),
      pq_arrow = (\<lambda>_. None),
      pq_rows = (\<lambda>m j cols. FetchMany [(0, 4), (4, 8)] (\<lambda>_. Ret [sample_batch (sample_groups ! j)]))\<rparr>"

definition sample_file :: file_entry where
  "sample_file = \<lparr>location = ''/kv/a.parquet'', fe_watermark = 7, pk_min = [97], pk_max = [99], file_size = 10,
     record_count = 3, fe_bloom = None\<rparr>"

lemma sample_batch_shows: "batch_shows (sample_batch rows) rows"
  by (simp add: batch_shows_def sample_batch_def)

lemma sample_serves:
  "file_serves (sample_pq (map exact_stats sample_groups)) (\<lambda>_ _. Inr []) path n (concat sample_groups)"
proof -
  let ?meta = "\<lparr>row_groups = map (\<lambda>g. [exact_stats g]) sample_groups\<rparr>"
  have "group_bounds (row_groups ?meta) sample_groups"
    using exact_group_bounds [of sample_groups] by (simp add: sample_groups_def)
  moreover have "\<forall>j < length sample_groups. \<exists>bs rss.
      run_direct (\<lambda>_ _. Inr []) path (pq_rows (sample_pq (map exact_stats sample_groups)) ?meta j [PK_COL, 2, 3]) = Ok bs \<and>
      list_all2 batch_shows bs rss \<and> concat rss = sample_groups ! j"
  proof (intro allI impI)
    fix j
    show "\<exists>bs rss. run_direct (\<lambda>_ _. Inr []) path (pq_rows (sample_pq (map exact_stats sample_groups)) ?meta j [PK_COL, 2, 3]) = Ok bs \<and>
      list_all2 batch_shows bs rss \<and> concat rss = sample_groups ! j"
      by (intro exI [of _ "[sample_batch (sample_groups ! j)]"] exI [of _ "[sample_groups ! j]"])
        (simp add: sample_pq_def sample_batch_shows)
  qed
  moreover have "run_direct (\<lambda>_ _. Inr []) path (pq_load (sample_pq (map exact_stats sample_groups)) n) = Ok ?meta"
    by (simp add: sample_pq_def comp_def)
  moreover have "distinct (map fst (concat sample_groups))" by (simp add: sample_groups_def)
  moreover have "pq_arrow (sample_pq (map exact_stats sample_groups)) ?meta = None" by (simp add: sample_pq_def)
  ultimately show ?thesis unfolding file_serves_def by blast
qed

lemma reader_inv_new: "reader_inv getr load size_of ([], byte_cache_new n)"
  by (simp add: reader_inv_def)

theorem file_read_exact_witness:
  "\<exists>st'. get_from_file (sample_pq (map exact_stats sample_groups)) (\<lambda>_ _. Inr []) in_order (\<lambda>s. s) ''b'' sample_file [98]
           ([], byte_cache_new 5) = (Ok (lookup_of (map_of (concat sample_groups) [98])), st') \<and>
         reader_inv (\<lambda>_ _. Inr []) (pq_load (sample_pq (map exact_stats sample_groups))) (\<lambda>_. 10) st'"
  by (rule file_read_exact [OF in_order_ok reader_inv_new sample_serves]) (simp add: sample_file_def)

text \<open>
  C33. A read of the level. With the files of the index, newest first, each serving its rows, its bounds
  enclosing its keys and its filter built over them, a lookup gives the newest file's answer among those
  that know the key: bounds, filters and row-group pruning never change it.
\<close>

theorem columnar_newest_wins:
  assumes "list_all2 (entry_serves pq getr path_from bucket size_of) idx files"
    and "sched_ok sched" and "reader_inv getr (pq_load pq) size_of st"
  shows "\<exists>st'. columnar_get pq getr sched path_from bucket idx key st = (Ok (lookup_of (files_view files key)), st') \<and>
               reader_inv getr (pq_load pq) size_of st'"
  using assms by (rule columnar_get_spec)

lemma sample_entry_serves:
  "entry_serves (sample_pq (map exact_stats sample_groups)) (\<lambda>_ _. Inr []) (\<lambda>s. s) ''b'' (\<lambda>_. 10) sample_file (concat sample_groups)"
  using sample_serves by (simp add: entry_serves_def sample_file_def sample_groups_def)

theorem columnar_newest_wins_witness:
  "\<exists>st'. columnar_get (sample_pq (map exact_stats sample_groups)) (\<lambda>_ _. Inr []) in_order (\<lambda>s. s) ''b'' [sample_file] [99]
           ([], byte_cache_new 5) = (Ok (lookup_of (files_view [concat sample_groups] [99])), st') \<and>
         reader_inv (\<lambda>_ _. Inr []) (pq_load (sample_pq (map exact_stats sample_groups))) (\<lambda>_. 10) st'"
  by (rule columnar_newest_wins [OF _ in_order_ok reader_inv_new]) (simp add: sample_entry_serves)

text \<open>
  Exact statistics are enough. In a file in strict key order, split into non-empty row groups whose
  statistics are their first and last keys, every key is admitted by its own group and by no earlier
  one, which is all the read of a file asks for.
\<close>

theorem exact_statistics_separate:
  assumes "sorted_wrt (<) (map fst (concat groups))" and "\<forall>g \<in> set groups. g \<noteq> []"
    and "j < length groups" and "k \<in> fst ` set (groups ! j)"
  shows "row_group_may_contain (exact_stats (groups ! j)) k \<and>
         (\<forall>i < j. \<not> row_group_may_contain (exact_stats (groups ! i)) k)"
  using exact_group_bounds [OF assms(1,2)] assms(3,4) by (fastforce simp: group_bounds_def PK_COL_def)

theorem exact_statistics_separate_witness:
  "row_group_may_contain (exact_stats (sample_groups ! 1)) [98] \<and>
   (\<forall>i < 1. \<not> row_group_may_contain (exact_stats (sample_groups ! i)) [98])"
  by (rule exact_statistics_separate) (simp_all add: sample_groups_def)


end
