(* ===== verification/Flush_Protocol.thy ===== *)
theory Flush_Protocol
  imports Memtable_Set Duckdb_Script Columnar_Read
begin

text \<open>
  What a flush decides and writes, from \<^verbatim>\<open>src/src/flush.rs\<close>: \<open>Flushed\<close>, \<open>Plan\<close>, \<open>plan\<close>, \<open>batches\<close> and \<open>finish\<close>,
  \<open>stage\<close>, \<open>publish\<close> and \<open>charge\<close>. The Arrow writer is code of another crate: its calls are the argument
  \<open>aw\<close>. An array under construction is the list of its slots, a null is \<open>None\<close>.

  Shown: the plan is exact; the batches carry every entry of the memtable once, in key order, tombstones
  as nulls, none empty and none too large, and building them never panics; and the highest \<open>lsn\<close> staged is
  the memtable's \<open>max_lsn\<close>, so the watermark the catalog derives is the one the flush planned.
\<close>

section \<open>Plan and outcome\<close>

definition BATCH_ROWS :: nat where
  "BATCH_ROWS = 8192"

datatype flushed = Committed lsn nat | AlreadyPublished lsn | Empty

fun flushed_watermark :: "flushed \<Rightarrow> lsn option" where
  "flushed_watermark (Committed watermark files) = Some watermark"
| "flushed_watermark (AlreadyPublished watermark) = Some watermark"
| "flushed_watermark Empty = None"

datatype plan = PlanWrite lsn | PlanAlreadyPublished lsn | PlanEmpty

definition plan_flush :: "'m skipmap_api \<Rightarrow> lsn \<Rightarrow> 'm memtable \<Rightarrow> plan" where
  "plan_flush sm published mt =
     (if memtable_is_empty sm mt then PlanEmpty
      else
        let watermark = mt_max_lsn mt
        in if watermark \<le> published then PlanAlreadyPublished watermark else PlanWrite watermark)"

section \<open>Batches\<close>

record stage_batch =
  sb_pk :: "bytes list"
  sb_lsn :: "int list"
  sb_op :: "int list"
  sb_value :: "bytes option list"

definition no_rows :: stage_batch where
  "no_rows = \<lparr>sb_pk = [], sb_lsn = [], sb_op = [], sb_value = []\<rparr>"

text \<open>One turn of the loop: a row for every entry, a null value for a tombstone.\<close>

definition push_row :: "bytes \<times> entry \<Rightarrow> stage_batch \<Rightarrow> stage_batch" where
  "push_row = (\<lambda>(k, e) b.
     \<lparr>sb_pk = sb_pk b @ [k], sb_lsn = sb_lsn b @ [sint (e_lsn e)], sb_op = sb_op b @ [op_code (e_op e)],
      sb_value = sb_value b @ [case e_op e of Put \<Rightarrow> Some (e_value e) | Delete \<Rightarrow> None]\<rparr>)"

text \<open>\<open>RecordBatch::try_new\<close> checks that the columns have one length; \<open>finish\<close> expects that they do.\<close>

definition finish :: "stage_batch \<Rightarrow> stage_batch res" where
  "finish b =
     (if length (sb_lsn b) = length (sb_pk b) \<and> length (sb_op b) = length (sb_pk b) \<and> length (sb_value b) = length (sb_pk b)
      then Ok b else Panic ''batch columns match the arrow schema'')"

fun batch_loop :: "nat \<Rightarrow> (bytes \<times> entry) list \<Rightarrow> stage_batch \<Rightarrow> nat \<Rightarrow> stage_batch list \<Rightarrow> stage_batch list res" where
  "batch_loop limit [] b rows out =
     (if 0 < rows then bind_res (finish b) (\<lambda>x. Ok (out @ [x])) else Ok out)"
| "batch_loop limit (r # rest) b rows out =
     (if rows + 1 = limit
      then bind_res (finish (push_row r b)) (\<lambda>x. batch_loop limit rest no_rows 0 (out @ [x]))
      else batch_loop limit rest (push_row r b) (rows + 1) out)"

definition batches :: "'m skipmap_api \<Rightarrow> 'm memtable \<Rightarrow> stage_batch list res" where
  "batches sm mt = batch_loop BATCH_ROWS (memtable_iter sm mt) no_rows 0 []"

section \<open>Staging and publishing\<close>

record 'w arrow_writer =
  aw_create :: "string \<Rightarrow> field list \<Rightarrow> 'w \<Rightarrow> unit res \<times> 'w"
  aw_write :: "string \<Rightarrow> stage_batch \<Rightarrow> 'w \<Rightarrow> unit res \<times> 'w"
  aw_close :: "string \<Rightarrow> 'w \<Rightarrow> unit res \<times> 'w"

fun write_batches :: "'w arrow_writer \<Rightarrow> string \<Rightarrow> stage_batch list \<Rightarrow> 'w \<Rightarrow> unit res \<times> 'w" where
  "write_batches aw path [] w = (Ok (), w)"
| "write_batches aw path (b # bs) w =
     (case aw_write aw path b w of (Ok _, w') \<Rightarrow> write_batches aw path bs w' | (r, w') \<Rightarrow> (r, w'))"

definition stage :: "'m skipmap_api \<Rightarrow> 'w arrow_writer \<Rightarrow> 'm memtable \<Rightarrow> string \<Rightarrow> 'w \<Rightarrow> unit res \<times> 'w" where
  "stage sm aw mt path w =
     (case aw_create aw path arrow_schema w of
        (Ok _, w1) \<Rightarrow>
          (case batches sm mt of
             Ok bs \<Rightarrow>
               (case write_batches aw path bs w1 of
                  (Ok _, w2) \<Rightarrow> aw_close aw path w2
                | (r, w2) \<Rightarrow> (r, w2))
           | Err e \<Rightarrow> (Err e, w1)
           | Panic p \<Rightarrow> (Panic p, w1))
      | (r, w1) \<Rightarrow> (r, w1))"

text \<open>How long \<open>charge\<close> sleeps, \<open>None\<close> when it returns at once.\<close>

definition charge :: "'f f64_ops \<Rightarrow> 'f tape \<Rightarrow> 'f latency_profile \<Rightarrow> u32 \<Rightarrow> u32 \<Rightarrow> nat \<Rightarrow> duration option \<times> nat" where
  "charge F tape p puts gets pos =
     (let (t, pos') = charge_for F tape p puts gets pos in (if t = 0 then None else Some t, pos'))"

definition publish ::
    "'f f64_ops \<Rightarrow> 'f tape \<Rightarrow> 'w process \<Rightarrow> duckdb_config \<Rightarrow> catalog_config \<Rightarrow> s3_config \<Rightarrow> string \<Rightarrow> 'f latency_profile
      \<Rightarrow> nat \<Rightarrow> 'w \<Rightarrow> unit res \<times> 'w \<times> nat" where
  "publish F tape proc duckdb cat s3 staging latency pos w =
     (case run_duckdb proc duckdb (publish_script cat s3 staging) w of
        (Ok _, w') \<Rightarrow> (Ok (), w', snd (charge F tape latency 1 0 pos))
      | (r, w') \<Rightarrow> (r, w', pos))"

section \<open>What the batches hold\<close>

type_synonym staged_row = "bytes \<times> int \<times> int \<times> bytes option"

definition batch_rows :: "stage_batch \<Rightarrow> staged_row list" where
  "batch_rows b = zip (sb_pk b) (zip (sb_lsn b) (zip (sb_op b) (sb_value b)))"

definition staged_row_of :: "bytes \<times> entry \<Rightarrow> staged_row" where
  "staged_row_of = (\<lambda>(k, e).
     (k, sint (e_lsn e), op_code (e_op e), case e_op e of Put \<Rightarrow> Some (e_value e) | Delete \<Rightarrow> None))"

text \<open>The batch built from a list of entries.\<close>

definition batch_of :: "(bytes \<times> entry) list \<Rightarrow> stage_batch" where
  "batch_of rs =
     \<lparr>sb_pk = map fst rs, sb_lsn = map (\<lambda>r. sint (e_lsn (snd r))) rs, sb_op = map (\<lambda>r. op_code (e_op (snd r))) rs,
      sb_value = map (\<lambda>r. case e_op (snd r) of Put \<Rightarrow> Some (e_value (snd r)) | Delete \<Rightarrow> None) rs\<rparr>"

lemma batch_of_simps [simp]:
  "batch_of [] = no_rows" "push_row r (batch_of rs) = batch_of (rs @ [r])" "finish (batch_of rs) = Ok (batch_of rs)"
  by (simp_all add: batch_of_def no_rows_def push_row_def finish_def split_def)

lemma batch_rows_of: "batch_rows (batch_of rs) = map staged_row_of rs"
  by (induction rs) (simp_all add: batch_rows_def batch_of_def staged_row_of_def split_def)

fun chunks :: "nat \<Rightarrow> 'a list \<Rightarrow> 'a list \<Rightarrow> 'a list list" where
  "chunks limit acc [] = (if acc = [] then [] else [acc])"
| "chunks limit acc (x # xs) =
     (if length acc + 1 = limit then (acc @ [x]) # chunks limit [] xs else chunks limit (acc @ [x]) xs)"

lemma batch_loop_chunks:
  "batch_loop limit rs (batch_of acc) (length acc) out = Ok (out @ map batch_of (chunks limit acc rs))"
proof (induction rs arbitrary: acc out)
  case (Cons r rs)
  from Cons [of "[]"] Cons [of "acc @ [r]"] show ?case by (simp del: batch_of_simps(1) add: batch_of_simps(1) [symmetric])
qed simp

lemma concat_chunks: "concat (chunks limit acc xs) = acc @ xs"
  by (induction limit acc xs rule: chunks.induct) simp_all

lemma chunks_nonempty: "c \<in> set (chunks limit acc xs) \<Longrightarrow> c \<noteq> []"
  by (induction limit acc xs rule: chunks.induct) (auto split: if_splits)

lemma chunks_bounded: "length acc < limit \<Longrightarrow> c \<in> set (chunks limit acc xs) \<Longrightarrow> length c \<le> limit"
  by (induction limit acc xs rule: chunks.induct) (auto split: if_splits)

lemma chunks_full: "length acc < limit \<Longrightarrow> c \<in> set (butlast (chunks limit acc xs)) \<Longrightarrow> length c = limit"
proof (induction limit acc xs rule: chunks.induct)
  case (2 limit acc x xs)
  then show ?case by (cases "length acc + 1 = limit") (auto split: if_splits)
qed (simp split: if_splits)

lemma batches_chunks:
  "batches sm mt = Ok (map batch_of (chunks BATCH_ROWS [] (memtable_iter sm mt)))"
  using batch_loop_chunks [of BATCH_ROWS "memtable_iter sm mt" "[]" "[]"] by (simp add: batches_def)

section \<open>The watermark of what is staged\<close>

context skipmap
begin

lemma iter_lsn_max:
  "fold max (map (\<lambda>p. e_lsn (snd p)) (memtable_iter sm (mt_of sm rs))) 0 = lsn_max rs"
proof (rule order_antisym)
  have d: "distinct (map fst (sm_iter sm m))" for m using iter_sorted [of m] by (simp add: strict_sorted_iff)
  have mem: "(k, e) \<in> set (memtable_iter sm (mt_of sm rs)) \<longleftrightarrow> newest rs k = Some e" for k e
    using map_of_eq_Some_iff [OF d] by (simp add: memtable_iter_def flip: mt_of_iter)
  show "fold max (map (\<lambda>p. e_lsn (snd p)) (memtable_iter sm (mt_of sm rs))) 0 \<le> lsn_max rs"
  proof -
    have "e_lsn e \<le> lsn_max rs" if "(k, e) \<in> set (memtable_iter sm (mt_of sm rs))" for k e
      using that newest_winner [of rs k e] by (auto simp: mem winner_def entry_of_def intro: lsn_max_ge)
    then show ?thesis by (auto simp: fold_max_le_iff)
  qed
  show "lsn_max rs \<le> fold max (map (\<lambda>p. e_lsn (snd p)) (memtable_iter sm (mt_of sm rs))) 0"
  proof -
    have "r_lsn r \<le> fold max (map (\<lambda>p. e_lsn (snd p)) (memtable_iter sm (mt_of sm rs))) 0" if r: "r \<in> set rs" for r
    proof -
      obtain e where e: "newest rs (r_key r) = Some e" using r newest_None [of rs "r_key r"] by (cases "newest rs (r_key r)") auto
      then have "r_lsn r \<le> e_lsn e" using newest_winner [OF e] r by (auto simp: winner_def entry_of_def)
      moreover have "e_lsn e \<in> set (map (\<lambda>p. e_lsn (snd p)) (memtable_iter sm (mt_of sm rs)))" using e mem by force
      ultimately show ?thesis by (meson fold_max_elem order_trans)
    qed
    then show ?thesis by (simp add: lsn_max_le_iff)
  qed
qed

lemma mt_holds_iter_max: "mt_holds sm m rs \<Longrightarrow> fold max (map (\<lambda>p. e_lsn (snd p)) (memtable_iter sm m)) 0 = lsn_max rs"
  by (auto simp: mt_holds_def iter_lsn_max intro: lsn_max_perm)

end

section \<open>Properties\<close>

text \<open>
  Staging. Building the batches never panics; together they hold exactly one row per entry of the
  memtable, in key order, with the entry's sequence number and operation and a null for a tombstone's
  value; no batch is empty, none has more than \<open>BATCH_ROWS\<close> rows, and all but the last are full.
\<close>

theorem batches_exact:
  "\<exists>bs. batches sm mt = Ok bs \<and> concat (map batch_rows bs) = map staged_row_of (memtable_iter sm mt) \<and>
        (\<forall>b \<in> set bs. sb_pk b \<noteq> [] \<and> length (sb_pk b) \<le> BATCH_ROWS) \<and>
        (\<forall>b \<in> set (butlast bs). length (sb_pk b) = BATCH_ROWS)"
proof -
  let ?cs = "chunks BATCH_ROWS [] (memtable_iter sm mt)"
  have len: "length (sb_pk (batch_of c)) = length c" and pk: "sb_pk (batch_of c) = [] \<longleftrightarrow> c = []" for c
    by (simp_all add: batch_of_def)
  have z: "length ([] :: (bytes \<times> entry) list) < BATCH_ROWS" by (simp add: BATCH_ROWS_def)
  have "concat (map batch_rows (map batch_of ?cs)) = map staged_row_of (concat ?cs)"
    by (simp add: comp_def batch_rows_of map_concat)
  moreover have "\<forall>b \<in> set (map batch_of ?cs). sb_pk b \<noteq> [] \<and> length (sb_pk b) \<le> BATCH_ROWS"
    using chunks_nonempty chunks_bounded [OF z] by (auto simp: len pk)
  moreover have "\<forall>b \<in> set (butlast (map batch_of ?cs)). length (sb_pk b) = BATCH_ROWS"
    using chunks_full [OF z] by (auto simp: map_butlast [symmetric] len)
  ultimately show ?thesis using batches_chunks [of sm mt] unfolding concat_chunks append_Nil by blast
qed

theorem batches_exact_witness:
  "\<exists>bs. batches alist_map (mt_of alist_map [record_put [1] 5 [6]]) = Ok bs \<and>
        concat (map batch_rows bs) = map staged_row_of (memtable_iter alist_map (mt_of alist_map [record_put [1] 5 [6]])) \<and>
        (\<forall>b \<in> set bs. sb_pk b \<noteq> [] \<and> length (sb_pk b) \<le> BATCH_ROWS) \<and>
        (\<forall>b \<in> set (butlast bs). length (sb_pk b) = BATCH_ROWS)"
  by (rule batches_exact)

text \<open>
  The plan. For a memtable that received the records \<open>rs\<close>: nothing to do exactly when there were
  none; a write exactly when its highest sequence number is above the published watermark, and then
  with that number; and the highest \<open>lsn\<close> among the rows it stages is that same number, so the statistic
  the catalog derives from the file is the watermark the plan announced.
\<close>

theorem plan_matches_staged_lsn:
  assumes "skipmap sm"
  shows "(plan_flush sm published (mt_of sm rs) = PlanEmpty \<longleftrightarrow> rs = []) \<and>
         (plan_flush sm published (mt_of sm rs) = PlanWrite wm \<longleftrightarrow>
            rs \<noteq> [] \<and> wm = lsn_max rs \<and> published < wm) \<and>
         (plan_flush sm published (mt_of sm rs) = PlanAlreadyPublished wm \<longleftrightarrow>
            rs \<noteq> [] \<and> wm = lsn_max rs \<and> wm \<le> published) \<and>
         fold max (map (\<lambda>p. e_lsn (snd p)) (memtable_iter sm (mt_of sm rs))) 0 = lsn_max rs"
proof -
  have "plan_flush sm published (mt_of sm rs)
      = (if rs = [] then PlanEmpty else if lsn_max rs \<le> published then PlanAlreadyPublished (lsn_max rs) else PlanWrite (lsn_max rs))"
    by (simp add: plan_flush_def skipmap.mt_of_is_empty [OF assms] Let_def)
  then show ?thesis using skipmap.iter_lsn_max [OF assms] by (auto simp: not_le)
qed

theorem plan_matches_staged_lsn_witness:
  "plan_flush alist_map 4 (mt_of alist_map [record_put [1] 5 [6]]) = PlanWrite 5"
  using plan_matches_staged_lsn [OF am.skipmap_axioms, of 4 "[record_put [1] 5 [6]]" 5]
  by (simp add: record_put_def)

end
