(* ===== verification/Store_Requests.thy ===== *)
theory Store_Requests
  imports Columnar_Read
begin

text \<open>
  What a read asks of the object store. The only call a read makes to it is the \<open>get_range\<close> of
  \<open>RangeFetcher::fetch_range\<close> in \<^verbatim>\<open>src/src/cache.rs\<close>, after the cache missed and the miss was counted. Each function
  here follows one of the cached reader or of \<^verbatim>\<open>src/src/read.rs\<close> and lists the ranges it asks for, in the order
  asked; concurrent fetches all ask before the first of them ends.

  Shown: a read asks exactly as often as the cache counts a miss, and a file that the range of its keys or
  its bloom filter rules out costs nothing.
\<close>

section \<open>Requests\<close>

type_synonym store_request = "string \<times> range"

definition range_requests :: "string \<Rightarrow> range \<Rightarrow> byte_cache \<Rightarrow> store_request list" where
  "range_requests path r c = (case fst (cache_get (key_of path r) c) of Some hit \<Rightarrow> [] | None \<Rightarrow> [(path, r)])"

definition ranges_requests :: "string \<Rightarrow> range list \<Rightarrow> byte_cache \<Rightarrow> store_request list" where
  "ranges_requests path rs c = map (\<lambda>n. (path, rs ! n)) (missing_at (fst (poll_all path rs c)))"

primrec prog_requests :: "get_range \<Rightarrow> scheduler \<Rightarrow> string \<Rightarrow> 'a prog \<Rightarrow> byte_cache \<Rightarrow> store_request list" where
  "prog_requests getr sched path (Ret x) = (\<lambda>c. [])"
| "prog_requests getr sched path (Fail m) = (\<lambda>c. [])"
| "prog_requests getr sched path (Fetch r k) = (\<lambda>c.
     range_requests path r c @
     (case fetch_range getr path r c of (Ok bs, c') \<Rightarrow> prog_requests getr sched path (k bs) c' | (_, c') \<Rightarrow> []))"
| "prog_requests getr sched path (FetchMany rs k) = (\<lambda>c.
     ranges_requests path rs c @
     (case get_byte_ranges getr sched path rs c of (Ok bss, c') \<Rightarrow> prog_requests getr sched path (k bss) c' | (_, c') \<Rightarrow> []))"

definition metadata_requests ::
    "get_range \<Rightarrow> scheduler \<Rightarrow> (u64 \<Rightarrow> 'a prog) \<Rightarrow> string \<Rightarrow> u64 \<Rightarrow> 'a meta_cache \<times> byte_cache \<Rightarrow> store_request list" where
  "metadata_requests getr sched load path sz = (\<lambda>(mc, c).
     case map_of mc path of Some hit \<Rightarrow> [] | None \<Rightarrow> prog_requests getr sched path (load sz) c)"

definition scan_requests ::
    "parquet_api \<Rightarrow> get_range \<Rightarrow> scheduler \<Rightarrow> string \<Rightarrow> parquet_meta \<Rightarrow> nat \<Rightarrow> reader_state \<Rightarrow> store_request list" where
  "scan_requests pq getr sched path meta rg st = prog_requests getr sched path (pq_rows pq meta rg [PK_COL, 2, 3]) (snd st)"

definition file_requests ::
    "parquet_api \<Rightarrow> get_range \<Rightarrow> scheduler \<Rightarrow> (string \<Rightarrow> string) \<Rightarrow> string \<Rightarrow> file_entry \<Rightarrow> bytes \<Rightarrow> reader_state \<Rightarrow> store_request list" where
  "file_requests pq getr sched path_from bucket e key st =
     (let path = object_path path_from e bucket
      in metadata_requests getr sched (pq_load pq) path (file_size e) st @
         (case get_metadata getr sched (pq_load pq) path (file_size e) st of
            (Ok meta, st1) \<Rightarrow>
              (case pq_arrow pq meta of
                 Some m \<Rightarrow> []
               | None \<Rightarrow>
                   (case pick_row_group (row_groups meta) key 0 of
                      Ok (Some rg) \<Rightarrow> scan_requests pq getr sched path meta rg st1
                    | _ \<Rightarrow> []))
          | (_, st1) \<Rightarrow> []))"

fun candidate_requests ::
    "parquet_api \<Rightarrow> get_range \<Rightarrow> scheduler \<Rightarrow> (string \<Rightarrow> string) \<Rightarrow> string \<Rightarrow> file_entry list \<Rightarrow> bytes \<Rightarrow> reader_state \<Rightarrow> store_request list" where
  "candidate_requests pq getr sched path_from bucket [] key st = []"
| "candidate_requests pq getr sched path_from bucket (e # es) key st =
     (case bloom_may_contain e key of
        Ok False \<Rightarrow> candidate_requests pq getr sched path_from bucket es key st
      | Ok True \<Rightarrow>
          file_requests pq getr sched path_from bucket e key st @
          (case get_from_file pq getr sched path_from bucket e key st of
             (Ok Missing, st') \<Rightarrow> candidate_requests pq getr sched path_from bucket es key st'
           | (_, st') \<Rightarrow> [])
      | _ \<Rightarrow> [])"

definition columnar_requests ::
    "parquet_api \<Rightarrow> get_range \<Rightarrow> scheduler \<Rightarrow> (string \<Rightarrow> string) \<Rightarrow> string \<Rightarrow> file_index \<Rightarrow> bytes \<Rightarrow> reader_state \<Rightarrow> store_request list" where
  "columnar_requests pq getr sched path_from bucket idx key st =
     candidate_requests pq getr sched path_from bucket (candidates idx key) key st"

section \<open>Misses\<close>

abbreviation misses_in :: "byte_cache \<Rightarrow> u64" where
  "misses_in c \<equiv> misses (bc_stats c)"

lemma cache_get_misses: "misses_in (snd (cache_get k c)) = misses_in c"
  by (auto simp: cache_get_def Let_def split: option.splits)

lemma cache_insert_misses [simp]: "misses_in (cache_insert k bs c) = misses_in c"
  by (simp add: cache_insert_def Let_def split_def)

lemma fetched_misses [simp]: "misses_in (fetched path r bs c) = misses_in c"
  by (simp add: fetched_def)

lemma count_miss_misses [simp]: "misses_in (count_miss c) = misses_in c + 1"
  by (simp add: count_miss_def)

lemma fetch_range_misses:
  "misses_in (snd (fetch_range getr path r c)) = misses_in c + of_nat (length (range_requests path r c))"
  using cache_get_misses [of "key_of path r" c]
  by (auto simp: fetch_range_def range_requests_def Let_def split: option.splits prod.splits sum.splits)

lemma length_missing: "length (missing_at hs) = length (filter (\<lambda>h. h = None) hs)"
  unfolding missing_at_def by (auto simp: length_filter_conv_card intro!: arg_cong [where f = card])

lemma poll_all_misses:
  "misses_in (snd (poll_all path rs c)) = misses_in c + of_nat (length (missing_at (fst (poll_all path rs c))))"
proof (induction rs arbitrary: c)
  case (Cons r rs)
  obtain x c1 where g: "cache_get (key_of path r) c = (x, c1)" by fastforce
  have "misses_in c1 = misses_in c" using cache_get_misses [of "key_of path r" c] g by simp
  then show ?case using Cons [of c1] Cons [of "count_miss c1"] g
    by (cases x) (simp_all add: length_missing split_def)
qed (simp add: missing_at_def)

lemma complete_all_misses: "misses_in (snd (complete_all getr path rs ns hs c)) = misses_in c"
  by (induction ns arbitrary: hs c) (auto split: sum.splits)

lemma get_byte_ranges_misses:
  "misses_in (snd (get_byte_ranges getr sched path rs c)) = misses_in c + of_nat (length (ranges_requests path rs c))"
proof -
  obtain hs c1 where p: "poll_all path rs c = (hs, c1)" by fastforce
  then have "misses_in c1 = misses_in c + of_nat (length (missing_at hs))" using poll_all_misses [of path rs c] by simp
  moreover have "misses_in (snd (get_byte_ranges getr sched path rs c)) = misses_in c1"
    using complete_all_misses [of getr path rs "sched c1 (missing_at hs)" hs c1]
    by (auto simp: get_byte_ranges_def p split: prod.splits res.splits)
  ultimately show ?thesis by (simp add: ranges_requests_def p)
qed

lemma run_cached_misses:
  "misses_in (snd (run_cached getr sched path p c)) = misses_in c + of_nat (length (prog_requests getr sched path p c))"
proof (induction p arbitrary: c)
  case (Fetch r k)
  obtain x c1 where f: "fetch_range getr path r c = (x, c1)" by fastforce
  then show ?case using fetch_range_misses [of getr path r c] Fetch.IH [of _ c1] by (cases x) simp_all
next
  case (FetchMany rs k)
  obtain x c1 where f: "get_byte_ranges getr sched path rs c = (x, c1)" by fastforce
  then show ?case using get_byte_ranges_misses [of getr sched path rs c] FetchMany.IH [of _ c1] by (cases x) simp_all
qed simp_all

lemma get_metadata_misses:
  "misses_in (snd (snd (get_metadata getr sched load path sz st)))
     = misses_in (snd st) + of_nat (length (metadata_requests getr sched load path sz st))"
  using run_cached_misses [of getr sched path "load sz" "snd st"]
  by (auto simp: get_metadata_def metadata_requests_def split: option.splits prod.splits res.splits)

lemma scan_row_group_misses:
  "misses_in (snd (snd (scan_row_group pq getr sched path meta rg key st)))
     = misses_in (snd st) + of_nat (length (scan_requests pq getr sched path meta rg st))"
  using run_cached_misses [of getr sched path "pq_rows pq meta rg [PK_COL, 2, 3]" "snd st"]
  by (auto simp: scan_row_group_def scan_requests_def reader_run_def split: prod.splits res.splits)

lemma get_from_file_misses:
  "misses_in (snd (snd (get_from_file pq getr sched path_from bucket e key st)))
     = misses_in (snd st) + of_nat (length (file_requests pq getr sched path_from bucket e key st))"
proof -
  let ?path = "object_path path_from e bucket"
  obtain x st1 where m: "get_metadata getr sched (pq_load pq) ?path (file_size e) st = (x, st1)" by (metis prod.exhaust)
  from get_metadata_misses [of getr sched "pq_load pq" ?path "file_size e" st] m show ?thesis
    by (cases x) (auto simp: get_from_file_def file_requests_def Let_def scan_row_group_misses split: option.splits res.splits)
qed

lemma get_candidates_misses:
  "misses_in (snd (snd (get_candidates pq getr sched path_from bucket es key st)))
     = misses_in (snd st) + of_nat (length (candidate_requests pq getr sched path_from bucket es key st))"
proof (induction es arbitrary: st)
  case (Cons e es)
  obtain x st1 where f: "get_from_file pq getr sched path_from bucket e key st = (x, st1)" by (metis prod.exhaust)
  then show ?case using Cons [of st] Cons [of st1] get_from_file_misses [of pq getr sched path_from bucket e key st]
    by (auto split: res.splits bool.splits lookup.splits)
qed simp

lemma columnar_get_misses:
  "misses_in (snd (snd (columnar_get pq getr sched path_from bucket idx key st)))
     = misses_in (snd st) + of_nat (length (columnar_requests pq getr sched path_from bucket idx key st))"
  unfolding columnar_get_def columnar_requests_def by (rule get_candidates_misses)

section \<open>What costs nothing\<close>

lemma pruned_candidates:
  "\<forall>e \<in> set es. bloom_may_contain e key = Ok False \<Longrightarrow>
     candidate_requests pq getr sched path_from bucket es key st = [] \<and>
     get_candidates pq getr sched path_from bucket es key st = (Ok Missing, st)"
  by (induction es) simp_all

lemma kept_range_free:
  assumes "map_of (entries (bc_inner c)) (key_of path r) \<noteq> None"
  shows "range_requests path r c = []"
  using assms by (auto simp: range_requests_def cache_get_def Let_def)

end
