(* ===== verification/Engine_Core.thy ===== *)
theory Engine_Core
  imports Flush_Protocol Store_Requests
begin

text \<open>
  The engine, from \<^verbatim>\<open>src/src/engine.rs\<close>: \<open>CrashAt\<close>, \<open>Engine\<close>, \<open>open\<close>, \<open>put\<close>, \<open>delete\<close>, \<open>append\<close>, \<open>get\<close>, \<open>flush_inner\<close> with
  its crash points, \<open>publish_index\<close>, \<open>truncate_wal\<close> and the accessors. An operation takes and returns
  the engine and the world: the log directory, the catalog, the object store and the staging directory.
  What belongs to other crates and processes is gathered in the record \<open>deps\<close>; the outcome of each
  round trip to Postgres is an argument. Operations run one after the other here; concurrent writers are in \<open>Engine_Writers\<close>.
  A call into the log that fails leaves the log as it was.
\<close>

section \<open>State\<close>

datatype crash_at = BeforeWrite | AfterWrite | AfterCommit | AfterTruncate

record world =
  w_dir :: dir
  w_db :: catalog_db
  w_getr :: get_range
  w_stage :: "(string \<times> stage_batch list) list"

record ('m, 'f) deps =
  dp_sm :: "'m skipmap_api"
  dp_crc :: "bytes \<Rightarrow> u32"
  dp_hexd :: "string \<Rightarrow> bytes option"
  dp_b64 :: "string \<Rightarrow> bytes option"
  dp_bigint :: "string \<Rightarrow> int option"
  dp_pq :: parquet_api
  dp_sched :: scheduler
  dp_path_from :: "string \<Rightarrow> string"
  dp_proc :: "world process"
  dp_aw :: "world arrow_writer"
  dp_f64 :: "'f f64_ops"
  dp_tape :: "'f tape"

record ('m, 'f) engine =
  en_cfg :: "'f config"
  en_lake :: duck_lake
  en_index :: file_index
  en_memtables :: "'m memtable_set"
  en_wal :: wal
  en_next_lsn :: lsn
  en_staging_dir :: string
  en_reader :: reader_state
  en_stats :: stats
  en_pos :: nat

text \<open>
  The outcomes of the calls an operation makes out of the process: the round trips to Postgres, the
  construction of the store client and the creation of the staging directory.
\<close>

record pg_io =
  io_build :: conn
  io_staging :: conn
  pg_connect :: conn
  pg_watermark :: conn
  pg_index :: conn

definition pg_up :: pg_io where
  "pg_up = \<lparr>io_build = None, io_staging = None, pg_connect = None, pg_watermark = None, pg_index = None\<rparr>"

type_synonym ('m, 'f) state = "('m, 'f) engine \<times> world"

section \<open>Recovery\<close>

definition engine_open ::
    "('m, 'f) deps \<Rightarrow> pg_io \<Rightarrow> 'f config \<Rightarrow> world \<Rightarrow> ('m, 'f) engine res \<times> world" where
  "engine_open dp io cfg w =
     (case bind_res (pg_query (io_build io) ()) (\<lambda>_.
           bind_res (connect (pg_connect io) (w_db w) (cfg_catalog cfg)) (\<lambda>lake.
           bind_res (published_watermark (dp_bigint dp) (pg_watermark io) (w_db w) lake) (\<lambda>watermark.
           bind_res (load_index (dp_hexd dp) (dp_b64 dp) (pg_index io) (w_db w) lake) (\<lambda>index.
           bind_res (wal_open (dp_crc dp) (wal_segment_bytes cfg) watermark (w_dir w)) (\<lambda>(d, wal, replay).
             Ok (lake, watermark, index, d, wal, replay)))))) of
        Ok (lake, watermark, index, d, wal, replay) \<Rightarrow>
          (case bind_res (memtable_set_new (dp_sm dp) (memtable_max_bytes cfg) (max_frozen_memtables cfg)) (\<lambda>ms.
                bind_res (pg_query (io_staging io) ()) (\<lambda>_. Ok ms)) of
             Ok ms \<Rightarrow>
               (Ok \<lparr>en_cfg = cfg, en_lake = lake, en_index = index,
                    en_memtables = fold (set_insert (dp_sm dp)) (replay_records replay) ms,
                    en_wal = wal,
                    en_next_lsn = max (replay_max_lsn replay) watermark + 1,
                    en_staging_dir = path_join (wal_dir cfg) ''staging'',
                    en_reader = ([], byte_cache_new (cache_bytes cfg)),
                    en_stats = \<lparr>st_gets = 0, st_puts = 0, st_lists = 0, st_deletes = 0, injected_micros = 0\<rparr>,
                    en_pos = 0\<rparr>, w\<lparr>w_dir := d\<rparr>)
           | Err e \<Rightarrow> (Err e, w\<lparr>w_dir := d\<rparr>)
           | Panic p \<Rightarrow> (Panic p, w\<lparr>w_dir := d\<rparr>))
      | Err e \<Rightarrow> (Err e, w)
      | Panic p \<Rightarrow> (Panic p, w))"

section \<open>Flush\<close>

definition truncate_wal :: "lsn \<Rightarrow> ('m, 'f) state \<Rightarrow> unit res \<times> ('m, 'f) state" where
  "truncate_wal watermark = (\<lambda>(e, w).
     case truncate_through watermark (w_dir w, en_wal e) of
       Ok (d, wal) \<Rightarrow> (Ok (), (e\<lparr>en_wal := wal\<rparr>, w\<lparr>w_dir := d\<rparr>))
     | Err x \<Rightarrow> (Err x, (e, w))
     | Panic p \<Rightarrow> (Err (Config (''wal truncate panicked: '' @ p)), (e, w)))"

definition publish_index :: "('m, 'f) deps \<Rightarrow> pg_io \<Rightarrow> ('m, 'f) state \<Rightarrow> unit res \<times> ('m, 'f) state" where
  "publish_index dp io = (\<lambda>(e, w).
     case load_index (dp_hexd dp) (dp_b64 dp) (pg_index io) (w_db w) (en_lake e) of
       Ok idx \<Rightarrow> (Ok (), (e\<lparr>en_index := idx\<rparr>, w))
     | Err x \<Rightarrow> (Err x, (e, w))
     | Panic p \<Rightarrow> (Panic p, (e, w)))"

definition retire_frozen :: "'m arc \<Rightarrow> ('m, 'f) state \<Rightarrow> ('m, 'f) state" where
  "retire_frozen frozen = (\<lambda>(e, w). (e\<lparr>en_memtables := retire frozen (en_memtables e)\<rparr>, w))"

text \<open>The flush after the plan said to write: stage, publish, reload the index, truncate, retire.\<close>

definition flush_write ::
    "('m, 'f) deps \<Rightarrow> pg_io \<Rightarrow> crash_at option \<Rightarrow> 'm arc \<Rightarrow> lsn \<Rightarrow> ('m, 'f) state \<Rightarrow> flushed res \<times> ('m, 'f) state" where
  "flush_write dp io crash frozen watermark = (\<lambda>(e, w).
     let staging = staging_path (en_staging_dir e) watermark
     in case stage (dp_sm dp) (dp_aw dp) (snd frozen) staging w of
          (Ok _, w1) \<Rightarrow>
            if crash = Some AfterWrite then (Ok Empty, (e, w1))
            else
              (case publish (dp_f64 dp) (dp_tape dp) (dp_proc dp) (cfg_duckdb (en_cfg e)) (cfg_catalog (en_cfg e))
                      (cfg_s3 (en_cfg e)) staging (cfg_latency (en_cfg e)) (en_pos e) w1 of
                 (Ok _, w2, pos) \<Rightarrow>
                   (case publish_index dp io (e\<lparr>en_pos := pos\<rparr>, w2) of
                      (Ok _, s3) \<Rightarrow>
                        if crash = Some AfterCommit then (Ok (Committed watermark 1), s3)
                        else
                          (case truncate_wal watermark s3 of
                             (Ok _, s4) \<Rightarrow>
                               if crash = Some AfterTruncate then (Ok (Committed watermark 1), s4)
                               else
                                 (case retire_frozen frozen s4 of (e5, w5) \<Rightarrow>
                                    (Ok (Committed watermark 1), (e5, w5\<lparr>w_stage := AList.delete staging (w_stage w5)\<rparr>)))
                           | (Err x, s4) \<Rightarrow> (Err x, s4)
                           | (Panic p, s4) \<Rightarrow> (Panic p, s4))
                    | (Err x, s3) \<Rightarrow> (Err x, s3)
                    | (Panic p, s3) \<Rightarrow> (Panic p, s3))
               | (Err x, w2, pos) \<Rightarrow> (Err x, (e\<lparr>en_pos := pos\<rparr>, w2))
               | (Panic p, w2, pos) \<Rightarrow> (Panic p, (e\<lparr>en_pos := pos\<rparr>, w2)))
        | (Err x, w1) \<Rightarrow> (Err x, (e, w1))
        | (Panic p, w1) \<Rightarrow> (Panic p, (e, w1)))"

definition flush_inner ::
    "('m, 'f) deps \<Rightarrow> pg_io \<Rightarrow> crash_at option \<Rightarrow> ('m, 'f) state \<Rightarrow> flushed res \<times> ('m, 'f) state" where
  "flush_inner dp io crash = (\<lambda>(e, w).
     case freeze (dp_sm dp) (en_memtables e) of
       Err x \<Rightarrow> (Err x, (e, w))
     | Panic p \<Rightarrow> (Panic p, (e, w))
     | Ok (ms, None) \<Rightarrow> (Ok Empty, (e\<lparr>en_memtables := ms\<rparr>, w))
     | Ok (ms, Some frozen) \<Rightarrow>
         let e1 = e\<lparr>en_memtables := ms\<rparr>
         in if crash = Some BeforeWrite then (Ok Empty, (e1, w))
            else
              (case published_watermark (dp_bigint dp) (pg_watermark io) (w_db w) (en_lake e1) of
                 Err x \<Rightarrow> (Err x, (e1, w))
               | Panic p \<Rightarrow> (Panic p, (e1, w))
               | Ok published \<Rightarrow>
                   (case plan_flush (dp_sm dp) published (snd frozen) of
                      PlanEmpty \<Rightarrow> (Ok Empty, retire_frozen frozen (e1, w))
                    | PlanAlreadyPublished watermark \<Rightarrow>
                        (case truncate_wal watermark (e1, w) of
                           (Ok _, s2) \<Rightarrow> (Ok (AlreadyPublished watermark), retire_frozen frozen s2)
                         | (Err x, s2) \<Rightarrow> (Err x, s2)
                         | (Panic p, s2) \<Rightarrow> (Panic p, s2))
                    | PlanWrite watermark \<Rightarrow> flush_write dp io crash frozen watermark (e1, w))))"

definition engine_flush :: "('m, 'f) deps \<Rightarrow> pg_io \<Rightarrow> ('m, 'f) state \<Rightarrow> flushed res \<times> ('m, 'f) state" where
  "engine_flush dp io s = flush_inner dp io None s"

section \<open>Writes\<close>

definition engine_append :: "('m, 'f) deps \<Rightarrow> pg_io \<Rightarrow> wrecord \<Rightarrow> ('m, 'f) state \<Rightarrow> unit res \<times> ('m, 'f) state" where
  "engine_append dp io r = (\<lambda>(e, w).
     case wal_append (dp_crc dp) [r] (w_dir w, en_wal e) of
       Err x \<Rightarrow> (Err x, (e, w))
     | Panic p \<Rightarrow> (Err (Config (''wal append panicked: '' @ p)), (e, w))
     | Ok (d, wal) \<Rightarrow>
         let e1 = e\<lparr>en_wal := wal, en_memtables := set_insert (dp_sm dp) r (en_memtables e)\<rparr>;
             w1 = w\<lparr>w_dir := d\<rparr>
         in if should_freeze (en_memtables e1)
            then (case engine_flush dp io (e1, w1) of
                    (Ok _, s2) \<Rightarrow> (Ok (), s2)
                  | (Err x, s2) \<Rightarrow> (Err x, s2)
                  | (Panic p, s2) \<Rightarrow> (Panic p, s2))
            else (Ok (), (e1, w1)))"

definition with_lsn ::
    "('m, 'f) deps \<Rightarrow> pg_io \<Rightarrow> (lsn \<Rightarrow> wrecord) \<Rightarrow> ('m, 'f) state \<Rightarrow> lsn res \<times> ('m, 'f) state" where
  "with_lsn dp io mk = (\<lambda>(e, w).
     let l = en_next_lsn e
     in case engine_append dp io (mk l) (e\<lparr>en_next_lsn := l + 1\<rparr>, w) of
          (Ok _, s) \<Rightarrow> (Ok l, s)
        | (Err x, s) \<Rightarrow> (Err x, s)
        | (Panic p, s) \<Rightarrow> (Panic p, s))"

definition engine_put :: "('m, 'f) deps \<Rightarrow> pg_io \<Rightarrow> bytes \<Rightarrow> bytes \<Rightarrow> ('m, 'f) state \<Rightarrow> lsn res \<times> ('m, 'f) state" where
  "engine_put dp io k v = with_lsn dp io (\<lambda>l. record_put k l v)"

definition engine_delete :: "('m, 'f) deps \<Rightarrow> pg_io \<Rightarrow> bytes \<Rightarrow> ('m, 'f) state \<Rightarrow> lsn res \<times> ('m, 'f) state" where
  "engine_delete dp io k = with_lsn dp io (\<lambda>l. record_delete k l)"

section \<open>Reads and accessors\<close>

text \<open>A read passes the latency shim once for every range it asks of the store.\<close>

definition charge_gets :: "('m, 'f) deps \<Rightarrow> nat \<Rightarrow> ('m, 'f) engine \<Rightarrow> ('m, 'f) engine" where
  "charge_gets dp n e =
     (let ls = (on_get (dp_f64 dp) (dp_tape dp) ^^ n)
            (\<lparr>ls_inner = (\<lambda>q s. ((), s)), ls_profile = cfg_latency (en_cfg e), ls_state = (), ls_stats = en_stats e,
              ls_pos = en_pos e\<rparr> :: ('f, unit, unit, unit) latency_store)
      in e\<lparr>en_stats := ls_stats ls, en_pos := ls_pos ls\<rparr>)"

definition engine_get :: "('m, 'f) deps \<Rightarrow> bytes \<Rightarrow> ('m, 'f) state \<Rightarrow> bytes option res \<times> ('m, 'f) state" where
  "engine_get dp k = (\<lambda>(e, w).
     case set_get (dp_sm dp) (en_memtables e) k of
       Found v \<Rightarrow> (Ok (Some v), (e, w))
     | Deleted \<Rightarrow> (Ok None, (e, w))
     | Missing \<Rightarrow>
         let e1 = charge_gets dp (length (columnar_requests (dp_pq dp) (w_getr w) (dp_sched dp) (dp_path_from dp)
                    (lake_bucket (en_lake e)) (en_index e) k (en_reader e))) e
         in case columnar_get (dp_pq dp) (w_getr w) (dp_sched dp) (dp_path_from dp) (lake_bucket (en_lake e))
                   (en_index e) k (en_reader e) of
              (Ok l, st) \<Rightarrow> (Ok (case l of Found v \<Rightarrow> Some v | Deleted \<Rightarrow> None | Missing \<Rightarrow> None), (e1\<lparr>en_reader := st\<rparr>, w))
            | (Err x, st) \<Rightarrow> (Err x, (e1\<lparr>en_reader := st\<rparr>, w))
            | (Panic p, st) \<Rightarrow> (Panic p, (e1\<lparr>en_reader := st\<rparr>, w)))"

definition engine_watermark :: "('m, 'f) engine \<Rightarrow> lsn" where
  "engine_watermark e = index_watermark (en_index e)"

definition file_count :: "('m, 'f) engine \<Rightarrow> nat" where
  "file_count e = length (en_index e)"

definition engine_cache_stats :: "('m, 'f) engine \<Rightarrow> cache_stats_snapshot" where
  "engine_cache_stats e = cache_stats_of (snd (en_reader e))"

definition engine_store_stats :: "('m, 'f) engine \<Rightarrow> stats_snapshot" where
  "engine_store_stats e = snapshot (en_stats e)"

definition engine_reset_stats :: "('m, 'f) engine \<Rightarrow> ('m, 'f) engine" where
  "engine_reset_stats e = e\<lparr>en_reader := (fst (en_reader e), reset_stats (snd (en_reader e)))\<rparr>"

lemmas engine_flush_simps = engine_flush_def flush_inner_def Let_def
lemmas counter_defs = engine_store_stats_def engine_cache_stats_def snapshot_def cache_stats_of_def

section \<open>The counters of the store\<close>

lemma on_get_counts: "st_gets (ls_stats ((on_get F tape ^^ n) ls)) = st_gets (ls_stats ls) + of_nat n"
  by (induction n) (simp_all add: on_get_def delay_def charge_stats_def Let_def split_def)

lemma charge_gets_simps [simp]:
  "en_cfg (charge_gets dp n e) = en_cfg e" "en_lake (charge_gets dp n e) = en_lake e" "en_index (charge_gets dp n e) = en_index e"
  "en_memtables (charge_gets dp n e) = en_memtables e" "en_wal (charge_gets dp n e) = en_wal e"
  "en_next_lsn (charge_gets dp n e) = en_next_lsn e" "en_staging_dir (charge_gets dp n e) = en_staging_dir e"
  "en_reader (charge_gets dp n e) = en_reader e" "charge_gets dp 0 e = e"
  "st_gets (en_stats (charge_gets dp n e)) = st_gets (en_stats e) + of_nat n"
  by (simp_all add: charge_gets_def Let_def on_get_counts)

text \<open>Every request of a read is counted once by the store and once, as a miss, by the cache.\<close>

lemma get_counts:
  "\<exists>n. sn_gets (engine_store_stats (fst (snd (engine_get dp k (e, w))))) = sn_gets (engine_store_stats e) + of_nat n \<and>
       sn_misses (engine_cache_stats (fst (snd (engine_get dp k (e, w))))) = sn_misses (engine_cache_stats e) + of_nat n"
proof (cases "set_get (dp_sm dp) (en_memtables e) k")
  case Missing
  let ?args = "\<lambda>f. f (dp_pq dp) (w_getr w) (dp_sched dp) (dp_path_from dp) (lake_bucket (en_lake e)) (en_index e) k (en_reader e)"
  obtain x st where g: "?args columnar_get = (x, st)" by (metis prod.exhaust)
  have "misses_in (snd st) = misses_in (snd (en_reader e)) + of_nat (length (?args columnar_requests))"
    using columnar_get_misses [of "dp_pq dp" "w_getr w" "dp_sched dp" "dp_path_from dp" "lake_bucket (en_lake e)" "en_index e" k "en_reader e"] g
    by simp
  then show ?thesis using Missing g
    by (intro exI [of _ "length (?args columnar_requests)"], cases x)
      (simp_all add: engine_get_def Let_def counter_defs)
qed (auto simp: engine_get_def intro: exI [of _ 0])

end
