(* ===== verification/Engine_Env.thy ===== *)
theory Engine_Env
  imports Engine_Core
begin

text \<open>
  What the engine relies on and what follows at once. Histories of acknowledged writes and their split at
  a watermark; the object store as one that only grows; the rows of a data file staged from a memtable;
  and the locale \<open>engine_env\<close>, the contract of what is outside the repository: the skip map, the cast to
  \<open>BIGINT\<close>, the Arrow writer and the DuckDB process.
\<close>

section \<open>Histories\<close>

lemma apply_log_append: "apply_log (xs @ ys) = apply_log xs ++ apply_log ys"
proof (induction ys rule: rev_induct)
  case (snoc y ys)
  then show ?case
    using apply_log_simps(2) [of "xs @ ys" y] by (simp add: map_add_upd del: fun_upd_apply)
qed simp

definition hist_ok :: "(bytes \<Rightarrow> u32) \<Rightarrow> wrecord list \<Rightarrow> bool" where
  "hist_ok crc h \<longleftrightarrow>
     sorted_wrt (<) (map r_lsn h) \<and> list_all fits h \<and> (\<forall>r \<in> set h. r_op r = Delete \<longrightarrow> r_value r = []) \<and>
     length (frames crc h) < 2 ^ 64 \<and> unat (lsn_max h) < 2 ^ 63"

definition above :: "lsn \<Rightarrow> wrecord list \<Rightarrow> wrecord list" where
  "above wm h = filter (\<lambda>r. wm < r_lsn r) h"

definition upto :: "lsn \<Rightarrow> wrecord list \<Rightarrow> wrecord list" where
  "upto wm h = filter (\<lambda>r. r_lsn r \<le> wm) h"

lemma split_history: "sorted_wrt (<) (map r_lsn h) \<Longrightarrow> upto wm h @ above wm h = h"
proof (induction h)
  case (Cons r h)
  show ?case
  proof (cases "r_lsn r \<le> wm")
    case True
    then show ?thesis using Cons by (simp add: upto_def above_def)
  next
    case False
    have "upto wm h = []" using Cons.prems False by (fastforce simp: upto_def filter_empty_conv)
    then show ?thesis using Cons False by (simp add: upto_def above_def)
  qed
qed (simp add: upto_def above_def)

lemma above_snoc [simp]: "above wm (h @ [r]) = above wm h @ (if wm < r_lsn r then [r] else [])"
  by (simp add: above_def)

lemma above_max: "above (lsn_max h) h = []"
  using lsn_max_ge [of _ h] by (fastforce simp: above_def filter_empty_conv)

lemma upto_max: "upto (lsn_max h) h = h"
  using lsn_max_ge [of _ h] by (simp add: upto_def)

lemma above_sorted: "sorted_wrt (<) (map r_lsn h) \<Longrightarrow> sorted_wrt (<) (map r_lsn (above wm h))"
  by (simp add: above_def sorted_wrt_map sorted_wrt_filter)

lemma above_lsn_max: "above wm h \<noteq> [] \<Longrightarrow> lsn_max (above wm h) = lsn_max h \<and> wm < lsn_max h"
proof -
  assume ne: "above wm h \<noteq> []"
  then obtain r where r: "r \<in> set h" "wm < r_lsn r" by (auto simp: above_def filter_empty_conv)
  have lt: "wm < lsn_max h" using r(2) lsn_max_ge [OF r(1)] by (rule order.strict_trans2)
  have "r' \<in> set h \<Longrightarrow> r_lsn r' \<le> max wm (lsn_max (above wm h))" for r'
    using lsn_max_ge [of r' "above wm h"] by (cases "wm < r_lsn r'") (auto simp: above_def le_max_iff_disj)
  then have "lsn_max h \<le> max wm (lsn_max (above wm h))" by (simp add: lsn_max_le_iff)
  moreover have "lsn_max (above wm h) \<le> lsn_max h" by (auto simp: lsn_max_le_iff above_def intro: lsn_max_ge)
  ultimately show ?thesis using lt by (auto simp: le_max_iff_disj)
qed

lemma lsn_max_lt_snoc:
  assumes "sorted_wrt (<) (map r_lsn h)" and "lsn_max h < r_lsn r"
  shows "sorted_wrt (<) (map r_lsn (h @ [r]))" and "lsn_max (h @ [r]) = r_lsn r"
  using assms lsn_max_ge [of _ h] by (auto simp: sorted_wrt_append max_def intro: order.strict_trans1)

section \<open>The store only grows\<close>

definition grows :: "get_range \<Rightarrow> get_range \<Rightarrow> bool" where
  "grows g g' \<longleftrightarrow> (\<forall>path r b. g path r = Inr b \<longrightarrow> g' path r = Inr b)"

lemma grows_refl [simp]: "grows g g"
  by (simp add: grows_def)

lemma read_all_grows: "grows g g' \<Longrightarrow> read_all g path rs = Ok bs \<Longrightarrow> read_all g' path rs = Ok bs"
  by (induction rs arbitrary: bs) (auto simp: grows_def bind_res_Ok_iff split: sum.splits)

lemma run_direct_grows: "grows g g' \<Longrightarrow> run_direct g path p = Ok x \<Longrightarrow> run_direct g' path p = Ok x"
proof (induction p)
  case (Fetch r k)
  then obtain b where "g path r = Inr b" "run_direct g path (k b) = Ok x" by (auto split: sum.splits)
  moreover from this Fetch.prems(1) have "g' path r = Inr b" unfolding grows_def by blast
  ultimately show ?case using Fetch by simp
next
  case (FetchMany rs k)
  then obtain bs where b: "read_all g path rs = Ok bs" "run_direct g path (k bs) = Ok x" by (auto split: res.splits)
  with read_all_grows [OF FetchMany.prems(1)] FetchMany show ?case by simp
qed simp_all

lemma file_serves_grows: "grows g g' \<Longrightarrow> file_serves pq g path n rows \<Longrightarrow> file_serves pq g' path n rows"
proof -
  assume g: "grows g g'" and "file_serves pq g path n rows"
  then obtain meta groups where f: "run_direct g path (pq_load pq n) = Ok meta" "pq_arrow pq meta = None"
    "concat groups = rows" "distinct (map fst rows)" "group_bounds (row_groups meta) groups"
    "\<forall>j < length groups. \<exists>bs rss. run_direct g path (pq_rows pq meta j [PK_COL, 2, 3]) = Ok bs \<and>
       list_all2 batch_shows bs rss \<and> concat rss = groups ! j" unfolding file_serves_def by blast
  have "\<exists>bs rss. run_direct g' path (pq_rows pq meta j [PK_COL, 2, 3]) = Ok bs \<and>
       list_all2 batch_shows bs rss \<and> concat rss = groups ! j" if "j < length groups" for j
  proof -
    from f(6) that obtain bs rss where b: "run_direct g path (pq_rows pq meta j [PK_COL, 2, 3]) = Ok bs"
      "list_all2 batch_shows bs rss" "concat rss = groups ! j" by blast
    from run_direct_grows [OF g b(1)] b(2,3) show ?thesis by blast
  qed
  then show ?thesis unfolding file_serves_def
    using run_direct_grows [OF g f(1)] f(2-5) by (intro exI [of _ meta] exI [of _ groups]) simp
qed

lemma entry_serves_grows:
  "grows g g' \<Longrightarrow> entry_serves pq g pf b sz e rows \<Longrightarrow> entry_serves pq g' pf b sz e rows"
  unfolding entry_serves_def by (blast intro: file_serves_grows)

lemma reader_inv_grows: "grows g g' \<Longrightarrow> reader_inv g load sz st \<Longrightarrow> reader_inv g' load sz st"
  by (auto simp: reader_inv_def cache_holds_def grows_def intro: run_direct_grows [of g g', unfolded grows_def])

section \<open>From a memtable to the rows of a file\<close>

definition lake_row :: "staged_row \<Rightarrow> row" where
  "lake_row = (\<lambda>(k, l, c, v). (k, if c = 1 then Delete else Put, case v of Some x \<Rightarrow> x | None \<Rightarrow> []))"

definition staged_rows :: "stage_batch list \<Rightarrow> staged_row list" where
  "staged_rows bs = concat (map batch_rows bs)"

lemma map_of_map_value: "map_of (map (\<lambda>p. (fst p, f (snd p))) xs) k = map_option f (map_of xs k)"
  by (induction xs) auto

lemma lake_rows_iter:
  assumes "batches sm mt = Ok bs"
  shows "staged_rows bs = map staged_row_of (memtable_iter sm mt)"
    and "map lake_row (staged_rows bs)
           = map (\<lambda>p. (fst p, e_op (snd p), case e_op (snd p) of Put \<Rightarrow> e_value (snd p) | Delete \<Rightarrow> [])) (memtable_iter sm mt)"
proof -
  show rows: "staged_rows bs = map staged_row_of (memtable_iter sm mt)"
  proof -
    let ?cs = "chunks BATCH_ROWS [] (memtable_iter sm mt)"
    have "staged_rows bs = map staged_row_of (concat ?cs)"
      using assms by (auto simp: batches_chunks staged_rows_def comp_def batch_rows_of map_concat)
    then show ?thesis by (simp add: concat_chunks)
  qed
  have "lake_row (staged_row_of p) = (fst p, e_op (snd p), case e_op (snd p) of Put \<Rightarrow> e_value (snd p) | Delete \<Rightarrow> [])" for p
    by (cases p; cases "e_op (snd p)") (simp_all add: lake_row_def staged_row_of_def op_code_def)
  then show "map lake_row (staged_rows bs)
           = map (\<lambda>p. (fst p, e_op (snd p), case e_op (snd p) of Put \<Rightarrow> e_value (snd p) | Delete \<Rightarrow> [])) (memtable_iter sm mt)"
    by (simp add: rows)
qed

lemma lake_rows_view:
  assumes "skipmap sm" and "batches sm m = Ok bs" and "sorted_wrt (<) (map r_lsn rs)" and "mt_holds sm m rs"
    and "\<forall>r \<in> set rs. r_op r = Delete \<longrightarrow> r_value r = []"
  shows "map_of (map lake_row (staged_rows bs)) = apply_log rs"
proof
  fix k
  let ?val = "\<lambda>e. (e_op e, case e_op e of Put \<Rightarrow> e_value e | Delete \<Rightarrow> [])"
  have "map_of (map lake_row (staged_rows bs)) k = map_option ?val (map_of (memtable_iter sm m) k)"
    unfolding lake_rows_iter(2) [OF assms(2)] by (rule map_of_map_value)
  also have "\<dots> = map_option ?val (newest rs k)"
    using skipmap.mt_holds_newest [OF assms(1,4,3)] by (simp add: memtable_iter_def)
  also have "\<dots> = map_option (\<lambda>e. (e_op e, e_value e)) (newest rs k)"
  proof (cases "newest rs k")
    case (Some e)
    from newest_winner [OF Some] assms(5) have "e_op e = Delete \<longrightarrow> e_value e = []" by (auto simp: winner_def entry_of_def)
    with Some show ?thesis by (cases "e_op e") simp_all
  qed simp
  also have "\<dots> = apply_log rs k" using assms(3) by (rule newest_apply_log)
  finally show "map_of (map lake_row (staged_rows bs)) k = apply_log rs k" .
qed

section \<open>What the engine relies on\<close>

text \<open>
  A snapshot was added: the catalog gained one fresh data file whose \<open>lsn\<close> statistic is the highest
  staged, its index entry loads and serves the staged rows, and no object was lost.
\<close>

definition snapshot_added ::
    "('m, 'f) deps \<Rightarrow> (string \<Rightarrow> u64) \<Rightarrow> duck_lake \<Rightarrow> stage_batch list \<Rightarrow> world \<Rightarrow> world \<Rightarrow> bool" where
  "snapshot_added dp size_of lake bs w w' \<longleftrightarrow>
     (\<exists>nf e. w_db w' = committed_file nf (w_db w) \<and> fresh_file (w_db w) (lake_table_id lake) nf \<and>
        load_entry (dp_hexd dp) (dp_b64 dp) lake (new_row nf) = Ok e \<and>
        int (unat (fe_watermark e)) = fold max (map (\<lambda>r. fst (snd r)) (staged_rows bs)) 0 \<and>
        cs_max (the_stat nf FIELD_ID_LSN) = Some (show_nat (unat (fe_watermark e))) \<and>
        grows (w_getr w) (w_getr w') \<and>
        entry_serves (dp_pq dp) (w_getr w') (dp_path_from dp) (lake_bucket lake) size_of e (map lake_row (staged_rows bs)))"

text \<open>
  What is handed to DuckDB: rows in strict key order, at least one, their sequence numbers non-negative
  and their keys and values of bounded length.
\<close>

definition row_len :: "staged_row \<Rightarrow> nat" where
  "row_len = (\<lambda>(k, l, c, v). 17 + length k + (case v of Some x \<Rightarrow> length x | None \<Rightarrow> 0))"

definition rows_ok :: "staged_row list \<Rightarrow> bool" where
  "rows_ok rows \<longleftrightarrow> rows \<noteq> [] \<and> sorted_wrt (<) (map fst rows) \<and>
     (\<forall>r \<in> set rows. 0 \<le> fst (snd r) \<and> fst (snd r) < 2 ^ 63 \<and> row_len r < 2 ^ 32)"

locale engine_env =
  fixes dp :: "('m, 'f) deps"
    and size_of :: "string \<Rightarrow> u64"
    and cfg :: "'f config"
    and lake :: duck_lake
    and lake_good :: "catalog_db \<Rightarrow> get_range \<Rightarrow> bool"
  assumes skip: "skipmap (dp_sm dp)"
    and bigint: "bigint_ok (dp_bigint dp)"
    and sched: "sched_ok (dp_sched dp)"
    and seg_pos: "0 < wal_segment_bytes cfg"
    and frozen_pos: "0 < max_frozen_memtables cfg"
    and create_law: "aw_create (dp_aw dp) path sch w = (r, w') \<Longrightarrow>
          \<exists>st. w' = w\<lparr>w_stage := st\<rparr> \<and> (r = Ok () \<longrightarrow> map_of st path = Some [])"
    and write_law: "aw_write (dp_aw dp) path b w = (r, w') \<Longrightarrow>
          \<exists>st. w' = w\<lparr>w_stage := st\<rparr> \<and> (r = Ok () \<longrightarrow> map_of st path = map_option (\<lambda>bs. bs @ [b]) (map_of (w_stage w) path))"
    and close_law: "aw_close (dp_aw dp) path w = (r, w') \<Longrightarrow>
          \<exists>st. w' = w\<lparr>w_stage := st\<rparr> \<and> (r = Ok () \<longrightarrow> map_of st path = map_of (w_stage w) path)"
    and process_law: "dp_proc dp (duckdb_binary (cfg_duckdb cfg)) args (publish_script (cfg_catalog cfg) (cfg_s3 cfg) path) w = (x, w') \<Longrightarrow>
          map_of (w_stage w) path = Some bs \<Longrightarrow> rows_ok (staged_rows bs) \<Longrightarrow> lake_good (w_db w) (w_getr w) \<Longrightarrow>
          w_dir w' = w_dir w \<and> lake_good (w_db w') (w_getr w') \<and>
          (w_db w' = w_db w \<and> w_getr w' = w_getr w \<or> snapshot_added dp size_of lake bs w w') \<and>
          (\<forall>err. x = Exited (Some 0) err \<longrightarrow> snapshot_added dp size_of lake bs w w')"
begin

lemma write_batches_law:
  "write_batches (dp_aw dp) path bs w = (r, w') \<Longrightarrow>
     \<exists>st. w' = w\<lparr>w_stage := st\<rparr> \<and> (r = Ok () \<longrightarrow> map_of st path = map_option (\<lambda>b0. b0 @ bs) (map_of (w_stage w) path))"
proof (induction bs arbitrary: w)
  case Nil
  then show ?case by (intro exI [of _ "w_stage w"]) (simp add: option.map_ident)
next
  case (Cons b bs)
  obtain r1 w1 where wr: "aw_write (dp_aw dp) path b w = (r1, w1)" by fastforce
  from write_law [OF this] obtain st1 where st1: "w1 = w\<lparr>w_stage := st1\<rparr>"
    "r1 = Ok () \<longrightarrow> map_of st1 path = map_option (\<lambda>bs. bs @ [b]) (map_of (w_stage w) path)" by blast
  show ?case
  proof (cases r1)
    case (Ok u)
    then have "write_batches (dp_aw dp) path bs w1 = (r, w')" using Cons.prems wr by simp
    from Cons.IH [OF this] obtain st where st: "w' = w1\<lparr>w_stage := st\<rparr>"
      "r = Ok () \<longrightarrow> map_of st path = map_option (\<lambda>b0. b0 @ bs) (map_of (w_stage w1) path)" by blast
    then show ?thesis using st1 Ok by (intro exI [of _ st]) (auto simp: option.map_comp comp_def)
  qed (use Cons.prems wr st1 in auto)
qed

lemma stage_law:
  assumes "stage (dp_sm dp) (dp_aw dp) mt path w = (r, w')"
  shows "\<exists>st bs. w' = w\<lparr>w_stage := st\<rparr> \<and> batches (dp_sm dp) mt = Ok bs \<and> (r = Ok () \<longrightarrow> map_of st path = Some bs)"
proof -
  obtain bs where bs: "batches (dp_sm dp) mt = Ok bs" using batches_chunks by blast
  obtain r1 w1 where c: "aw_create (dp_aw dp) path arrow_schema w = (r1, w1)" by fastforce
  from create_law [OF this] obtain st1 where st1: "w1 = w\<lparr>w_stage := st1\<rparr>" "r1 = Ok () \<longrightarrow> map_of st1 path = Some []" by blast
  show ?thesis
  proof (cases r1)
    case (Ok u)
    obtain r2 w2 where b: "write_batches (dp_aw dp) path bs w1 = (r2, w2)" by fastforce
    from write_batches_law [OF this] obtain st2 where st2: "w2 = w1\<lparr>w_stage := st2\<rparr>"
      "r2 = Ok () \<longrightarrow> map_of st2 path = map_option (\<lambda>b0. b0 @ bs) (map_of (w_stage w1) path)" by blast
    show ?thesis
    proof (cases r2)
      case r2: (Ok u')
      then have "aw_close (dp_aw dp) path w2 = (r, w')" using assms c Ok bs b by (simp add: stage_def)
      from close_law [OF this] obtain st where "w' = w2\<lparr>w_stage := st\<rparr>" "r = Ok () \<longrightarrow> map_of st path = map_of (w_stage w2) path" by blast
      then show ?thesis using st1 st2 Ok r2 bs by auto
    qed (use assms c Ok bs b st1 st2 in \<open>auto simp: stage_def\<close>)
  qed (use assms c bs st1 in \<open>auto simp: stage_def\<close>)
qed

end

end
