(* ===== verification/Engine_Recovery.thy ===== *)
theory Engine_Recovery
  imports Engine_Env
begin

text \<open>
  The engine keeps its promise. \<open>lake_state\<close>, \<open>wal_state\<close> and \<open>disk_state\<close> relate the columnar level and the
  log, open or as a crash left it, to a history of acknowledged writes; \<open>up_ok\<close> and \<open>down_ok\<close> put them
  together for a running and for a stopped engine. The lemmas show that opening, writing, flushing with
  every outcome and every crash window, and reading keep them, and what they answer.
\<close>

section \<open>States\<close>

definition lake_state ::
    "('m, 'f) deps \<Rightarrow> (string \<Rightarrow> u64) \<Rightarrow> 'f config \<Rightarrow> duck_lake \<Rightarrow> (catalog_db \<Rightarrow> get_range \<Rightarrow> bool)
      \<Rightarrow> wrecord list \<Rightarrow> file_index \<Rightarrow> world \<Rightarrow> bool" where
  "lake_state dp size_of cfg lake lake_good h idx w \<longleftrightarrow>
     connect None (w_db w) (cfg_catalog cfg) = Ok lake \<and> lake_good (w_db w) (w_getr w) \<and>
     cat_inv (dp_hexd dp) (dp_b64 dp) (w_db w) lake idx \<and> index_watermark idx \<le> lsn_max h \<and>
     (\<exists>files. list_all2 (entry_serves (dp_pq dp) (w_getr w) (dp_path_from dp) (lake_bucket lake) size_of) idx files \<and>
        files_view files = apply_log (upto (index_watermark idx) h))"

text \<open>
  The log of the write-ahead log against the history: the same records above the watermark, in any order. The
  next sequence number names no segment yet, unless it is the active one and still empty.
\<close>

definition covers :: "(bytes \<Rightarrow> u32) \<Rightarrow> wrecord list \<Rightarrow> lsn \<Rightarrow> wrecord list \<Rightarrow> bool" where
  "covers crc h wm rs \<longleftrightarrow>
     mset (above wm rs) = mset (above wm h) \<and> max (lsn_max rs) wm = lsn_max h \<and> length (frames crc rs) \<le> length (frames crc h)"

definition names_ok :: "lsn \<Rightarrow> wal \<Rightarrow> bool" where
  "names_ok mx wal \<longleftrightarrow>
     (\<forall>s \<in> set (sealed wal). start_lsn s \<le> mx) \<and>
     (start_lsn (active wal) \<le> mx \<or> start_lsn (active wal) = mx + 1 \<and> active_bytes wal = 0)"

definition wal_state :: "(bytes \<Rightarrow> u32) \<Rightarrow> wrecord list \<Rightarrow> lsn \<Rightarrow> dir \<Rightarrow> wal \<Rightarrow> bool" where
  "wal_state crc h wm d wal \<longleftrightarrow>
     (\<exists>ps. wal_inv crc d wal ps \<and> covers crc h wm (log_of ps)) \<and> names_ok (lsn_max h) wal"

definition disk_state :: "(bytes \<Rightarrow> u32) \<Rightarrow> wrecord list \<Rightarrow> lsn \<Rightarrow> dir \<Rightarrow> bool" where
  "disk_state crc h wm d \<longleftrightarrow>
     (\<exists>ls. disk_inv crc d ls \<and> covers crc h wm (disk_log ls) \<and>
        (\<forall>(l, rs, t) \<in> set ls. l \<le> lsn_max h \<or> l = lsn_max h + 1 \<and> rs = []))"

definition down_ok ::
    "('m, 'f) deps \<Rightarrow> (string \<Rightarrow> u64) \<Rightarrow> 'f config \<Rightarrow> duck_lake \<Rightarrow> (catalog_db \<Rightarrow> get_range \<Rightarrow> bool)
      \<Rightarrow> wrecord list \<Rightarrow> world \<Rightarrow> bool" where
  "down_ok dp size_of cfg lake lake_good h w \<longleftrightarrow>
     hist_ok (dp_crc dp) h \<and>
     (\<exists>idx. lake_state dp size_of cfg lake lake_good h idx w \<and> disk_state (dp_crc dp) h (index_watermark idx) (w_dir w))"

text \<open>What every step of a flush keeps: killing the process there loses nothing.\<close>

definition safe ::
    "('m, 'f) deps \<Rightarrow> (string \<Rightarrow> u64) \<Rightarrow> 'f config \<Rightarrow> duck_lake \<Rightarrow> (catalog_db \<Rightarrow> get_range \<Rightarrow> bool)
      \<Rightarrow> wrecord list \<Rightarrow> ('m, 'f) state \<Rightarrow> bool" where
  "safe dp size_of cfg lake lake_good h = (\<lambda>(e, w).
     hist_ok (dp_crc dp) h \<and>
     (\<exists>idx. lake_state dp size_of cfg lake lake_good h idx w \<and>
            wal_state (dp_crc dp) h (index_watermark idx) (w_dir w) (en_wal e)))"

definition up_ok ::
    "('m, 'f) deps \<Rightarrow> (string \<Rightarrow> u64) \<Rightarrow> 'f config \<Rightarrow> duck_lake \<Rightarrow> (catalog_db \<Rightarrow> get_range \<Rightarrow> bool)
      \<Rightarrow> wrecord list \<Rightarrow> ('m, 'f) state \<Rightarrow> bool" where
  "up_ok dp size_of cfg lake lake_good h = (\<lambda>(e, w).
     hist_ok (dp_crc dp) h \<and> lake_state dp size_of cfg lake lake_good h (en_index e) w \<and>
     wal_state (dp_crc dp) h (index_watermark (en_index e)) (w_dir w) (en_wal e) \<and>
     en_cfg e = cfg \<and> en_lake e = lake \<and> ms_frozen (en_memtables e) = [] \<and>
     mt_holds (dp_sm dp) (snd (ms_active (en_memtables e))) (above (index_watermark (en_index e)) h) \<and>
     set_inv (en_memtables e) \<and> en_next_lsn e = lsn_max h + 1 \<and>
     reader_inv (w_getr w) (pq_load (dp_pq dp)) size_of (en_reader e))"

section \<open>The log\<close>

lemma frames_append_length: "length (frames crc (xs @ ys)) = length (frames crc xs) + length (frames crc ys)"
  by (simp add: frames_def)

lemma hist_ok_appendD: "hist_ok crc (h @ x) \<Longrightarrow> hist_ok crc h"
proof -
  assume h: "hist_ok crc (h @ x)"
  have "lsn_max h \<le> lsn_max (h @ x)" by simp
  then show ?thesis using h by (auto simp: hist_ok_def sorted_wrt_append frames_append_length word_le_nat_alt)
qed

lemma filter_frames_length: "length (frames crc (log_of (filter P ps))) \<le> length (frames crc (log_of ps))"
  by (induction ps) (auto simp: log_of_def frames_append_length)

lemma kept_frames_length: "ps \<noteq> [] \<Longrightarrow> length (frames crc (log_of (kept wm ps))) \<le> length (frames crc (log_of ps))"
proof (induction ps rule: rev_induct)
  case (snoc p ps)
  show ?case
    using filter_frames_length [of crc "\<lambda>p. \<not> covered wm (fst p)" ps]
    by (simp add: kept_def log_of_def frames_append_length)
qed simp

lemma covers_mono:
  assumes "covers crc h wm rs" and "wm \<le> wm'" and "wm' \<le> lsn_max h"
  shows "covers crc h wm' rs"
proof -
  have f: "above wm' xs = filter (\<lambda>r. wm' < r_lsn r) (above wm xs)" for xs
    using assms(2) by (auto simp: above_def intro!: filter_cong)
  have "max (lsn_max rs) wm' = lsn_max h"
    using assms by (auto simp: covers_def max_def split: if_splits)
  then show ?thesis using assms(1) unfolding covers_def f mset_filter by simp
qed

lemma covers_refl: "wm \<le> lsn_max h \<Longrightarrow> covers crc h wm h"
  by (simp add: covers_def max_def)

lemma covers_snoc: "covers crc h wm rs \<Longrightarrow> wm < r_lsn r \<Longrightarrow> covers crc (h @ [r]) wm (rs @ [r])"
  by (auto simp: covers_def frames_append_length ac_simps simp flip: max.assoc [of wm])

text \<open>Neither the order of the history nor that of the log matters to it.\<close>

lemma frames_length_perm: "mset rs = mset rs' \<Longrightarrow> length (frames crc rs) = length (frames crc rs')"
proof -
  have "length (frames crc rs) = sum_mset (image_mset (length \<circ> frame crc) (mset rs))" for rs by (induction rs) simp_all
  then show "mset rs = mset rs' \<Longrightarrow> length (frames crc rs) = length (frames crc rs')" by simp
qed

lemma covers_perm:
  assumes "covers crc h wm rs" and "mset h = mset h'" and "mset rs = mset rs'"
  shows "covers crc h' wm rs'"
  using assms lsn_max_perm [OF assms(2)] lsn_max_perm [OF assms(3)] frames_length_perm [OF assms(2), of crc]
    frames_length_perm [OF assms(3), of crc] by (simp add: covers_def above_def)

lemma names_okI: "\<forall>l \<in> set (wal_starts wal). l \<le> mx \<Longrightarrow> names_ok mx wal"
  by (simp add: names_ok_def wal_starts_def)

lemma names_ok_starts: "names_ok mx wal \<Longrightarrow> mx < mx + 1 \<Longrightarrow> \<forall>l \<in> set (wal_starts wal). l \<le> mx + 1"
  by (auto simp: names_ok_def wal_starts_def)

lemma names_on_disk:
  assumes inv: "wal_inv crc d wal ps" and "names_ok mx wal"
  shows "\<forall>(l, rs, t) \<in> set (on_disk (butlast ps) (last ps) []). l \<le> mx \<or> l = mx + 1 \<and> rs = []"
proof -
  from inv obtain qs rs where ps: "ps = qs @ [(active wal, rs)]" and sld: "sealed wal = map fst qs"
    and ok: "seg_ok crc d (active wal, rs)" and ab: "active_bytes wal = of_nat (length (frames crc rs))" by (rule wal_inv_active)
  have "length (frames crc rs) < 2 ^ 64" using ok by (simp add: seg_ok_def)
  then have "active_bytes wal = 0 \<Longrightarrow> rs = []" unfolding ab by (metis frames_eq_Nil length_0_conv unat_0 unat_of_nat_u64)
  then show ?thesis using assms(2) by (auto simp: ps sld on_disk_elem names_ok_def)
qed

lemma wal_state_mono:
  "wal_state crc h wm d wal \<Longrightarrow> wm \<le> wm' \<Longrightarrow> wm' \<le> lsn_max h \<Longrightarrow> wal_state crc h wm' d wal"
  unfolding wal_state_def using covers_mono by blast

lemma wal_state_on_disk:
  assumes "wal_state crc h wm d wal" and "\<And>ps. wal_inv crc d wal ps \<Longrightarrow> disk_inv crc d' (on_disk (butlast ps) (last ps) [])"
  shows "disk_state crc h wm d'"
proof -
  from assms(1) obtain ps where ps: "wal_inv crc d wal ps" "covers crc h wm (log_of ps)" "names_ok (lsn_max h) wal"
    unfolding wal_state_def by blast
  have "covers crc h wm (disk_log (on_disk (butlast ps) (last ps) []))"
    using covers_perm [OF ps(2) refl wal_inv_on_disk(1) [OF ps(1), symmetric]] .
  with assms(2) [OF ps(1)] names_on_disk [OF ps(1,3)] show ?thesis unfolding disk_state_def by blast
qed

lemma wal_state_crash: "wal_state crc h wm d wal \<Longrightarrow> disk_state crc h wm (crash_dir keep_to d)"
  using wal_state_on_disk crash_disk by blast

text \<open>A log that is simply closed.\<close>

lemma wal_state_closed: "wal_state crc h wm d wal \<Longrightarrow> disk_state crc h wm d"
  by (erule wal_state_on_disk, rule log_disk) (auto simp: wal_inv_def)

lemma wal_state_names: "wal_state crc h wm d wal \<Longrightarrow> names_ok (lsn_max h) wal"
  by (simp add: wal_state_def)

lemma disk_state_mono:
  "disk_state crc h wm d \<Longrightarrow> wm \<le> wm' \<Longrightarrow> wm' \<le> lsn_max h \<Longrightarrow> disk_state crc h wm' d"
  unfolding disk_state_def using covers_mono by blast

lemma disk_state_crash: "disk_state crc h wm d \<Longrightarrow> disk_state crc h wm (crash_dir keep_to d)"
proof -
  assume "disk_state crc h wm d"
  then obtain ls where ls: "disk_inv crc d ls" "covers crc h wm (disk_log ls)"
    "\<forall>(l, rs, t) \<in> set ls. l \<le> lsn_max h \<or> l = lsn_max h + 1 \<and> rs = []" unfolding disk_state_def by blast
  have "file_ok crc (crash_dir keep_to d) x" if "x \<in> set ls" for x
  proof -
    obtain l rs t where x: "x = (l, rs, t)" by (cases x)
    have "file_ok crc d (l, rs, t)" using ls(1) that x by (simp add: disk_inv_def)
    then show ?thesis
      unfolding x file_ok_def prod.case using crash_dir_synced [of d "segment_name l" "frames crc rs @ t"] by blast
  qed
  then have "disk_inv crc (crash_dir keep_to d) ls" using ls(1) by (simp add: disk_inv_def)
  with ls(2,3) show ?thesis unfolding disk_state_def by blast
qed

lemma truncate_state:
  assumes "wal_state crc h wm d wal"
  shows "\<exists>d' wal'. truncate_through wm (d, wal) = Ok (d', wal') \<and> wal_state crc h wm d' wal'"
proof -
  from assms obtain ps where ps: "wal_inv crc d wal ps" "covers crc h wm (log_of ps)"
    and st: "names_ok (lsn_max h) wal" unfolding wal_state_def by blast
  from truncate_ok [OF ps(1)] obtain d' wal' where t: "truncate_through wm (d, wal) = Ok (d', wal')"
    "wal_inv crc d' wal' (kept wm ps)" "active wal' = active wal" "set (sealed wal') \<subseteq> set (sealed wal)"
    "active_bytes wal' = active_bytes wal" by blast
  have "ps \<noteq> []" using ps(1) by (auto simp: wal_inv_def)
  from kept_frames_length [OF this] ps(2) kept_above [OF ps(1), of wm]
  have "covers crc h wm (log_of (kept wm ps))"
    unfolding covers_def above_def by (metis le_trans)
  with t st show ?thesis unfolding wal_state_def names_ok_def by auto
qed

text \<open>The sequence number of the next write.\<close>

lemma next_lsn:
  assumes "hist_ok crc h"
  shows "lsn_max h < lsn_max h + 1" and "unat (lsn_max h + 1) = Suc (unat (lsn_max h))"
proof -
  have "unat (lsn_max h) < 2 ^ 63" using assms by (simp add: hist_ok_def)
  then show "unat (lsn_max h + 1) = Suc (unat (lsn_max h))" using unat_add_lem [where x = "lsn_max h" and y = 1] by simp
  then show "lsn_max h < lsn_max h + 1" by (simp add: word_less_nat_alt)
qed

text \<open>Appending a record with any number above the watermark that names no segment.\<close>

lemma append_covers:
  assumes inv: "wal_inv crc d wal ps" and cov: "covers crc h wm (log_of ps)" and wm: "wm < r_lsn r" and fit: "fits r"
    and small: "length (frames crc (h @ [r])) < 2 ^ 64"
    and fresh: "segment_max_bytes wal \<le> active_bytes wal \<Longrightarrow> r_lsn r \<notin> set (wal_starts wal)"
  shows "batch_ok crc wal ps [r]"
    and "\<exists>d' wal' ps'. wal_append crc [r] (d, wal) = Ok (d', wal') \<and> wal_inv crc d' wal' ps' \<and>
           covers crc (h @ [r]) wm (log_of ps') \<and> set (wal_starts wal') \<subseteq> insert (r_lsn r) (set (wal_starts wal))"
proof -
  show b: "batch_ok crc wal ps [r]"
    using cov fit small fresh by (simp add: batch_ok_def covers_def frames_append_length)
  from append_ok [OF inv b] covers_snoc [OF cov wm] show
    "\<exists>d' wal' ps'. wal_append crc [r] (d, wal) = Ok (d', wal') \<and> wal_inv crc d' wal' ps' \<and>
       covers crc (h @ [r]) wm (log_of ps') \<and> set (wal_starts wal') \<subseteq> insert (r_lsn r) (set (wal_starts wal))" by fastforce
qed

lemma full_active_starts:
  assumes "wal_inv crc d wal ps" and "names_ok mx wal" and "segment_max_bytes wal \<le> active_bytes wal"
  shows "\<forall>l \<in> set (wal_starts wal). l \<le> mx"
proof -
  have "0 < segment_max_bytes wal" using assms(1) by (simp add: wal_inv_def)
  then have "active_bytes wal \<noteq> 0" using assms(3) by auto
  then show ?thesis using assms(2) by (auto simp: names_ok_def wal_starts_def)
qed

lemma append_state:
  assumes st: "wal_state crc h wm d wal" and h: "hist_ok crc h" "hist_ok crc (h @ [r])"
    and r: "r_lsn r = lsn_max h + 1" and wm: "wm \<le> lsn_max h"
  shows "\<exists>d' wal'. wal_append crc [r] (d, wal) = Ok (d', wal') \<and> wal_state crc (h @ [r]) wm d' wal'"
    and "\<exists>ps. wal_inv crc d wal ps \<and> covers crc h wm (log_of ps) \<and> batch_ok crc wal ps [r]"
proof -
  from st obtain ps where ps: "wal_inv crc d wal ps" "covers crc h wm (log_of ps)" "names_ok (lsn_max h) wal"
    unfolding wal_state_def by blast
  have lt: "lsn_max h < r_lsn r" using next_lsn(1) [OF h(1)] r by simp
  have b: "fits r" "length (frames crc (h @ [r])) < 2 ^ 64" using h(2) by (simp_all add: hist_ok_def)
  have fresh: "r_lsn r \<notin> set (wal_starts wal)" if "segment_max_bytes wal \<le> active_bytes wal"
    using full_active_starts [OF ps(1,3) that] lt by auto
  note app = append_covers [OF ps(1,2) order.strict_trans1 [OF wm lt] b fresh]
  from app(1) ps show "\<exists>ps. wal_inv crc d wal ps \<and> covers crc h wm (log_of ps) \<and> batch_ok crc wal ps [r]" by blast
  from app(2) obtain d' wal' ps' where a: "wal_append crc [r] (d, wal) = Ok (d', wal')" "wal_inv crc d' wal' ps'"
    "covers crc (h @ [r]) wm (log_of ps')" "set (wal_starts wal') \<subseteq> insert (r_lsn r) (set (wal_starts wal))" by blast
  have "\<forall>l \<in> set (wal_starts wal). l \<le> r_lsn r" using names_ok_starts [OF ps(3)] next_lsn(1) [OF h(1)] r by simp
  then have "names_ok (lsn_max (h @ [r])) wal'" using a(4) by (intro names_okI) (auto simp: max.coboundedI2)
  with a show "\<exists>d' wal'. wal_append crc [r] (d, wal) = Ok (d', wal') \<and> wal_state crc (h @ [r]) wm d' wal'"
    unfolding wal_state_def by blast
qed

text \<open>The names on disk when the process dies inside an append, its record written or not.\<close>

lemma on_disk_starts:
  assumes inv: "wal_inv crc d wal ps" and nm: "names_ok mx wal"
    and ext: "qs @ [(a, rs0)] = ps \<or> segment_max_bytes wal \<le> active_bytes wal \<and> qs = ps \<and> rs0 = [] \<and> start_lsn a = l"
    and l: "l = mx + 1" "mx < mx + 1"
  shows "\<forall>(k, rs, t) \<in> set (on_disk qs (a, rs0 @ new) t). k \<le> l"
proof -
  have "\<forall>p \<in> set ps. start_lsn (fst p) \<le> l"
    using names_ok_starts [OF nm l(2)] unfolding wal_inv_starts [OF inv, symmetric] l(1) by simp
  then show ?thesis using ext by (auto simp: on_disk_elem)
qed

lemma on_disk_unwritten:
  assumes inv: "wal_inv crc d wal ps" and nm: "names_ok mx wal"
    and ext: "qs @ [(a, rs0)] = ps \<or> segment_max_bytes wal \<le> active_bytes wal \<and> qs = ps \<and> rs0 = [] \<and> start_lsn a = l"
    and l: "l = mx + 1"
  shows "\<forall>(k, rs, t) \<in> set (on_disk qs (a, rs0) t). k \<le> mx \<or> k = mx + 1 \<and> rs = []"
proof (cases "qs = ps")
  case True
  then have "\<forall>p \<in> set qs. start_lsn (fst p) \<le> mx"
    using full_active_starts [OF inv nm] ext unfolding wal_inv_starts [OF inv, symmetric] by auto
  then show ?thesis using ext True l by (auto simp: on_disk_elem)
next
  case False
  with ext have ps: "ps = qs @ [(a, rs0)]" by auto
  have "on_disk qs (a, rs0) [] = on_disk (butlast ps) (last ps) []" by (simp add: ps)
  then have "\<forall>(k, rs, t) \<in> set (on_disk qs (a, rs0) []). k \<le> mx \<or> k = mx + 1 \<and> rs = []" using names_on_disk [OF inv nm] by simp
  then show ?thesis unfolding Ball_def on_disk_elem by auto
qed

section \<open>The columnar level\<close>

lemma connect_committed: "connect c (committed_file nf db) cat = connect c db cat"
proof -
  have v: "verify_columns c (committed_file nf db) = verify_columns c db"
    by (simp add: fun_eq_iff verify_columns_def live_columns_def committed_file_def)
  have "resolve_table c (committed_file nf db) = resolve_table c db"
    by (simp add: fun_eq_iff resolve_table_def resolve_rows_def committed_file_def)
  then show ?thesis unfolding connect_def v by simp
qed

lemma sint_small: "uint (x :: u64) < 2 ^ 63 \<Longrightarrow> sint x = uint x"
  unfolding sint_uint by (intro signed_take_bit_int_eq_self) (simp_all add: order_trans [OF _ uint_ge_0])

lemma fold_max_uint: "fold max (map (\<lambda>x. uint (f x :: u64)) xs) (uint a) = uint (fold max (map f xs) a)"
proof (induction xs arbitrary: a)
  case (Cons x xs)
  have "max (uint (f x)) (uint a) = uint (max (f x) a)" by (simp add: max_def word_le_def)
  then show ?case using Cons [of "max (f x) a"] by simp
qed simp

lemma fold_set_insert:
  "fold (set_insert sm) rs s = s\<lparr>ms_active := (fst (ms_active s), fold (memtable_insert sm) rs (snd (ms_active s)))\<rparr>"
  by (induction rs arbitrary: s) (simp_all add: set_insert_def)

context engine_env
begin

abbreviation (input) lake_st :: "wrecord list \<Rightarrow> file_index \<Rightarrow> world \<Rightarrow> bool" where
  "lake_st \<equiv> lake_state dp size_of cfg lake lake_good"

text \<open>Every row staged from a memtable of the history comes from a record that fits.\<close>

lemma staged_row_small:
  assumes h: "hist_ok (dp_crc dp) h" and m: "mt_holds (dp_sm dp) m (above wm h)" and p: "p \<in> set (memtable_iter (dp_sm dp) m)"
  shows "row_len (staged_row_of p) < 2 ^ 32"
proof -
  have srt: "sorted_wrt (<) (map r_lsn (above wm h))" using h by (intro above_sorted) (simp add: hist_ok_def)
  have "newest (above wm h) (fst p) = Some (snd p)"
    using p skipmap.iter_sorted [OF skip] unfolding memtable_iter_def
    by (metis map_of_is_SomeI prod.collapse skipmap.mt_holds_newest [OF skip m srt] strict_sorted_iff)
  from newest_winner [OF this] obtain r where "r \<in> set h" "r_key r = fst p" "snd p = entry_of r"
    by (auto simp: winner_def above_def)
  then have "fits r" "r_key r = fst p" "snd p = entry_of r" using h by (auto simp: hist_ok_def list_all_iff)
  then show ?thesis by (cases "r_op r") (auto simp: row_len_def staged_row_of_def split_def fits_def entry_of_def)
qed

lemma staged_above:
  assumes h: "hist_ok (dp_crc dp) h" and ne: "above wm h \<noteq> []"
    and m: "mt_holds (dp_sm dp) m (above wm h)" and bs: "batches (dp_sm dp) m = Ok bs"
  shows "fold max (map (\<lambda>r. fst (snd r)) (staged_rows bs)) 0 = int (unat (lsn_max h))"
    and "rows_ok (staged_rows bs)"
    and "map_of (map lake_row (staged_rows bs)) = apply_log (above wm h)"
proof -
  let ?it = "memtable_iter (dp_sm dp) m"
  have rows: "staged_rows bs = map staged_row_of ?it" using lake_rows_iter(1) [OF bs] .
  have mx: "fold max (map (\<lambda>p. e_lsn (snd p)) ?it) 0 = lsn_max h"
    using skipmap.mt_holds_iter_max [OF skip m] above_lsn_max [OF ne] by simp
  have small: "sint (e_lsn (snd p)) = uint (e_lsn (snd p))" "uint (e_lsn (snd p)) < 2 ^ 63" if "p \<in> set ?it" for p
  proof -
    have "e_lsn (snd p) \<le> lsn_max h"
      unfolding mx [symmetric] using that by (intro fold_max_elem) simp
    moreover have "uint (lsn_max h) < 2 ^ 63" 
      using h unfolding hist_ok_def by (metis of_nat_less_iff of_nat_numeral of_nat_power uint_nat)
    ultimately show "uint (e_lsn (snd p)) < 2 ^ 63" unfolding word_le_def by (rule le_less_trans)
    then show "sint (e_lsn (snd p)) = uint (e_lsn (snd p))" by (rule sint_small)
  qed
  have fs: "fst (snd (staged_row_of p)) = sint (e_lsn (snd p))" "fst (staged_row_of p) = fst p" for p
    by (simp_all add: staged_row_of_def split_def)
  have "map (\<lambda>r. fst (snd r)) (staged_rows bs) = map (\<lambda>p. uint (e_lsn (snd p))) ?it"
    using small(1) by (simp add: rows fs)
  then show "fold max (map (\<lambda>r. fst (snd r)) (staged_rows bs)) 0 = int (unat (lsn_max h))"
    using fold_max_uint [of "\<lambda>p. e_lsn (snd p)" ?it 0] mx by simp
  have "?it \<noteq> []"
    using skipmap.mt_holds_is_empty [OF skip m] ne
    by (simp add: memtable_iter_def memtable_is_empty_def skipmap.is_empty_iter [OF skip])
  moreover have "sorted_wrt (<) (map fst ?it)" unfolding memtable_iter_def by (rule skipmap.iter_sorted [OF skip])
  moreover note staged_row_small [OF h m]
  ultimately show "rows_ok (staged_rows bs)" using small by (auto simp: rows_ok_def rows fs comp_def)
  show "map_of (map lake_row (staged_rows bs)) = apply_log (above wm h)"
    using h m by (intro lake_rows_view [OF skip bs] above_sorted) (auto simp: hist_ok_def above_def)
qed

lemma lake_commit:
  assumes st: "lake_st h idx w" and h: "hist_ok (dp_crc dp) h" and ne: "above (index_watermark idx) h \<noteq> []"
    and m: "mt_holds (dp_sm dp) m (above (index_watermark idx) h)" and bs: "batches (dp_sm dp) m = Ok bs"
    and add: "snapshot_added dp size_of lake bs w w'" and good: "lake_good (w_db w') (w_getr w')"
  shows "\<exists>e. lake_st h (e # idx) w' \<and> index_watermark (e # idx) = lsn_max h \<and> grows (w_getr w) (w_getr w')"
proof -
  let ?wm = "index_watermark idx" and ?rows = "map lake_row (staged_rows bs)"
  note sa = staged_above [OF h ne m bs]
  from add obtain nf e where nf: "w_db w' = committed_file nf (w_db w)" "fresh_file (w_db w) (lake_table_id lake) nf"
    "load_entry (dp_hexd dp) (dp_b64 dp) lake (new_row nf) = Ok e"
    "cs_max (the_stat nf FIELD_ID_LSN) = Some (show_nat (unat (fe_watermark e)))"
    and g: "grows (w_getr w) (w_getr w')"
    and sv: "entry_serves (dp_pq dp) (w_getr w') (dp_path_from dp) (lake_bucket lake) size_of e ?rows"
    and fm: "int (unat (fe_watermark e)) = fold max (map (\<lambda>r. fst (snd r)) (staged_rows bs)) 0"
    unfolding snapshot_added_def by blast
  from fm sa(1) have wm: "fe_watermark e = lsn_max h" by (simp only: of_nat_eq_iff word_unat_eq_iff)
  from st obtain files where files:
    "list_all2 (entry_serves (dp_pq dp) (w_getr w) (dp_path_from dp) (lake_bucket lake) size_of) idx files"
    "files_view files = apply_log (upto ?wm h)" unfolding lake_state_def by blast
  have "cat_inv (dp_hexd dp) (dp_b64 dp) (w_db w') lake (e # idx)"
    unfolding nf(1)
  proof (rule cat_inv_commit [OF _ nf(2-4)])
    show "cat_inv (dp_hexd dp) (dp_b64 dp) (w_db w) lake idx" using st by (simp add: lake_state_def)
    show "unat (fe_watermark e) < 2 ^ 63" using h wm by (simp add: hist_ok_def)
    show "?wm < fe_watermark e" using above_lsn_max [OF ne] wm by simp
  qed
  moreover have "files_view (?rows # files) = apply_log h"
  proof -
    have "upto ?wm h @ above ?wm h = h" using h by (intro split_history) (simp add: hist_ok_def)
    then show ?thesis using files(2) sa(3) by (metis apply_log_append files_view.simps(2))
  qed
  moreover have "list_all2 (entry_serves (dp_pq dp) (w_getr w') (dp_path_from dp) (lake_bucket lake) size_of) (e # idx) (?rows # files)"
    using sv files(1) by (auto intro: list_all2_mono entry_serves_grows [OF g])
  moreover have "index_watermark (e # idx) = lsn_max h" using wm by (simp add: index_watermark_def)
  moreover have "connect None (w_db w') (cfg_catalog cfg) = Ok lake" using st by (simp add: nf(1) connect_committed lake_state_def)
  ultimately show ?thesis using good g upto_max [of h] unfolding lake_state_def
    by (intro exI [of _ e] conjI exI [of _ "?rows # files"]) simp_all
qed

section \<open>Opening and crashing\<close>

lemma lake_st_dir [simp]: "lake_st h idx (w\<lparr>w_dir := d\<rparr>) = lake_st h idx w" "lake_st h idx (w\<lparr>w_stage := st\<rparr>) = lake_st h idx w"
  by (simp_all add: lake_state_def)

text \<open>A new record does not touch the columnar level.\<close>

lemma lake_st_append:
  assumes "lake_st h idx w" and "\<forall>r \<in> set rs. lsn_max h < r_lsn r"
  shows "lake_st (h @ rs) idx w"
proof -
  have "index_watermark idx \<le> lsn_max h" using assms(1) by (simp add: lake_state_def)
  then have "upto (index_watermark idx) (h @ rs) = upto (index_watermark idx) h" "index_watermark idx \<le> lsn_max (h @ rs)"
    using assms(2) by (auto simp: upto_def filter_empty_conv not_le max.coboundedI1)
  then show ?thesis using assms(1) by (auto simp: lake_state_def)
qed

lemma lake_st_snoc: "lake_st h idx w \<Longrightarrow> lsn_max h < r_lsn r \<Longrightarrow> lake_st (h @ [r]) idx w"
  by (rule lake_st_append) simp_all

lemma up_safe: "up_ok dp size_of cfg lake lake_good h s \<Longrightarrow> safe dp size_of cfg lake lake_good h s"
  by (auto simp: up_ok_def safe_def split_def)

lemma safe_crash:
  assumes "safe dp size_of cfg lake lake_good h (e, w)"
  shows "down_ok dp size_of cfg lake lake_good h (w\<lparr>w_dir := crash_dir keep_to (w_dir w), w_stage := st\<rparr>)"
  using assms wal_state_crash unfolding safe_def down_ok_def by auto

lemma safe_stopped: "safe dp size_of cfg lake lake_good h (e, w) \<Longrightarrow> down_ok dp size_of cfg lake lake_good h w"
  using wal_state_closed unfolding safe_def down_ok_def by auto

lemma lake_calls:
  assumes "lake_st h idx w"
  shows "connect c (w_db w) (cfg_catalog cfg) = pg_query c lake"
    and "published_watermark (dp_bigint dp) c (w_db w) lake = pg_query c (index_watermark idx)"
    and "load_index (dp_hexd dp) (dp_b64 dp) c (w_db w) lake = pg_query c idx"
proof -
  have st: "connect None (w_db w) (cfg_catalog cfg) = Ok lake" "cat_inv (dp_hexd dp) (dp_b64 dp) (w_db w) lake idx"
    using assms by (simp_all add: lake_state_def)
  show "connect c (w_db w) (cfg_catalog cfg) = pg_query c lake"
    using st(1) by (cases c) (simp_all add: pg_query_def connect_def)
  show "published_watermark (dp_bigint dp) c (w_db w) lake = pg_query c (index_watermark idx)"
    using cat_inv_watermark [OF st(2) bigint] by (cases c) (simp_all add: pg_query_def published_watermark_def)
  show "load_index (dp_hexd dp) (dp_b64 dp) c (w_db w) lake = pg_query c idx"
    using st(2) by (cases c) (simp_all add: pg_query_def load_index_def cat_inv_def)
qed

lemma reopened_names:
  assumes inv: "wal_inv crc d wal (reopened ls)" and srt: "sorted_wrt (<) (map fst ls)"
    and ok: "\<forall>(l, rs, t) \<in> set ls. l \<le> mx \<or> l = mx + 1 \<and> rs = []"
  shows "names_ok mx wal"
proof (cases ls rule: rev_cases)
  case Nil
  then have "sealed wal = []" "active wal = \<lparr>seg_path = segment_name 0, start_lsn = 0, seg_max_lsn = 0\<rparr>"
    using inv by (simp_all add: wal_inv_def reopened_def)
  then show ?thesis by (simp add: names_ok_def)
next
  case (snoc xs x)
  obtain l rs t where x: "x = (l, rs, t)" by (cases x)
  have "map fst (map seg_done xs @ [seg_done x]) = sealed wal @ [active wal]"
    using inv by (simp add: wal_inv_def reopened_def snoc)
  then have segs: "sealed wal = map (fst \<circ> seg_done) xs" "active wal = fst (seg_done x)" by simp_all
  have ab: "active_bytes wal = of_nat (length (frames crc rs))"
    using inv by (simp add: wal_inv_def reopened_def snoc x seg_done_def)
  have "fst y \<le> mx" if y: "y \<in> set xs" for y
  proof -
    have "fst y < l" using srt y by (auto simp: snoc x sorted_wrt_append)
    moreover have "l \<le> mx \<or> l = mx + 1" "fst y \<le> mx \<or> fst y = mx + 1" using ok y by (auto simp: snoc x)
    ultimately show ?thesis by auto
  qed
  then have "\<forall>s \<in> set (sealed wal). start_lsn s \<le> mx" by (auto simp: segs seg_done_def split_def)
  moreover have "start_lsn (active wal) = l" by (simp add: segs x seg_done_def)
  moreover have "l \<le> mx \<or> l = mx + 1 \<and> rs = []" using ok by (simp add: snoc x)
  ultimately show ?thesis using ab by (auto simp: names_ok_def)
qed

lemma disk_open:
  assumes "disk_state crc h wm d" and "0 < m"
  shows "\<exists>d' wal rp. wal_open crc m wm d = Ok (d', wal, rp) \<and> wal_state crc h wm d' wal \<and>
           mset (replay_records rp) = mset (above wm h) \<and> max (replay_max_lsn rp) wm = lsn_max h"
proof -
  from assms(1) obtain ls where ls: "disk_inv crc d ls" "covers crc h wm (disk_log ls)"
    "\<forall>(l, rs, t) \<in> set ls. l \<le> lsn_max h \<or> l = lsn_max h + 1 \<and> rs = []" unfolding disk_state_def by blast
  from wal_open_disk [OF ls(1) assms(2), of wm] obtain d' wal where
    o: "wal_open crc m wm d = Ok (d', wal, \<lparr>replay_records = above wm (disk_log ls), replay_max_lsn = lsn_max (disk_log ls)\<rparr>)"
    "wal_inv crc d' wal (reopened ls)" unfolding above_def by blast
  have "sorted_wrt (<) (map fst ls)" using ls(1) by (simp add: disk_inv_def)
  from reopened_names [OF o(2) this ls(3)] o ls(2) show ?thesis unfolding wal_state_def covers_def by force
qed

lemma open_state:
  assumes "down_ok dp size_of cfg lake lake_good h w" and op: "engine_open dp io cfg w = (x, w')"
  shows "(\<forall>e. x = Ok e \<longrightarrow> up_ok dp size_of cfg lake lake_good h (e, w'))"
    and "down_ok dp size_of cfg lake lake_good h (w'\<lparr>w_dir := crash_dir keep_to (w_dir w'), w_stage := st\<rparr>)"
    and "io = pg_up \<Longrightarrow> \<exists>e. x = Ok e"
proof -
  from assms(1) obtain idx where h: "hist_ok (dp_crc dp) h" and st: "lake_st h idx w"
    and ds: "disk_state (dp_crc dp) h (index_watermark idx) (w_dir w)" unfolding down_ok_def by blast
  let ?wm = "index_watermark idx"
  from disk_open [OF ds seg_pos] obtain d wal rp where
    o: "wal_open (dp_crc dp) (wal_segment_bytes cfg) ?wm (w_dir w) = Ok (d, wal, rp)"
    "wal_state (dp_crc dp) h ?wm d wal" "mset (replay_records rp) = mset (above ?wm h)" "max (replay_max_lsn rp) ?wm = lsn_max h" by blast
  note simps = engine_open_def lake_calls [OF st] o(1) memtable_set_new_def frozen_pos pg_query_def
  have dir: "w' = w \<or> w' = w\<lparr>w_dir := d\<rparr>"
    using op by (auto simp: simps split: option.splits)
  moreover have "disk_state (dp_crc dp) h ?wm (crash_dir keep_to (w_dir w))" "disk_state (dp_crc dp) h ?wm (crash_dir keep_to d)"
    using disk_state_crash [OF ds] wal_state_crash [OF o(2)] by blast+
  ultimately show "down_ok dp size_of cfg lake lake_good h (w'\<lparr>w_dir := crash_dir keep_to (w_dir w'), w_stage := st'\<rparr>)" for st'
    using h st unfolding down_ok_def by (intro conjI exI [of _ idx]) auto
  show "\<exists>e. x = Ok e" if "io = pg_up"
    using op by (auto simp: simps that pg_up_def)
  show "\<forall>e. x = Ok e \<longrightarrow> up_ok dp size_of cfg lake lake_good h (e, w')"
  proof (intro allI impI)
    fix e
    assume "x = Ok e"
    with op have e: "en_cfg e = cfg" "en_lake e = lake" "en_index e = idx" "en_wal e = wal" "w' = w\<lparr>w_dir := d\<rparr>"
      "en_next_lsn e = lsn_max h + 1" "en_reader e = ([], byte_cache_new (cache_bytes cfg))"
      "en_memtables e = \<lparr>ms_active = (0, mt_of (dp_sm dp) (replay_records rp)), ms_frozen = [],
         ms_max_bytes = memtable_max_bytes cfg, ms_max_frozen = max_frozen_memtables cfg, ms_next = 1\<rparr>"
      by (auto simp: simps o(4) fold_set_insert mt_of_def split: option.splits)
    show "up_ok dp size_of cfg lake lake_good h (e, w')"
      using h st o(2) frozen_pos mt_holds_of [OF o(3)]
      by (simp add: up_ok_def e set_inv_def reader_inv_def cache_holds_def byte_cache_new_def)
  qed
qed

lemma open_no_panic:
  assumes "down_ok dp size_of cfg lake lake_good h w" and op: "engine_open dp io cfg w = (x, w')"
  shows "x \<noteq> Panic p"
proof -
  from assms(1) obtain idx where st: "lake_st h idx w"
    and ds: "disk_state (dp_crc dp) h (index_watermark idx) (w_dir w)" unfolding down_ok_def by blast
  from disk_open [OF ds seg_pos] obtain d wal rp where
    o: "wal_open (dp_crc dp) (wal_segment_bytes cfg) (index_watermark idx) (w_dir w) = Ok (d, wal, rp)" by blast
  show ?thesis
    using op by (auto simp: engine_open_def lake_calls [OF st] o memtable_set_new_def frozen_pos pg_query_def split: option.splits)
qed

section \<open>Flushing\<close>

lemma publish_state:
  assumes st: "lake_st h idx w" and h: "hist_ok (dp_crc dp) h" and ne: "above (index_watermark idx) h \<noteq> []"
    and m: "mt_holds (dp_sm dp) m (above (index_watermark idx) h)" and bs: "batches (dp_sm dp) m = Ok bs"
    and staged: "map_of (w_stage w) path = Some bs"
    and pub: "publish (dp_f64 dp) (dp_tape dp) (dp_proc dp) (cfg_duckdb cfg) (cfg_catalog cfg) (cfg_s3 cfg) path lat pos w = (x, w', pos')"
  shows "\<exists>idx'. lake_st h idx' w' \<and> (idx' = idx \<or> index_watermark idx' = lsn_max h) \<and>
           (x = Ok () \<longrightarrow> index_watermark idx' = lsn_max h \<and> length idx' = Suc (length idx))"
    and "w_dir w' = w_dir w" and "grows (w_getr w) (w_getr w')"
proof -
  let ?script = "publish_script (cfg_catalog cfg) (cfg_s3 cfg) path"
  obtain y where pr: "dp_proc dp (duckdb_binary (cfg_duckdb cfg)) [''-unsigned'', '':memory:''] ?script w = (y, w')"
    and ok: "x = Ok () \<longrightarrow> (\<exists>err. y = Exited (Some 0) err)"
    using pub by (cases "dp_proc dp (duckdb_binary (cfg_duckdb cfg)) [''-unsigned'', '':memory:''] ?script w")
      (auto simp: publish_def run_duckdb_def split: proc_end.splits res.splits if_splits)
  have good: "lake_good (w_db w) (w_getr w)" using st by (simp add: lake_state_def)
  from process_law [OF pr staged staged_above(2) [OF h ne m bs] good]
  have law: "w_dir w' = w_dir w" "lake_good (w_db w') (w_getr w')"
    "w_db w' = w_db w \<and> w_getr w' = w_getr w \<or> snapshot_added dp size_of lake bs w w'"
    "x = Ok () \<longrightarrow> snapshot_added dp size_of lake bs w w'" using ok by blast+
  show "w_dir w' = w_dir w" by (rule law(1))
  note commit = lake_commit [OF st h ne m bs _ law(2)]
  have same: "lake_st h idx w'" if "w_db w' = w_db w \<and> w_getr w' = w_getr w" using st that by (simp add: lake_state_def)
  show "grows (w_getr w) (w_getr w')" using law(3) commit grows_refl by metis
  show "\<exists>idx'. lake_st h idx' w' \<and> (idx' = idx \<or> index_watermark idx' = lsn_max h) \<and>
      (x = Ok () \<longrightarrow> index_watermark idx' = lsn_max h \<and> length idx' = Suc (length idx))"
  proof (cases "snapshot_added dp size_of lake bs w w'")
    case True
    from commit [OF this] obtain f where "lake_st h (f # idx) w'" "index_watermark (f # idx) = lsn_max h" by blast
    then show ?thesis by (intro exI [of _ "f # idx"]) simp
  qed (use law(3,4) same in blast)
qed

lemma up_ok_dest:
  assumes "up_ok dp size_of cfg lake lake_good h (e, w)"
  shows "hist_ok (dp_crc dp) h" "lake_st h (en_index e) w"
    "wal_state (dp_crc dp) h (index_watermark (en_index e)) (w_dir w) (en_wal e)"
    "en_cfg e = cfg" "en_lake e = lake" "ms_frozen (en_memtables e) = []"
    "mt_holds (dp_sm dp) (snd (ms_active (en_memtables e))) (above (index_watermark (en_index e)) h)"
    "set_inv (en_memtables e)" "en_next_lsn e = lsn_max h + 1"
    "reader_inv (w_getr w) (pq_load (dp_pq dp)) size_of (en_reader e)"
    "index_watermark (en_index e) \<le> lsn_max h"
  using assms by (simp_all add: up_ok_def lake_state_def)

text \<open>Freezing hands over what is above the watermark, and nothing when nothing is.\<close>

lemma freeze_none:
  assumes "up_ok dp size_of cfg lake lake_good h (e, w)" and "above (index_watermark (en_index e)) h = []"
  shows "freeze (dp_sm dp) (en_memtables e) = Ok (en_memtables e, None)"
  using up_ok_dest(6-8) [OF assms(1)] assms(2) skipmap.mt_holds_is_empty [OF skip] by (simp add: freeze_def set_inv_def)

lemma freeze_some:
  assumes "up_ok dp size_of cfg lake lake_good h (e, w)" and "above (index_watermark (en_index e)) h \<noteq> []"
  shows "\<exists>ms. freeze (dp_sm dp) (en_memtables e) = Ok (ms, Some (ms_active (en_memtables e)))"
  using up_ok_dest(6-8) [OF assms(1)] assms(2) skipmap.mt_holds_is_empty [OF skip] by (simp add: freeze_def set_inv_def Let_def)

text \<open>The state in the middle of a flush: the memtable is frozen and the catalog may have moved on.\<close>

lemma safe_midway:
  assumes "up_ok dp size_of cfg lake lake_good h (e, w)" and "en_wal e' = en_wal e" and "w_dir w' = w_dir w"
    and "lake_st h idx' w'" and "idx' = en_index e \<or> index_watermark idx' = lsn_max h"
  shows "safe dp size_of cfg lake lake_good h (e', w')"
proof -
  note u = up_ok_dest [OF assms(1)]
  have "wal_state (dp_crc dp) h (index_watermark idx') (w_dir w) (en_wal e)"
    using assms(5) u(3) wal_state_mono [OF u(3,11)] by auto
  then show ?thesis using assms(2-4) u(1) by (auto simp: safe_def)
qed

text \<open>After the last step: the frozen memtable is retired and everything is published.\<close>

lemma retired_up:
  assumes up: "up_ok dp size_of cfg lake lake_good h (e, w)"
    and fr: "freeze (dp_sm dp) (en_memtables e) = Ok (ms, Some frozen)"
    and ix: "lake_st h idx' w'" "index_watermark idx' = lsn_max h" and grow: "grows (w_getr w) (w_getr w')"
    and wal: "wal_state (dp_crc dp) h (lsn_max h) d wal"
  shows "up_ok dp size_of cfg lake lake_good h
           (e\<lparr>en_pos := pos, en_index := idx', en_wal := wal, en_memtables := retire frozen ms\<rparr>, w'\<lparr>w_dir := d, w_stage := st\<rparr>)"
proof -
  note u = up_ok_dest [OF up]
  have inv: "set_inv ms" using freeze_inv [OF u(8) fr] .
  have fz: "ms_frozen ms = [frozen]" "snd (ms_active ms) = memtable_new (dp_sm dp)"
    using fr u(6) by (auto simp: freeze_def Let_def split: if_splits)
  have "ms_frozen (retire frozen ms) = []" using retire_newest [OF inv, of "[]"] fz(1) by simp
  moreover have "mt_holds (dp_sm dp) (snd (ms_active (retire frozen ms))) (above (lsn_max h) h)"
    using fz(2) by (simp add: retire_def above_max)
  ultimately show ?thesis
    using u(1,4,5,9) ix wal retire_inv [OF inv] reader_inv_grows [OF grow u(10)] by (simp add: up_ok_def)
qed

text \<open>What follows a publish that succeeded: the states a crash may leave, and the one at the end.\<close>

lemma published_tail:
  assumes up: "up_ok dp size_of cfg lake lake_good h (e, w)"
    and fr: "freeze (dp_sm dp) (en_memtables e) = Ok (ms, Some frozen)"
    and ix: "lake_st h idx' w2" "index_watermark idx' = lsn_max h" and grow: "grows (w_getr w) (w_getr w2)"
    and dir: "w_dir w2 = w_dir w"
    and e3: "e3 = e\<lparr>en_memtables := ms, en_pos := pos, en_index := idx'\<rparr>"
  shows "\<exists>d wal. truncate_through (lsn_max h) (w_dir w2, en_wal e) = Ok (d, wal) \<and>
     safe dp size_of cfg lake lake_good h (e3, w2) \<and> safe dp size_of cfg lake lake_good h (e3\<lparr>en_wal := wal\<rparr>, w2\<lparr>w_dir := d\<rparr>) \<and>
     up_ok dp size_of cfg lake lake_good h
       (e3\<lparr>en_wal := wal, en_memtables := retire frozen ms\<rparr>, w2\<lparr>w_dir := d, w_stage := st\<rparr>)"
proof -
  note u = up_ok_dest [OF up]
  have "wal_state (dp_crc dp) h (lsn_max h) (w_dir w2) (en_wal e)"
    unfolding dir using wal_state_mono [OF u(3,11)] by simp
  from truncate_state [OF this] obtain d wal where
    tr: "truncate_through (lsn_max h) (w_dir w2, en_wal e) = Ok (d, wal)" "wal_state (dp_crc dp) h (lsn_max h) d wal" by blast
  have "safe dp size_of cfg lake lake_good h (e3, w2)" using safe_midway [OF up, of e3 w2 idx'] ix dir by (simp add: e3)
  moreover have "safe dp size_of cfg lake lake_good h (e3\<lparr>en_wal := wal\<rparr>, w2\<lparr>w_dir := d\<rparr>)"
    using u(1) ix tr(2) by (auto simp: safe_def e3)
  ultimately show ?thesis using tr(1) retired_up [OF up fr ix grow tr(2), of pos st] by (simp add: e3)
qed

text \<open>The first two calls of a flush, each with any outcome.\<close>

lemma stage_publish:
  assumes up: "up_ok dp size_of cfg lake lake_good h (e, w)" and ne: "above (index_watermark (en_index e)) h \<noteq> []"
    and sg: "stage (dp_sm dp) (dp_aw dp) (snd (ms_active (en_memtables e))) path w = (r1, w1)"
    and pb: "publish (dp_f64 dp) (dp_tape dp) (dp_proc dp) (cfg_duckdb cfg) (cfg_catalog cfg) (cfg_s3 cfg) path lat pos w1 = (r2, w2, pos')"
  shows "lake_st h (en_index e) w1 \<and> w_dir w1 = w_dir w \<and>
     (r1 = Ok () \<longrightarrow> w_dir w2 = w_dir w \<and> grows (w_getr w) (w_getr w2) \<and>
        (\<exists>idx'. lake_st h idx' w2 \<and> (idx' = en_index e \<or> index_watermark idx' = lsn_max h) \<and>
           (r2 = Ok () \<longrightarrow> index_watermark idx' = lsn_max h \<and> length idx' = Suc (length (en_index e)))))"
proof -
  note u = up_ok_dest [OF up]
  from stage_law [OF sg] obtain st bs where stg: "w1 = w\<lparr>w_stage := st\<rparr>"
    "batches (dp_sm dp) (snd (ms_active (en_memtables e))) = Ok bs" "r1 = Ok () \<longrightarrow> map_of st path = Some bs"
    by blast
  have st1: "lake_st h (en_index e) w1" using u(2) by (simp add: stg)
  then show ?thesis using publish_state [OF st1 u(1) ne u(7) stg(2) _ pb] stg by auto
qed

lemma flush_write_state:
  assumes up: "up_ok dp size_of cfg lake lake_good h (e, w)" and ne: "above (index_watermark (en_index e)) h \<noteq> []"
    and fr: "freeze (dp_sm dp) (en_memtables e) = Ok (ms, Some frozen)"
    and fw: "flush_write dp io crash frozen (lsn_max h) (e\<lparr>en_memtables := ms\<rparr>, w) = (x, s')"
  shows "safe dp size_of cfg lake lake_good h s' \<and>
         (crash = None \<and> x = Ok y \<longrightarrow> up_ok dp size_of cfg lake lake_good h s' \<and> y = Committed (lsn_max h) 1 \<and>
            index_watermark (en_index (fst s')) = lsn_max h \<and> file_count (fst s') = Suc (file_count e))"
proof -
  note u = up_ok_dest [OF up]
  let ?path = "staging_path (en_staging_dir e) (lsn_max h)"
  have fz: "frozen = ms_active (en_memtables e)" using fr by (auto simp: freeze_def Let_def split: if_splits)
  note keep = safe_midway [OF up]
  obtain r1 w1 where sg: "stage (dp_sm dp) (dp_aw dp) (snd frozen) ?path w = (r1, w1)" by fastforce
  obtain r2 w2 pos where pb: "publish (dp_f64 dp) (dp_tape dp) (dp_proc dp) (cfg_duckdb cfg) (cfg_catalog cfg) (cfg_s3 cfg)
      ?path (cfg_latency cfg) (en_pos e) w1 = (r2, w2, pos)" by (metis prod_cases3)
  note sp = stage_publish [OF up ne sg [unfolded fz] pb]
  let ?e1 = "e\<lparr>en_memtables := ms\<rparr>"
  note unf = flush_write_def Let_def
  show ?thesis
  proof (cases "r1 = Ok () \<and> crash \<noteq> Some AfterWrite")
    case False
    have "s' = (?e1, w1) \<and> (crash = None \<longrightarrow> (\<forall>y. x \<noteq> Ok y))"
      using fw False by (cases r1) (auto simp: unf sg)
    then show ?thesis using keep [of ?e1 w1 "en_index e"] sp by auto
  next
    case t1: True
    with sp obtain idx' where dir: "w_dir w2 = w_dir w" and grow: "grows (w_getr w) (w_getr w2)" and ix: "lake_st h idx' w2" "idx' = en_index e \<or> index_watermark idx' = lsn_max h"
      "r2 = Ok () \<longrightarrow> index_watermark idx' = lsn_max h \<and> length idx' = Suc (length (en_index e))" by blast
    let ?e2 = "?e1\<lparr>en_pos := pos\<rparr>"
    show ?thesis
    proof (cases "r2 = Ok () \<and> pg_index io = None")
      case False
      have "s' = (?e2, w2) \<and> (\<forall>y. x \<noteq> Ok y)"
        using fw False t1 by (cases r2) (auto simp: unf sg u(4,5) pb publish_index_def lake_calls [OF ix(1)] pg_query_def split: option.splits)
      then show ?thesis using keep [of ?e2 w2 idx'] ix dir by simp
    next
      case t2: True
      let ?e3 = "?e2\<lparr>en_index := idx'\<rparr>"
      have wm: "index_watermark idx' = lsn_max h" using ix(3) t2 by simp
      let ?st = "AList.delete ?path (w_stage w2)"
      from published_tail [OF up fr ix(1) wm grow dir refl, of pos ?st] obtain d wal where
        tr: "truncate_through (lsn_max h) (w_dir w2, en_wal e) = Ok (d, wal)"
        and s: "safe dp size_of cfg lake lake_good h (?e3, w2)"
          "safe dp size_of cfg lake lake_good h (?e3\<lparr>en_wal := wal\<rparr>, w2\<lparr>w_dir := d\<rparr>)"
          "up_ok dp size_of cfg lake lake_good h (?e3\<lparr>en_wal := wal, en_memtables := retire frozen ms\<rparr>, w2\<lparr>w_dir := d, w_stage := ?st\<rparr>)"
        by auto
      have "s' = (?e3, w2) \<and> crash \<noteq> None \<or> s' = (?e3\<lparr>en_wal := wal\<rparr>, w2\<lparr>w_dir := d\<rparr>) \<and> crash \<noteq> None \<or>
          s' = (?e3\<lparr>en_wal := wal, en_memtables := retire frozen ms\<rparr>, w2\<lparr>w_dir := d, w_stage := ?st\<rparr>) \<and> x = Ok (Committed (lsn_max h) 1)"
        using fw t1 t2 by (auto simp: unf sg u(4,5) pb publish_index_def lake_calls [OF ix(1)] pg_query_def
          truncate_wal_def tr retire_frozen_def split: if_splits)
      then show ?thesis using s up_safe wm ix(3) t2 by (auto simp: file_count_def)
    qed
  qed
qed

lemma plan_above:
  assumes "above wm h \<noteq> []" and "mt_holds (dp_sm dp) m (above wm h)"
  shows "plan_flush (dp_sm dp) wm m = PlanWrite (lsn_max h)"
  using assms(1) above_lsn_max [OF assms(1)] skipmap.mt_holds_is_empty [OF skip assms(2)] mt_holds_max_lsn [OF assms(2)]
  by (simp add: plan_flush_def Let_def not_le)

lemma flush_state:
  assumes up: "up_ok dp size_of cfg lake lake_good h (e, w)" and fl: "flush_inner dp io crash (e, w) = (x, s')"
  shows "safe dp size_of cfg lake lake_good h s'"
    and "crash = None \<Longrightarrow> x = Ok y \<Longrightarrow>
           up_ok dp size_of cfg lake lake_good h s' \<and> y = (if above (index_watermark (en_index e)) h = [] then Empty else Committed (lsn_max h) 1) \<and>
           above (index_watermark (en_index (fst s'))) h = [] \<and>
           file_count (fst s') = file_count e + (if above (index_watermark (en_index e)) h = [] then 0 else 1)"
proof -
  note u = up_ok_dest [OF up]
  let ?wm = "index_watermark (en_index e)"
  have "safe dp size_of cfg lake lake_good h s' \<and>
      (crash = None \<and> x = Ok y \<longrightarrow>
         up_ok dp size_of cfg lake lake_good h s' \<and> y = (if above ?wm h = [] then Empty else Committed (lsn_max h) 1) \<and>
         above (index_watermark (en_index (fst s'))) h = [] \<and>
         file_count (fst s') = file_count e + (if above ?wm h = [] then 0 else 1))"
  proof (cases "above ?wm h = []")
    case True
    then have "s' = (e, w)" "x = Ok Empty" using fl freeze_none [OF up] by (simp_all add: flush_inner_def)
    then show ?thesis using up up_safe [OF up] True by simp
  next
    case False
    from freeze_some [OF up this] obtain ms where fr: "freeze (dp_sm dp) (en_memtables e) = Ok (ms, Some (ms_active (en_memtables e)))" ..
    let ?e1 = "e\<lparr>en_memtables := ms\<rparr>"
    have s1: "safe dp size_of cfg lake lake_good h (?e1, w)" using u(1,2,3) by (auto simp: safe_def)
    show ?thesis
    proof (cases "crash = Some BeforeWrite \<or> pg_watermark io \<noteq> None")
      case True
      have "s' = (?e1, w) \<and> (crash = None \<longrightarrow> (\<forall>y. x \<noteq> Ok y))"
        using fl True by (auto simp: flush_inner_def Let_def fr u(5) lake_calls [OF u(2)] pg_query_def split: if_splits option.splits)
      then show ?thesis using s1 by auto
    next
      case f2: False
      have "flush_write dp io crash (ms_active (en_memtables e)) (lsn_max h) (?e1, w) = (x, s')"
        using fl f2 by (simp add: flush_inner_def Let_def fr u(5) lake_calls [OF u(2)] pg_query_def plan_above [OF False u(7)])
      from flush_write_state [OF up False fr this, of y] False above_max show ?thesis by auto
    qed
  qed
  then show "safe dp size_of cfg lake lake_good h s'"
    and "crash = None \<Longrightarrow> x = Ok y \<Longrightarrow>
           up_ok dp size_of cfg lake lake_good h s' \<and> y = (if above ?wm h = [] then Empty else Committed (lsn_max h) 1) \<and>
           above (index_watermark (en_index (fst s'))) h = [] \<and>
           file_count (fst s') = file_count e + (if above ?wm h = [] then 0 else 1)" by blast+
qed

section \<open>Writing\<close>

text \<open>The record is in the log and in the memtable; what is left is the flush that may be due.\<close>

lemma write_appended:
  assumes up: "up_ok dp size_of cfg lake lake_good h (e, w)"
    and mk: "hist_ok (dp_crc dp) (h @ [mk (lsn_max h + 1)])" "r_lsn (mk (lsn_max h + 1)) = lsn_max h + 1"
  shows "\<exists>e1 w1. up_ok dp size_of cfg lake lake_good (h @ [mk (lsn_max h + 1)]) (e1, w1) \<and>
           (en_index e1 = en_index e \<and> ms_max_bytes (en_memtables e1) = ms_max_bytes (en_memtables e) \<and>
            w_db w1 = w_db w \<and> w_getr w1 = w_getr w) \<and>
           (\<forall>io. with_lsn dp io mk (e, w) =
              (if should_freeze (en_memtables e1)
               then (case engine_flush dp io (e1, w1) of
                       (Ok _, s) \<Rightarrow> (Ok (lsn_max h + 1), s) | (Err x, s) \<Rightarrow> (Err x, s) | (Panic p, s) \<Rightarrow> (Panic p, s))
               else (Ok (lsn_max h + 1), (e1, w1))))"
proof -
  note u = up_ok_dest [OF up]
  let ?r = "mk (lsn_max h + 1)" and ?wm = "index_watermark (en_index e)"
  let ?h = "h @ [?r]"
  have lt: "lsn_max h < r_lsn ?r" using next_lsn(1) [OF u(1)] mk(2) by simp
  then have mx: "lsn_max ?h = r_lsn ?r" by (simp add: less_imp_le)
  have wlt: "?wm < r_lsn ?r" using u(11) lt by (rule order.strict_trans1)
  from append_state(1) [OF u(3) u(1) mk(1) mk(2) u(11)] obtain d wal where
    a: "wal_append (dp_crc dp) [?r] (w_dir w, en_wal e) = Ok (d, wal)" "wal_state (dp_crc dp) ?h ?wm d wal" by blast
  let ?e1 = "e\<lparr>en_next_lsn := lsn_max h + 1 + 1, en_wal := wal, en_memtables := set_insert (dp_sm dp) ?r (en_memtables e)\<rparr>"
  let ?w1 = "w\<lparr>w_dir := d\<rparr>"
  have "lake_st ?h (en_index e) ?w1" using lake_st_snoc [OF u(2) lt] by simp
  moreover have "mt_holds (dp_sm dp) (snd (ms_active (set_insert (dp_sm dp) ?r (en_memtables e)))) (above ?wm ?h)"
    using mt_holds_insert [OF u(7)] wlt by (simp add: set_insert_def)
  moreover have "lsn_max ?h + 1 = lsn_max h + 1 + 1" by (simp only: mx mk(2))
  moreover have "ms_frozen (set_insert (dp_sm dp) ?r (en_memtables e)) = []" using u(6) by (simp add: set_insert_def)
  ultimately have up1: "up_ok dp size_of cfg lake lake_good ?h (?e1, ?w1)"
    unfolding up_ok_def prod.case using u(4,5,10) mk(1) a(2) set_insert_inv [OF u(8)] by (intro conjI) simp_all
  have "with_lsn dp io mk (e, w) =
      (if should_freeze (en_memtables ?e1)
       then (case engine_flush dp io (?e1, ?w1) of
               (Ok _, s) \<Rightarrow> (Ok (lsn_max h + 1), s) | (Err x, s) \<Rightarrow> (Err x, s) | (Panic p, s) \<Rightarrow> (Panic p, s))
       else (Ok (lsn_max h + 1), (?e1, ?w1)))" for io
    by (simp add: with_lsn_def engine_append_def Let_def a(1) u(9) split: prod.splits res.splits)
  moreover have "ms_max_bytes (set_insert (dp_sm dp) ?r (en_memtables e)) = ms_max_bytes (en_memtables e)" by (simp add: set_insert_def)
  ultimately show ?thesis using up1 by (intro exI [of _ ?e1] exI [of _ ?w1]) simp
qed

lemma write_state:
  assumes up: "up_ok dp size_of cfg lake lake_good h (e, w)"
    and mk: "hist_ok (dp_crc dp) (h @ [mk (lsn_max h + 1)])" "r_lsn (mk (lsn_max h + 1)) = lsn_max h + 1"
    and wr: "with_lsn dp io mk (e, w) = (x, s')"
  shows "safe dp size_of cfg lake lake_good (h @ [mk (lsn_max h + 1)]) s'"
    and "x = Ok l \<Longrightarrow> l = lsn_max h + 1 \<and> up_ok dp size_of cfg lake lake_good (h @ [mk (lsn_max h + 1)]) s'"
proof -
  from write_appended [OF up, where mk = mk, OF mk] obtain e1 w1 where
    up1: "up_ok dp size_of cfg lake lake_good (h @ [mk (lsn_max h + 1)]) (e1, w1)"
    and run: "with_lsn dp io mk (e, w) =
      (if should_freeze (en_memtables e1)
       then (case engine_flush dp io (e1, w1) of
               (Ok _, s) \<Rightarrow> (Ok (lsn_max h + 1), s) | (Err x, s) \<Rightarrow> (Err x, s) | (Panic p, s) \<Rightarrow> (Panic p, s))
       else (Ok (lsn_max h + 1), (e1, w1)))" by blast
  show "safe dp size_of cfg lake lake_good (h @ [mk (lsn_max h + 1)]) s'"
    and "x = Ok l \<Longrightarrow> l = lsn_max h + 1 \<and> up_ok dp size_of cfg lake lake_good (h @ [mk (lsn_max h + 1)]) s'"
    using wr flush_state [OF up1, of io None] up1 up_safe [OF up1] unfolding run engine_flush_def
    by (auto split: if_splits prod.splits res.splits)
qed

section \<open>Reading\<close>

lemma get_levels:
  assumes files: "list_all2 (entry_serves (dp_pq dp) (w_getr w) (dp_path_from dp) (lake_bucket lake) size_of) (en_index e) files"
    and rd: "reader_inv (w_getr w) (pq_load (dp_pq dp)) size_of (en_reader e)" and lake: "en_lake e = lake"
  shows "\<exists>n st. engine_get dp k (e, w)
                = (Ok (case (files_view files ++ set_view (dp_sm dp) (en_memtables e)) k of Some (Put, v) \<Rightarrow> Some v | _ \<Rightarrow> None), ((charge_gets dp n e)\<lparr>en_reader := st\<rparr>, w)) \<and>
           reader_inv (w_getr w) (pq_load (dp_pq dp)) size_of st"
proof -
  from columnar_get_spec [OF files sched rd, of k] obtain st where
    c: "columnar_get (dp_pq dp) (w_getr w) (dp_sched dp) (dp_path_from dp) (lake_bucket lake) (en_index e) k (en_reader e)
          = (Ok (lookup_of (files_view files k)), st)" "reader_inv (w_getr w) (pq_load (dp_pq dp)) size_of st" by blast
  have g: "set_get (dp_sm dp) (en_memtables e) k = lookup_of (set_view (dp_sm dp) (en_memtables e) k)"
    using level.get_view [OF skipmap.set_level [OF skip]] by metis
  let ?n = "length (columnar_requests (dp_pq dp) (w_getr w) (dp_sched dp) (dp_path_from dp) (lake_bucket lake) (en_index e) k (en_reader e))"
  show ?thesis
  proof (cases "set_view (dp_sm dp) (en_memtables e) k")
    case None
    then show ?thesis using c lake
      by (intro exI [of _ ?n] exI [of _ st]) (auto simp: engine_get_def Let_def g lookup_of_def map_add_def split: option.splits op.splits)
  next
    case (Some y)
    then show ?thesis using rd
      by (intro exI [of _ 0] exI [of _ "en_reader e"]) (auto simp: engine_get_def g lookup_of_def map_add_def split: op.splits prod.splits)
  qed
qed

lemma get_state:
  assumes up: "up_ok dp size_of cfg lake lake_good h (e, w)"
  shows "\<exists>n st. engine_get dp k (e, w) = (Ok (case apply_log h k of Some (Put, v) \<Rightarrow> Some v | _ \<Rightarrow> None), ((charge_gets dp n e)\<lparr>en_reader := st\<rparr>, w)) \<and>
           up_ok dp size_of cfg lake lake_good h ((charge_gets dp n e)\<lparr>en_reader := st\<rparr>, w)"
proof -
  note u = up_ok_dest [OF up]
  let ?wm = "index_watermark (en_index e)"
  from u(2) obtain files where
    files: "list_all2 (entry_serves (dp_pq dp) (w_getr w) (dp_path_from dp) (lake_bucket lake) size_of) (en_index e) files"
    "files_view files = apply_log (upto ?wm h)" unfolding lake_state_def by blast
  have srt: "sorted_wrt (<) (map r_lsn h)" using u(1) by (simp add: hist_ok_def)
  have "set_view (dp_sm dp) (en_memtables e) = apply_log (above ?wm h)"
    using u(6) skipmap.mt_holds_view [OF skip u(7) above_sorted [OF srt]] by (simp add: set_view_def)
  then have "files_view files ++ set_view (dp_sm dp) (en_memtables e) = apply_log h"
    using files(2) split_history [OF srt, of ?wm] by (metis apply_log_append)
  with get_levels [OF files(1) u(10,5), of k] up show ?thesis by (auto simp: up_ok_def)
qed

end

end
