(* ===== verification/Engine_Tasks.thy ===== *)
theory Engine_Tasks
  imports Engine_Recovery
begin

text \<open>
  The three steps of a write. A \<open>put\<close> or \<open>delete\<close> of \<^verbatim>\<open>src/src/engine.rs\<close> takes its sequence number, appends under the lock
  of the log, and inserts into the memtable; other tasks may run between these three steps. \<open>task_step\<close> is
  one of them, \<open>interleave\<close> any schedule of any number of writers with flushes between their steps, \<open>calm\<close>
  one without flushes. A flush is one step here.

  Shown: what the tasks of a schedule contribute to the sequence numbers, to the memtable and to the log,
  which receives the records in the order of the appends and not of their numbers; and that the engine
  stands at the end of a calm schedule, or after a crash in the middle of it, as if the writes had come one
  after the other.
\<close>

lemma r_lsn_simps [simp]: "r_lsn (record_put k l v) = l" "r_lsn (record_delete k l) = l"
  by (simp_all add: record_put_def record_delete_def)

section \<open>Tasks\<close>

datatype request = PutReq bytes bytes | DeleteReq bytes

fun request_record :: "request \<Rightarrow> lsn \<Rightarrow> wrecord" where
  "request_record (PutReq k v) l = record_put k l v"
| "request_record (DeleteReq k) l = record_delete k l"

datatype task = Waiting request | Numbered wrecord | Logged wrecord | Acked wrecord | Rejected

definition take_lsn :: "request \<Rightarrow> ('m, 'f) state \<Rightarrow> wrecord \<times> ('m, 'f) state" where
  "take_lsn q = (\<lambda>(e, w). (request_record q (en_next_lsn e), (e\<lparr>en_next_lsn := en_next_lsn e + 1\<rparr>, w)))"

definition append_log :: "('m, 'f) deps \<Rightarrow> wrecord \<Rightarrow> ('m, 'f) state \<Rightarrow> unit res \<times> ('m, 'f) state" where
  "append_log dp r = (\<lambda>(e, w).
     case wal_append (dp_crc dp) [r] (w_dir w, en_wal e) of
       Ok (d, wal) \<Rightarrow> (Ok (), (e\<lparr>en_wal := wal\<rparr>, w\<lparr>w_dir := d\<rparr>))
     | Err x \<Rightarrow> (Err x, (e, w))
     | Panic p \<Rightarrow> (Err (Config (''wal append panicked: '' @ p)), (e, w)))"

definition append_visible :: "('m, 'f) deps \<Rightarrow> pg_io \<Rightarrow> wrecord \<Rightarrow> ('m, 'f) state \<Rightarrow> unit res \<times> ('m, 'f) state" where
  "append_visible dp io r = (\<lambda>(e, w).
     let e1 = e\<lparr>en_memtables := set_insert (dp_sm dp) r (en_memtables e)\<rparr>
     in if should_freeze (en_memtables e1)
        then (case engine_flush dp io (e1, w) of
                (Ok _, s) \<Rightarrow> (Ok (), s) | (Err x, s) \<Rightarrow> (Err x, s) | (Panic p, s) \<Rightarrow> (Panic p, s))
        else (Ok (), (e1, w)))"

fun task_step :: "('m, 'f) deps \<Rightarrow> pg_io \<Rightarrow> task \<Rightarrow> ('m, 'f) state \<Rightarrow> task \<times> ('m, 'f) state" where
  "task_step dp io (Waiting q) s = (case take_lsn q s of (r, s1) \<Rightarrow> (Numbered r, s1))"
| "task_step dp io (Numbered r) s =
     (case append_log dp r s of (Ok _, s1) \<Rightarrow> (Logged r, s1) | (_, s1) \<Rightarrow> (Rejected, s1))"
| "task_step dp io (Logged r) s =
     (case append_visible dp io r s of (Ok _, s1) \<Rightarrow> (Acked r, s1) | (_, s1) \<Rightarrow> (Rejected, s1))"
| "task_step dp io (Acked r) s = (Acked r, s)"
| "task_step dp io Rejected s = (Rejected, s)"

inductive interleave ::
    "('m, 'f) deps \<Rightarrow> task list \<Rightarrow> ('m, 'f) state \<Rightarrow> task list \<Rightarrow> ('m, 'f) state \<Rightarrow> bool"
  for dp :: "('m, 'f) deps" and ts0 :: "task list" and s0 :: "('m, 'f) state" where
  begin_tasks: "interleave dp ts0 s0 ts0 s0"
| run_task: "interleave dp ts0 s0 ts s \<Longrightarrow> i < length ts \<Longrightarrow> task_step dp io (ts ! i) s = (t, s') \<Longrightarrow>
    interleave dp ts0 s0 (ts[i := t]) s'"
| run_flush: "interleave dp ts0 s0 ts s \<Longrightarrow> engine_flush dp io s = (x, s') \<Longrightarrow> interleave dp ts0 s0 ts s'"

section \<open>Sequence numbers\<close>

text \<open>What the tasks of a list contribute, and how it changes when one of them does.\<close>

fun waits :: "task \<Rightarrow> request list" where
  "waits (Waiting q) = [q]"
| "waits _ = []"

fun task_records :: "task \<Rightarrow> wrecord list" where
  "task_records (Numbered r) = [r]"
| "task_records (Logged r) = [r]"
| "task_records (Acked r) = [r]"
| "task_records _ = []"

fun acked_by :: "task \<Rightarrow> wrecord list" where
  "acked_by (Acked r) = [r]"
| "acked_by _ = []"

definition all_tasks :: "(task \<Rightarrow> 'a list) \<Rightarrow> task list \<Rightarrow> 'a list" where
  "all_tasks f ts = concat (map f ts)"

lemma all_tasks_update:
  "i < length ts \<Longrightarrow> mset (all_tasks f (ts[i := t])) + mset (f (ts ! i)) = mset (all_tasks f ts) + mset (f t)"
proof (induction ts arbitrary: i)
  case (Cons t0 ts)
  then show ?case by (cases i) (auto simp: all_tasks_def ac_simps)
qed simp

lemma all_tasks_same: "i < length ts \<Longrightarrow> f t = f (ts ! i) \<Longrightarrow> mset (all_tasks f (ts[i := t])) = mset (all_tasks f ts)"
  using all_tasks_update [of i ts f t] by simp

lemma waits_le: "length (all_tasks waits ts) \<le> length ts"
proof (induction ts)
  case (Cons t ts)
  then show ?case by (cases t) (simp_all add: all_tasks_def)
qed (simp add: all_tasks_def)

lemma flush_next_lsn: "engine_flush dp io (e, w) = (x, (e', w')) \<Longrightarrow> en_next_lsn e' = en_next_lsn e"
proof -
  have pi: "publish_index dp io (e, w) = (x, (e', w')) \<Longrightarrow> en_next_lsn e' = en_next_lsn e" for e w x e' w'
    by (auto simp: publish_index_def split: res.splits)
  have tw: "truncate_wal wm (e, w) = (x, (e', w')) \<Longrightarrow> en_next_lsn e' = en_next_lsn e" for wm e w x e' w'
    by (auto simp: truncate_wal_def split: res.splits)
  have fw: "flush_write dp io None frozen wm (e, w) = (x, (e', w')) \<Longrightarrow> en_next_lsn e' = en_next_lsn e" for frozen wm e w x e' w'
    unfolding flush_write_def Let_def
    by (auto simp: retire_frozen_def split: res.splits prod.splits if_splits dest!: pi tw)
  assume "engine_flush dp io (e, w) = (x, (e', w'))"
  then show ?thesis
    by (auto simp: engine_flush_simps retire_frozen_def
        split: res.splits plan.splits prod.splits option.splits if_splits dest!: tw fw)
qed

lemma append_log_next_lsn: "append_log dp r (e, w) = (x, (e', w')) \<Longrightarrow> en_next_lsn e' = en_next_lsn e \<and> en_memtables e' = en_memtables e"
  by (auto simp: append_log_def split: res.splits)

lemma append_visible_next_lsn: "append_visible dp io r (e, w) = (x, (e', w')) \<Longrightarrow> en_next_lsn e' = en_next_lsn e"
  unfolding append_visible_def Let_def by (auto split: if_splits res.splits prod.splits dest!: flush_next_lsn)

definition numbers_ok :: "lsn \<Rightarrow> task list \<Rightarrow> ('m, 'f) state \<Rightarrow> bool" where
  "numbers_ok n0 ts s \<longleftrightarrow>
     distinct (map r_lsn (all_tasks task_records ts)) \<and>
     (\<forall>r \<in> set (all_tasks task_records ts). n0 \<le> r_lsn r \<and> r_lsn r < en_next_lsn (fst s)) \<and>
     unat (en_next_lsn (fst s)) + length (all_tasks waits ts) = unat n0 + length ts"

lemma distinct_submset: "mset xs \<subseteq># mset ys \<Longrightarrow> distinct ys \<Longrightarrow> distinct xs"
proof -
  assume "mset xs \<subseteq># mset ys" and d: "distinct ys"
  then obtain zs where "mset ys = mset (xs @ zs)" by (metis ex_mset mset_append subset_mset.less_eqE)
  with d show "distinct xs" by (metis distinct_append mset_eq_imp_distinct_iff)
qed

lemma numbers_ok_cong:
  assumes "numbers_ok n0 ts s" and "en_next_lsn (fst s') = en_next_lsn (fst s)" and "length ts' = length ts"
    and "mset (all_tasks waits ts') = mset (all_tasks waits ts)"
    and "mset (all_tasks task_records ts') \<subseteq># mset (all_tasks task_records ts)"
  shows "numbers_ok n0 ts' s'"
proof -
  have "mset (map r_lsn (all_tasks task_records ts')) \<subseteq># mset (map r_lsn (all_tasks task_records ts))"
    using image_mset_subseteq_mono [OF assms(5), of r_lsn] by simp
  then have "distinct (map r_lsn (all_tasks task_records ts'))"
    using assms(1) unfolding numbers_ok_def by (blast intro: distinct_submset)
  moreover have "set (all_tasks task_records ts') \<subseteq> set (all_tasks task_records ts)"
    using set_mset_mono [OF assms(5)] by simp
  moreover have "length (all_tasks waits ts') = length (all_tasks waits ts)" using assms(4) by (rule mset_eq_length)
  ultimately show ?thesis using assms(1-3) unfolding numbers_ok_def by auto
qed

lemma numbers_ok_take:
  assumes ok: "numbers_ok n0 ts (e, w)" and i: "i < length ts" "ts ! i = Waiting q" and b: "unat n0 + length ts < 2 ^ 64"
  shows "numbers_ok n0 (ts[i := Numbered (request_record q (en_next_lsn e))]) (e\<lparr>en_next_lsn := en_next_lsn e + 1\<rparr>, w)"
proof -
  let ?l = "en_next_lsn e" and ?ts = "ts[i := Numbered (request_record q (en_next_lsn e))]"
  have lsn: "r_lsn (request_record q ?l) = ?l" by (cases q) simp_all
  have new: "mset (all_tasks task_records ?ts) = add_mset (request_record q ?l) (mset (all_tasks task_records ts))"
    using all_tasks_update [OF i(1), of task_records] i(2) by simp
  have w: "add_mset q (mset (all_tasks waits ?ts)) = mset (all_tasks waits ts)"
    using all_tasks_update [OF i(1), of waits "Numbered (request_record q ?l)"] i(2) by simp
  then have wl: "Suc (length (all_tasks waits ?ts)) = length (all_tasks waits ts)" by (metis size_add_mset size_mset)
  have un: "unat ?l + length (all_tasks waits ts) = unat n0 + length ts" using ok by (simp add: numbers_ok_def)
  then have "unat ?l + 1 < 2 ^ 64" using wl b by linarith
  then have nx: "unat (?l + 1) = Suc (unat ?l)" using unat_add_lem [where x = ?l and y = 1] by simp
  have set: "set (all_tasks task_records ?ts) = insert (request_record q ?l) (set (all_tasks task_records ts))"
    using arg_cong [OF new, of set_mset] by simp
  have old: "n0 \<le> r_lsn r \<and> r_lsn r < ?l" if "r \<in> set (all_tasks task_records ts)" for r
    using ok that by (simp add: numbers_ok_def)
  have "mset (map r_lsn (all_tasks task_records ?ts)) = mset (?l # map r_lsn (all_tasks task_records ts))"
    using new lsn by simp
  moreover have "distinct (?l # map r_lsn (all_tasks task_records ts))"
    using ok old by (force simp: numbers_ok_def)
  ultimately have "distinct (map r_lsn (all_tasks task_records ?ts))" by (metis mset_eq_imp_distinct_iff)
  moreover have "?l < ?l + 1" using nx by (simp add: word_less_nat_alt)
  moreover have "n0 \<le> ?l" using un waits_le [of ts] by (simp add: word_le_nat_alt)
  ultimately show ?thesis using old set lsn nx un wl unfolding numbers_ok_def
    by (auto intro: order.strict_trans)
qed

lemma task_step_numbers:
  assumes ok: "numbers_ok n0 ts s" and i: "i < length ts" and b: "unat n0 + length ts < 2 ^ 64"
    and st: "task_step dp io (ts ! i) s = (t, s')"
  shows "numbers_ok n0 (ts[i := t]) s'"
proof -
  obtain e w e' w' where s: "s = (e, w)" "s' = (e', w')" by (cases s; cases s')
  have keep: "numbers_ok n0 (ts[i := t]) s'"
    if "en_next_lsn e' = en_next_lsn e" "waits (ts ! i) = []" "waits t = []"
       "task_records t = task_records (ts ! i) \<or> task_records t = []"
  proof -
    have "mset (all_tasks task_records (ts[i := t])) \<subseteq># mset (all_tasks task_records ts)"
      using that(4) all_tasks_update [OF i, of task_records t] by (metis add_right_imp_eq add.right_neutral mset_zero_iff mset_subset_eq_add_left subset_mset.order_refl)
    with numbers_ok_cong [OF ok, of s' "ts[i := t]"] that(1-3) s all_tasks_same [OF i, of waits t] show ?thesis by simp
  qed
  show ?thesis
  proof (cases "ts ! i")
    case (Waiting q)
    then show ?thesis using numbers_ok_take [OF ok [unfolded s] i Waiting b] st s by (simp add: take_lsn_def)
  next
    case (Numbered r)
    then show ?thesis using st s keep by (auto split: prod.splits res.splits dest!: append_log_next_lsn)
  next
    case (Logged r)
    then show ?thesis using st s keep by (auto split: prod.splits res.splits dest!: append_visible_next_lsn)
  next
    case (Acked r)
    with st have "t = ts ! i" "s' = s" by simp_all
    with ok show ?thesis by simp
  next
    case Rejected
    with st have "t = ts ! i" "s' = s" by simp_all
    with ok show ?thesis by simp
  qed
qed

lemma interleave_numbers:
  assumes "interleave dp (map Waiting qs) s0 ts s" and "unat (en_next_lsn (fst s0)) + length qs < 2 ^ 64"
  shows "numbers_ok (en_next_lsn (fst s0)) ts s \<and> length ts = length qs"
  using assms
proof (induction rule: interleave.induct)
  case begin_tasks
  have "all_tasks task_records (map Waiting qs) = []" "length (all_tasks waits (map Waiting qs)) = length qs"
    by (induction qs) (simp_all add: all_tasks_def)
  then show ?case by (simp add: numbers_ok_def)
next
  case (run_task ts s i io t s')
  then show ?case using task_step_numbers [of _ ts s i dp io t s'] by simp
next
  case (run_flush ts s io x s')
  obtain e w e' w' where "s = (e, w)" "s' = (e', w')" by (cases s; cases s')
  with run_flush flush_next_lsn [of dp io e w x e' w'] show ?case by (auto intro: numbers_ok_cong)
qed

section \<open>Schedules without a flush\<close>

text \<open>Schedules in which no flush happens.\<close>

inductive calm ::
    "('m, 'f) deps \<Rightarrow> task list \<Rightarrow> ('m, 'f) state \<Rightarrow> task list \<Rightarrow> ('m, 'f) state \<Rightarrow> bool"
  for dp :: "('m, 'f) deps" and ts0 :: "task list" and s0 :: "('m, 'f) state" where
  calm_begin: "calm dp ts0 s0 ts0 s0"
| calm_task: "calm dp ts0 s0 ts (e, w) \<Longrightarrow> i < length ts \<Longrightarrow> task_step dp io (ts ! i) (e, w) = (t, s') \<Longrightarrow>
    (\<And>r. ts ! i = Logged r \<Longrightarrow> \<not> should_freeze (set_insert (dp_sm dp) r (en_memtables e))) \<Longrightarrow>
    calm dp ts0 s0 (ts[i := t]) s'"

lemma calm_interleave: "calm dp ts0 s0 ts s \<Longrightarrow> interleave dp ts0 s0 ts s"
  by (induction rule: calm.induct) (blast intro: interleave.intros)+

lemma calm_memtables:
  assumes "calm dp (map Waiting qs) s0 ts s"
  shows "\<exists>rs. en_memtables (fst s) = fold (set_insert (dp_sm dp)) rs (en_memtables (fst s0)) \<and> mset rs = mset (all_tasks acked_by ts)"
  using assms
proof (induction rule: calm.induct)
  case calm_begin
  have "all_tasks acked_by (map Waiting qs) = []" by (induction qs) (simp_all add: all_tasks_def)
  then show ?case by (intro exI [of _ "[]"]) simp
next
  case (calm_task ts e w i io t s')
  then obtain rs where rs: "en_memtables e = fold (set_insert (dp_sm dp)) rs (en_memtables (fst s0))" "mset rs = mset (all_tasks acked_by ts)"
    by auto
  obtain e' w' where s': "s' = (e', w')" by (cases s')
  show ?case
  proof (cases "\<exists>r. ts ! i = Logged r")
    case True
    then obtain r where r: "ts ! i = Logged r" by blast
    from calm_task(4) [OF r] calm_task(3) r have
      t: "t = Acked r" "en_memtables e' = set_insert (dp_sm dp) r (en_memtables e)"
      by (auto simp: s' append_visible_def Let_def)
    have "mset (all_tasks acked_by (ts[i := t])) = mset (rs @ [r])"
      using all_tasks_update [OF calm_task(2), of acked_by t] rs(2) r t(1) by simp
    then show ?thesis using rs(1) t(2) by (intro exI [of _ "rs @ [r]"]) (simp add: s')
  next
    case False
    then have "en_memtables e' = en_memtables e" "acked_by t = acked_by (ts ! i)"
      using calm_task(3) by (cases "ts ! i"; auto simp: s' take_lsn_def split: prod.splits res.splits dest!: append_log_next_lsn)+
    with rs all_tasks_same [OF calm_task(2), of acked_by t] show ?thesis by (auto simp: s')
  qed
qed

section \<open>What a schedule leaves in the log\<close>

fun logged_by :: "task \<Rightarrow> wrecord list" where
  "logged_by (Logged r) = [r]"
| "logged_by (Acked r) = [r]"
| "logged_by _ = []"

lemma all_tasks_sub: "(\<And>t. mset (f t) \<subseteq># mset (g t)) \<Longrightarrow> mset (all_tasks f ts) \<subseteq># mset (all_tasks g ts)"
  by (induction ts) (auto simp: all_tasks_def intro: subset_mset.add_mono)

lemma logged_sub: "mset (all_tasks logged_by ts) \<subseteq># mset (all_tasks task_records ts)"
proof (rule all_tasks_sub)
  show "mset (logged_by t) \<subseteq># mset (task_records t)" for t by (cases t) simp_all
qed

lemma numbers_ok_sub:
  assumes "numbers_ok n0 ts s" and "mset xs \<subseteq># mset (all_tasks task_records ts)"
  shows "distinct (map r_lsn xs)" and "\<forall>r \<in> set xs. n0 \<le> r_lsn r \<and> r_lsn r < en_next_lsn (fst s)"
proof -
  have "mset (map r_lsn xs) \<subseteq># mset (map r_lsn (all_tasks task_records ts))"
    using image_mset_subseteq_mono [OF assms(2), of r_lsn] by simp
  then show "distinct (map r_lsn xs)" using assms(1) unfolding numbers_ok_def by (blast intro: distinct_submset)
  show "\<forall>r \<in> set xs. n0 \<le> r_lsn r \<and> r_lsn r < en_next_lsn (fst s)"
    using assms(1) set_mset_mono [OF assms(2)] by (auto simp: numbers_ok_def)
qed

text \<open>A number that was taken and not yet logged is that of no logged record.\<close>

lemma numbered_fresh:
  assumes num: "numbers_ok n0 ts s" and i: "i < length ts" "ts ! i = Numbered r"
  shows "r_lsn r \<notin> r_lsn ` set (all_tasks logged_by ts)" and "n0 \<le> r_lsn r"
proof -
  let ?ts = "ts[i := Rejected]"
  have rec: "mset (all_tasks task_records ts) = add_mset r (mset (all_tasks task_records ?ts))"
    using all_tasks_update [OF i(1), of task_records Rejected] i(2) by simp
  have "mset (all_tasks logged_by ts) = mset (all_tasks logged_by ?ts)"
    using all_tasks_same [OF i(1), of logged_by Rejected] i(2) by simp
  then have "mset (r # all_tasks logged_by ts) \<subseteq># mset (all_tasks task_records ts)"
    using logged_sub [of ?ts] by (simp add: rec)
  from numbers_ok_sub [OF num this] show "r_lsn r \<notin> r_lsn ` set (all_tasks logged_by ts)" "n0 \<le> r_lsn r" by auto
qed

text \<open>
  The log in the middle of a schedule: the records in the order of the appends, each segment named by a
  number from before the schedule or of a record in it.
\<close>

definition log_in_flight :: "(bytes \<Rightarrow> u32) \<Rightarrow> wrecord list \<Rightarrow> lsn \<Rightarrow> wrecord list \<Rightarrow> dir \<Rightarrow> wal \<Rightarrow> bool" where
  "log_in_flight crc h wm xs d wal \<longleftrightarrow>
     (\<exists>ps. wal_inv crc d wal ps \<and> covers crc (h @ xs) wm (log_of ps)) \<and>
     (\<forall>l \<in> set (wal_starts wal). l \<le> lsn_max h \<or> l \<in> r_lsn ` set xs)"

lemma log_in_flight_perm: "log_in_flight crc h wm xs d wal \<Longrightarrow> mset xs = mset ys \<Longrightarrow> log_in_flight crc h wm ys d wal"
proof -
  assume l: "log_in_flight crc h wm xs d wal" and m: "mset xs = mset ys"
  have "covers crc (h @ ys) wm rs" if "covers crc (h @ xs) wm rs" for rs using covers_perm [OF that _ refl, of "h @ ys"] m by simp
  then show "log_in_flight crc h wm ys d wal" using l mset_eq_setD [OF m] unfolding log_in_flight_def by auto
qed

lemma log_in_flight_append:
  assumes l: "log_in_flight crc h wm xs d wal" and r: "lsn_max h < r_lsn r" "r_lsn r \<notin> r_lsn ` set xs" "wm \<le> lsn_max h"
    and fit: "fits r" "length (frames crc (h @ xs @ [r])) < 2 ^ 64"
  shows "\<exists>d' wal'. wal_append crc [r] (d, wal) = Ok (d', wal') \<and> log_in_flight crc h wm (xs @ [r]) d' wal'"
proof -
  from l obtain ps where ps: "wal_inv crc d wal ps" "covers crc (h @ xs) wm (log_of ps)"
    and st: "\<forall>l \<in> set (wal_starts wal). l \<le> lsn_max h \<or> l \<in> r_lsn ` set xs" unfolding log_in_flight_def by blast
  have "r_lsn r \<notin> set (wal_starts wal)" using st r(1,2) by (auto simp: not_le)
  from append_covers(2) [OF ps order.strict_trans1 [OF r(3,1)] fit(1) _ this] fit(2) obtain d' wal' ps' where
    "wal_append crc [r] (d, wal) = Ok (d', wal')" "wal_inv crc d' wal' ps'" "covers crc ((h @ xs) @ [r]) wm (log_of ps')"
    "set (wal_starts wal') \<subseteq> insert (r_lsn r) (set (wal_starts wal))" by auto
  then show ?thesis using st unfolding log_in_flight_def by (intro exI [of _ d'] exI [of _ wal']) auto
qed

lemma log_in_flight_state:
  assumes "log_in_flight crc h wm xs d wal" and "mset xs = mset ys"
  shows "wal_state crc (h @ ys) wm d wal"
proof -
  from log_in_flight_perm [OF assms] obtain ps where ps: "wal_inv crc d wal ps" "covers crc (h @ ys) wm (log_of ps)"
    and st: "\<forall>l \<in> set (wal_starts wal). l \<le> lsn_max h \<or> l \<in> r_lsn ` set ys" unfolding log_in_flight_def by blast
  have "\<forall>l \<in> set (wal_starts wal). l \<le> lsn_max (h @ ys)" using st lsn_max_ge [of _ ys] by (auto simp: max.coboundedI1 max.coboundedI2)
  from names_okI [OF this] ps show ?thesis unfolding wal_state_def by blast
qed

text \<open>What a step of a task leaves alone.\<close>

definition same_level :: "('m, 'f) state \<Rightarrow> ('m, 'f) state \<Rightarrow> bool" where
  "same_level s s' \<longleftrightarrow>
     en_cfg (fst s') = en_cfg (fst s) \<and> en_lake (fst s') = en_lake (fst s) \<and> en_index (fst s') = en_index (fst s) \<and>
     en_reader (fst s') = en_reader (fst s) \<and> w_db (snd s') = w_db (snd s) \<and> w_getr (snd s') = w_getr (snd s)"

lemma calm_step_frame:
  assumes "task_step dp io t (e, w) = (t', (e', w'))"
    and "\<forall>r. t = Logged r \<longrightarrow> \<not> should_freeze (set_insert (dp_sm dp) r (en_memtables e))"
  shows "same_level (e, w) (e', w')"
    and "en_wal e' = en_wal e \<and> w_dir w' = w_dir w \<and> logged_by t' = logged_by t \<or>
         (\<exists>r. t = Numbered r \<and> t' = Logged r \<and> wal_append (dp_crc dp) [r] (w_dir w, en_wal e) = Ok (w_dir w', en_wal e'))"
  using assms
  by (cases t; auto simp: same_level_def take_lsn_def append_log_def append_visible_def Let_def split: res.splits prod.splits)+

lemma calm_frame: "calm dp ts0 s0 ts s \<Longrightarrow> same_level s0 s"
proof (induction rule: calm.induct)
  case (calm_task ts e w i io t s')
  have "\<forall>r. ts ! i = Logged r \<longrightarrow> \<not> should_freeze (set_insert (dp_sm dp) r (en_memtables e))" using calm_task(4) by blast
  with calm_step_frame(1) [of dp io "ts ! i" e w t "fst s'" "snd s'"] calm_task(3,5) show ?case by (simp add: same_level_def)
qed (simp add: same_level_def)

lemma calm_log:
  assumes c: "calm dp (map Waiting qs) (e0, w0) ts s" and b: "unat (en_next_lsn e0) + length qs < 2 ^ 64"
    and start: "log_in_flight (dp_crc dp) h wm [] (w_dir w0) (en_wal e0)"
    and n0: "lsn_max h < en_next_lsn e0" "wm \<le> lsn_max h"
    and fit: "list_all fits (all_tasks logged_by ts)" "length (frames (dp_crc dp) (h @ all_tasks logged_by ts)) < 2 ^ 64"
  shows "log_in_flight (dp_crc dp) h wm (all_tasks logged_by ts) (w_dir (snd s)) (en_wal (fst s))"
  using c fit
proof (induction rule: calm.induct)
  case calm_begin
  have "all_tasks logged_by (map Waiting qs) = []" by (induction qs) (simp_all add: all_tasks_def)
  then show ?case using start by simp
next
  case (calm_task ts e w i io t s')
  obtain e' w' where s': "s' = (e', w')" by (cases s')
  have num: "numbers_ok (en_next_lsn e0) ts (e, w)"
    using interleave_numbers [OF calm_interleave [OF calm_task(1)]] b by simp
  have "\<forall>r. ts ! i = Logged r \<longrightarrow> \<not> should_freeze (set_insert (dp_sm dp) r (en_memtables e))" using calm_task(4) by blast
  from calm_step_frame(2) [OF calm_task(3) [unfolded s'] this] show ?case
  proof (elim disjE exE conjE)
    assume same: "en_wal e' = en_wal e" "w_dir w' = w_dir w" "logged_by t = logged_by (ts ! i)"
    have m: "mset (all_tasks logged_by (ts[i := t])) = mset (all_tasks logged_by ts)"
      using all_tasks_same [OF calm_task(2) same(3)] .
    then have "mset (h @ all_tasks logged_by (ts[i := t])) = mset (h @ all_tasks logged_by ts)" by simp
    from frames_length_perm [OF this, of "dp_crc dp"] mset_eq_setD [OF m] calm_task.prems calm_task.IH
    have "log_in_flight (dp_crc dp) h wm (all_tasks logged_by ts) (w_dir w) (en_wal e)" by (simp add: list_all_iff)
    from log_in_flight_perm [OF this m [symmetric]] same(1,2) show ?thesis by (simp add: s')
  next
    fix r
    assume r: "ts ! i = Numbered r" "t = Logged r" "wal_append (dp_crc dp) [r] (w_dir w, en_wal e) = Ok (w_dir w', en_wal e')"
    have m: "mset (all_tasks logged_by (ts[i := t])) = mset (all_tasks logged_by ts @ [r])"
      using all_tasks_update [OF calm_task(2), of logged_by t] r by simp
    then have "mset (h @ all_tasks logged_by (ts[i := t])) = mset (h @ all_tasks logged_by ts @ [r])" by simp
    from frames_length_perm [OF this, of "dp_crc dp"] calm_task.prems(2)
    have len: "length (frames (dp_crc dp) (h @ all_tasks logged_by ts @ [r])) < 2 ^ 64" by simp
    have fits: "list_all fits (all_tasks logged_by ts)" "fits r"
      using mset_eq_setD [OF m] calm_task.prems(1) by (simp_all add: list_all_iff)
    have "log_in_flight (dp_crc dp) h wm (all_tasks logged_by ts) (w_dir w) (en_wal e)"
      using calm_task.IH fits(1) len by (simp add: frames_append_length)
    from log_in_flight_append [OF this _ numbered_fresh(1) [OF num calm_task(2) r(1)] n0(2) fits(2) len]
      numbered_fresh(2) [OF num calm_task(2) r(1)] n0(1) r(3)
    have "log_in_flight (dp_crc dp) h wm (all_tasks logged_by ts @ [r]) (w_dir w') (en_wal e')" by auto
    from log_in_flight_perm [OF this m [symmetric]] show ?thesis by (simp add: s')
  qed
qed

section \<open>The engine after a schedule\<close>

definition all_acked :: "task list \<Rightarrow> bool" where
  "all_acked ts \<longleftrightarrow> list_all (\<lambda>t. acked_by t \<noteq> []) ts"

lemma all_acked_records:
  "all_acked ts \<Longrightarrow> all_tasks task_records ts = all_tasks acked_by ts \<and> all_tasks logged_by ts = all_tasks acked_by ts \<and>
     all_tasks waits ts = [] \<and> length (all_tasks acked_by ts) = length ts"
proof (induction ts)
  case (Cons t ts)
  then show ?case by (cases t) (simp_all add: all_tasks_def all_acked_def)
qed (simp add: all_tasks_def)

text \<open>When every writer is done, the numbers are used up to the counter.\<close>

lemma numbers_complete:
  assumes num: "numbers_ok n0 ts s" and ack: "all_acked ts" and ne: "ts \<noteq> []"
  shows "lsn_max (all_tasks acked_by ts) + 1 = en_next_lsn (fst s)"
proof -
  let ?xs = "all_tasks acked_by ts" and ?n = "en_next_lsn (fst s)"
  note ra = all_acked_records [OF ack]
  have d: "distinct (map r_lsn ?xs)" and rng: "\<forall>r \<in> set ?xs. n0 \<le> r_lsn r \<and> r_lsn r < ?n"
    and cnt: "unat ?n = unat n0 + length ts" using num ra by (simp_all add: numbers_ok_def)
  have "distinct (map (unat \<circ> r_lsn) ?xs)" using d by (auto simp: distinct_map inj_on_def word_unat_eq_iff)
  then have "card ((unat \<circ> r_lsn) ` set ?xs) = length ?xs" by (metis distinct_card length_map set_map)
  then have "card ((unat \<circ> r_lsn) ` set ?xs) = card {unat n0..<unat ?n}" using ra cnt by simp
  moreover have "(unat \<circ> r_lsn) ` set ?xs \<subseteq> {unat n0..<unat ?n}" using rng by (auto simp: word_le_nat_alt word_less_nat_alt)
  ultimately have eq: "(unat \<circ> r_lsn) ` set ?xs = {unat n0..<unat ?n}" by (intro card_subset_eq) simp_all
  have pos: "unat n0 < unat ?n" using cnt ne by (cases ts) simp_all
  then have "unat ?n - 1 \<in> (unat \<circ> r_lsn) ` set ?xs" unfolding eq by auto
  then obtain r where r: "r \<in> set ?xs" "unat (r_lsn r) = unat ?n - 1" by auto
  have "unat x \<le> unat ?n - 1" if "x < ?n" for x using that by (simp add: word_less_nat_alt)
  then have "\<forall>x \<in> set ?xs. r_lsn x \<le> r_lsn r" using rng r(2) by (simp add: word_le_nat_alt)
  then have "lsn_max ?xs = r_lsn r" using lsn_max_ge [OF r(1)] by (simp add: order.antisym lsn_max_le_iff)
  moreover have "unat (r_lsn r + 1) = unat ?n"
    using r(2) pos unat_add_lem [where x = "r_lsn r" and y = 1] unsigned_less [where 'a = nat, of ?n] by simp
  ultimately show ?thesis by (metis word_unat_eq_iff)
qed

lemma fold_set_insert_inv: "set_inv ms \<Longrightarrow> set_inv (fold (set_insert sm) rs ms)"
  by (induction rs arbitrary: ms) (simp_all add: set_insert_inv)

context engine_env
begin

lemma calm_numbers:
  assumes up: "up_ok dp size_of cfg lake lake_good h (e0, w0)" and b: "unat (en_next_lsn e0) + length qs < 2 ^ 64"
    and c: "calm dp (map Waiting qs) (e0, w0) ts s"
  shows "numbers_ok (en_next_lsn e0) ts s"
    and "mset xs \<subseteq># mset (all_tasks task_records ts) \<Longrightarrow> \<forall>r \<in> set xs. lsn_max h < r_lsn r"
proof -
  show num: "numbers_ok (en_next_lsn e0) ts s" using interleave_numbers [OF calm_interleave [OF c]] b by simp
  note u = up_ok_dest [OF up]
  have "lsn_max h < en_next_lsn e0" using next_lsn(1) [OF u(1)] u(9) by simp
  then show "\<forall>r \<in> set xs. lsn_max h < r_lsn r" if "mset xs \<subseteq># mset (all_tasks task_records ts)"
    using numbers_ok_sub(2) [OF num that] by (blast intro: order.strict_trans2)
qed

lemma calm_wal:
  assumes up: "up_ok dp size_of cfg lake lake_good h (e0, w0)" and b: "unat (en_next_lsn e0) + length qs < 2 ^ 64"
    and nm: "start_lsn (active (en_wal e0)) \<le> lsn_max h" and c: "calm dp (map Waiting qs) (e0, w0) ts (e, w)"
    and h: "hist_ok (dp_crc dp) (h @ sort_key r_lsn (all_tasks logged_by ts))"
  shows "wal_state (dp_crc dp) (h @ sort_key r_lsn (all_tasks logged_by ts)) (index_watermark (en_index e0)) (w_dir w) (en_wal e)"
proof -
  note u = up_ok_dest [OF up]
  let ?xs = "all_tasks logged_by ts" and ?wm = "index_watermark (en_index e0)"
  have "\<forall>l \<in> set (wal_starts (en_wal e0)). l \<le> lsn_max h"
    using wal_state_names [OF u(3)] nm by (auto simp: names_ok_def wal_starts_def)
  then have start: "log_in_flight (dp_crc dp) h ?wm [] (w_dir w0) (en_wal e0)"
    using u(3) unfolding wal_state_def log_in_flight_def by auto
  have lt: "lsn_max h < en_next_lsn e0" using next_lsn(1) [OF u(1)] u(9) by simp
  have m: "mset (sort_key r_lsn ?xs) = mset ?xs" by simp
  have "mset (h @ sort_key r_lsn ?xs) = mset (h @ ?xs)" by simp
  from frames_length_perm [OF this, of "dp_crc dp"] h have "list_all fits ?xs" "length (frames (dp_crc dp) (h @ ?xs)) < 2 ^ 64"
    by (simp_all add: hist_ok_def list_all_iff)
  from calm_log [OF c b start lt u(11) this] log_in_flight_state [OF _ m [symmetric]] show ?thesis by simp
qed

lemma calm_lake:
  assumes up: "up_ok dp size_of cfg lake lake_good h (e0, w0)" and c: "calm dp (map Waiting qs) (e0, w0) ts (e, w)"
    and rs: "\<forall>r \<in> set rs. lsn_max h < r_lsn r"
  shows "lake_st (h @ rs) (en_index e0) w"
proof -
  have "lake_st h (en_index e0) w" using up_ok_dest(2) [OF up] calm_frame [OF c] by (simp add: lake_state_def same_level_def)
  then show ?thesis using rs by (rule lake_st_append)
qed

text \<open>
  A schedule without a flush may be cut between any two steps: what was logged by then survives, as if it had
  been written in the order of the numbers.
\<close>

lemma calm_safe:
  assumes up: "up_ok dp size_of cfg lake lake_good h (e0, w0)" and b: "unat (en_next_lsn e0) + length qs < 2 ^ 64"
    and nm: "start_lsn (active (en_wal e0)) \<le> lsn_max h" and c: "calm dp (map Waiting qs) (e0, w0) ts (e, w)"
    and h: "hist_ok (dp_crc dp) (h @ sort_key r_lsn (all_tasks logged_by ts))"
  shows "safe dp size_of cfg lake lake_good (h @ sort_key r_lsn (all_tasks logged_by ts)) (e, w)"
proof -
  have "lake_st (h @ sort_key r_lsn (all_tasks logged_by ts)) (en_index e0) w"
    using calm_lake [OF up c] calm_numbers(2) [OF up b c logged_sub] by simp
  with calm_wal [OF assms] h show ?thesis by (auto simp: safe_def)
qed

text \<open>And when every writer has been acknowledged, the engine is as after the same writes in that order.\<close>

lemma calm_up:
  assumes up: "up_ok dp size_of cfg lake lake_good h (e0, w0)" and b: "unat (en_next_lsn e0) + length qs < 2 ^ 64"
    and nm: "start_lsn (active (en_wal e0)) \<le> lsn_max h" and c: "calm dp (map Waiting qs) (e0, w0) ts (e, w)"
    and h: "hist_ok (dp_crc dp) (h @ sort_key r_lsn (all_tasks acked_by ts))" and ack: "all_acked ts"
  shows "up_ok dp size_of cfg lake lake_good (h @ sort_key r_lsn (all_tasks acked_by ts)) (e, w)"
proof -
  note u = up_ok_dest [OF up]
  let ?xs = "all_tasks acked_by ts" and ?wm = "index_watermark (en_index e0)"
  note ra = all_acked_records [OF ack]
  have gt: "\<forall>r \<in> set (sort_key r_lsn ?xs). lsn_max h < r_lsn r" using calm_numbers(2) [OF up b c, of ?xs] ra by simp
  from calm_frame [OF c] have fr: "en_cfg e = cfg" "en_lake e = lake" "en_index e = en_index e0" "en_reader e = en_reader e0"
    "w_getr w = w_getr w0" using u(4,5) by (simp_all add: same_level_def)
  from calm_memtables [OF c] obtain rs where rs: "en_memtables e = fold (set_insert (dp_sm dp)) rs (en_memtables e0)" "mset rs = mset ?xs" by auto
  have "above ?wm (h @ sort_key r_lsn ?xs) = above ?wm h @ sort_key r_lsn ?xs"
    using gt u(11) by (auto simp: above_def filter_id_conv intro: order.strict_trans1)
  then have "mt_holds (dp_sm dp) (snd (ms_active (en_memtables e))) (above ?wm (h @ sort_key r_lsn ?xs))"
    using mt_holds_fold [OF u(7), of rs] rs by (simp add: fold_set_insert)
  moreover have "en_next_lsn e = lsn_max (h @ sort_key r_lsn ?xs) + 1"
  proof (cases "ts = []")
    case True
    then show ?thesis using calm_numbers(1) [OF up b c] u(9) interleave_numbers [OF calm_interleave [OF c]] b
      by (simp add: all_tasks_def numbers_ok_def word_unat_eq_iff)
  next
    case False
    then have "?xs \<noteq> []" using ra by (metis length_0_conv)
    then obtain r where "r \<in> set ?xs" by (cases ?xs) auto
    then have "lsn_max h \<le> lsn_max ?xs" using gt lsn_max_ge [of r ?xs] by (auto intro: less_imp_le order.strict_trans2)
    moreover have "lsn_max (sort_key r_lsn ?xs) = lsn_max ?xs" by (rule lsn_max_perm) simp
    ultimately show ?thesis using numbers_complete [OF calm_numbers(1) [OF up b c] ack False] by simp
  qed
  moreover have "wal_state (dp_crc dp) (h @ sort_key r_lsn ?xs) ?wm (w_dir w) (en_wal e)"
    using calm_wal [OF up b nm c] h ra by simp
  ultimately show ?thesis
    using h calm_lake [OF up c gt] u(6,10) fr fold_set_insert_inv [OF u(8)] rs(1) by (simp add: up_ok_def fold_set_insert)
qed

end

end
