(* ===== verification/Memory_Lake.thy ===== *)
theory Memory_Lake
  imports Engine_Env
begin

text \<open>
  A lake in memory: concrete functions for everything the engine calls outside the repository, which
  together meet the contract \<open>engine_env\<close>. A data file holds the frames of its rows, the footer gives the
  exact bounds of its one row group, DuckDB finds the staged file its script names, writes the object
  and registers it with its statistics. The interpretation shows that the contract can be met, and
  witnesses run the engine on it.
\<close>

section \<open>Data files\<close>

definition rec_of :: "staged_row \<Rightarrow> wrecord" where
  "rec_of = (\<lambda>(k, l, c, v). \<lparr>r_key = k, r_lsn = word_of_int l, r_op = (if c = 1 then Delete else Put),
     r_value = (case v of Some x \<Rightarrow> x | None \<Rightarrow> [])\<rparr>)"

definition object_bytes :: "staged_row list \<Rightarrow> bytes" where
  "object_bytes rows = frames (\<lambda>_. 0) (map rec_of rows)"

definition rows_in :: "bytes \<Rightarrow> row list" where
  "rows_in b = (case replay_loop (\<lambda>_. 0) b [] 0 0 [] of
     Ok (rs, _) \<Rightarrow> map (\<lambda>r. (r_key r, r_op r, r_value r)) rs | _ \<Rightarrow> [])"

lemma rows_in_object:
  assumes "\<forall>r \<in> set rows. row_len r < 2 ^ 32"
  shows "rows_in (object_bytes rows) = map lake_row rows"
proof -
  have "fits (rec_of r)" if "r \<in> set rows" for r
    using assms that by (cases r) (auto simp: fits_def rec_of_def row_len_def split: option.splits)
  then have "list_all fits (map rec_of rows)" by (simp add: list_all_iff)
  from replay_loop_frames [OF this, of "\<lambda>_. 0" "[]" "[]" "[]" 0 "[]"]
  have "rows_in (object_bytes rows) = map (\<lambda>r. (r_key r, r_op r, r_value r)) (map rec_of rows)"
    by (simp add: rows_in_def object_bytes_def)
  then show ?thesis by (auto simp: rec_of_def lake_row_def)
qed

definition mem_size :: u64 where
  "mem_size = 1"

definition mem_pq :: parquet_api where
  "mem_pq =
     \<lparr>pq_load = (\<lambda>n. Fetch (0, n) (\<lambda>b. Ret \<lparr>row_groups = [[exact_stats (rows_in b)]]\<rparr>)),
      pq_arrow = (\<lambda>_. None),
      pq_rows = (\<lambda>m j cols. Fetch (0, mem_size) (\<lambda>b. Ret [sample_batch (rows_in b)]))\<rparr>"

lemma mem_serves:
  assumes "\<forall>r. getr path r = Inr b" and "sorted_wrt (<) (map fst (rows_in b))" and "rows_in b \<noteq> []"
  shows "file_serves mem_pq getr path n (rows_in b)"
proof -
  let ?rows = "rows_in b"
  have "group_bounds [[exact_stats ?rows]] [?rows]" using exact_group_bounds [of "[?rows]"] assms(2,3) by simp
  moreover have "distinct (map fst ?rows)" using assms(2) by (simp add: strict_sorted_iff)
  ultimately show ?thesis
    unfolding file_serves_def using assms(1)
    by (intro exI [of _ "\<lparr>row_groups = [[exact_stats ?rows]]\<rparr>"] exI [of _ "[?rows]"])
      (auto simp: mem_pq_def intro!: exI [of _ "[?rows]"] sample_batch_shows)
qed

section \<open>The catalog\<close>

definition to_text :: "bytes \<Rightarrow> string" where
  "to_text bs = map (\<lambda>b. char_of (unat b)) bs"

definition of_text :: "string \<Rightarrow> bytes option" where
  "of_text s = Some (map (\<lambda>c. of_nat (of_char c)) s)"

lemma of_text_to_text [simp]: "of_text (to_text bs) = Some bs"
proof -
  have "of_nat (of_char (char_of (unat b) :: char)) = b" for b :: u8
  proof -
    have "unat b < 256" using unsigned_less [where 'a = nat, of b] by simp
    then show ?thesis by simp
  qed
  then show ?thesis by (simp add: of_text_def to_text_def comp_def)
qed

definition mem_lake :: duck_lake where
  "mem_lake = \<lparr>lake_table_id = 1, lake_bucket = ''warehouse'', key_prefix = ''hg/main/kv/''\<rparr>"

definition mem_path :: "nat \<Rightarrow> string" where
  "mem_path i = key_prefix mem_lake @ show_nat i"

definition staged_max :: "staged_row list \<Rightarrow> nat" where
  "staged_max rows = nat (fold max (map (\<lambda>r. fst (snd r)) rows) 0)"

definition mem_file :: "nat \<Rightarrow> staged_row list \<Rightarrow> new_file" where
  "mem_file i rows =
     \<lparr>nf_file = \<lparr>df_id = int i, df_table_id = 1, df_path = show_nat i, df_size = 1, df_records = int (length rows), df_end = None\<rparr>,
      nf_stats =
        [\<lparr>cs_file_id = int i, cs_table_id = 1, cs_column_id = FIELD_ID_PK,
          cs_min = Some (to_text (fst (hd rows))), cs_max = Some (to_text (fst (last rows)))\<rparr>,
         \<lparr>cs_file_id = int i, cs_table_id = 1, cs_column_id = FIELD_ID_LSN,
          cs_min = None, cs_max = Some (show_nat (staged_max rows))\<rparr>],
      nf_bloom = []\<rparr>"

definition mem_entry :: "nat \<Rightarrow> staged_row list \<Rightarrow> file_entry" where
  "mem_entry i rows =
     \<lparr>location = mem_path i, fe_watermark = of_nat (staged_max rows), pk_min = fst (hd rows), pk_max = fst (last rows),
      file_size = 1, record_count = of_nat (length rows), fe_bloom = None\<rparr>"

definition mem_good :: "catalog_db \<Rightarrow> get_range \<Rightarrow> bool" where
  "mem_good db getr \<longleftrightarrow>
     (\<forall>f \<in> set (db_files db). df_id f < int (length (db_files db))) \<and>
     (\<forall>s \<in> set (db_stats db). cs_file_id s < int (length (db_files db))) \<and>
     (\<forall>b \<in> set (db_blooms db). br_file_id b < int (length (db_files db))) \<and>
     (\<forall>i \<ge> length (db_files db). \<forall>r. \<exists>m. getr (mem_path i) r = Inl m)"

lemma mem_path_inj [simp]: "mem_path i = mem_path j \<longleftrightarrow> i = j"
proof
  assume "mem_path i = mem_path j"
  then have "dec_value (show_nat i) = dec_value (show_nat j)" by (simp add: mem_path_def)
  then show "i = j" by (simp add: dec_value_show_nat)
qed simp

section \<open>DuckDB and the writer\<close>

definition mem_commit :: "stage_batch list \<Rightarrow> world \<Rightarrow> world" where
  "mem_commit bs w =
     (let i = length (db_files (w_db w)); rows = staged_rows bs
      in w\<lparr>w_db := committed_file (mem_file i rows) (w_db w),
           w_getr := (w_getr w)(mem_path i := (\<lambda>_. Inr (object_bytes rows)))\<rparr>)"

definition mem_proc :: "catalog_config \<Rightarrow> s3_config \<Rightarrow> world process" where
  "mem_proc cat s3 bin args script w =
     (case find (\<lambda>(p, bs). publish_script cat s3 p = script) (w_stage w) of
        None \<Rightarrow> (Exited (Some 1) ''IO Error: no files found'', w)
      | Some (p, bs) \<Rightarrow> (Exited (Some 0) [], mem_commit bs w))"

definition mem_aw :: "world arrow_writer" where
  "mem_aw =
     \<lparr>aw_create = (\<lambda>path sch w. (Ok (), w\<lparr>w_stage := AList.update path [] (w_stage w)\<rparr>)),
      aw_write = (\<lambda>path b w. case map_of (w_stage w) path of
          None \<Rightarrow> (Err (Io ''no such file''), w)
        | Some bs \<Rightarrow> (Ok (), w\<lparr>w_stage := AList.update path (bs @ [b]) (w_stage w)\<rparr>)),
      aw_close = (\<lambda>path w. (Ok (), w))\<rparr>"

definition mem_cfg :: "unit config" where
  "mem_cfg =
     \<lparr>wal_dir = ''wal'', wal_segment_bytes = 64, memtable_max_bytes = 1000, max_frozen_memtables = 2,
      cfg_s3 = \<lparr>s3_endpoint = ''http://s3'', s3_bucket = ''warehouse'', access_key = ''a'', secret_key = ''s'', s3_region = ''r''\<rparr>,
      cfg_catalog = sample_cfg, cfg_duckdb = \<lparr>duckdb_binary = ''duckdb'', row_group_size = 2048, catalog_blooms = False\<rparr>,
      cfg_latency = profile_none unit_ops, cache_bytes = 100\<rparr>"

definition mem_deps :: "((bytes \<times> entry) list, unit) deps" where
  "mem_deps =
     \<lparr>dp_sm = alist_map, dp_crc = (\<lambda>_. 0), dp_hexd = of_text, dp_b64 = (\<lambda>_. None), dp_bigint = sample_bigint,
      dp_pq = mem_pq, dp_sched = in_order, dp_path_from = (\<lambda>s. s), dp_proc = mem_proc sample_cfg (cfg_s3 mem_cfg),
      dp_aw = mem_aw, dp_f64 = unit_ops, dp_tape = (\<lambda>_. ((), ()))\<rparr>"

lemma publish_script_inj [simp]: "publish_script cat s3 p = publish_script cat s3 q \<longleftrightarrow> p = q"
  by (simp add: publish_script_def sq_def)

lemma find_staged: "find (\<lambda>(p, bs). p = path) st = map_option (Pair path) (map_of st path)"
  by (induction st) auto

lemma staged_max_bounds:
  assumes "rows_ok rows"
  shows "int (staged_max rows) = fold max (map (\<lambda>r. fst (snd r)) rows) 0" and "staged_max rows < 2 ^ 63"
proof -
  let ?m = "fold max (map (\<lambda>r. fst (snd r)) rows) 0"
  have "\<forall>x \<in> set (map (\<lambda>r. fst (snd r)) rows). x \<le> 2 ^ 63 - 1" using assms by (auto simp: rows_ok_def)
  then have "?m \<le> 2 ^ 63 - 1" by (simp add: fold_max_le_iff)
  moreover have "0 \<le> ?m" by (meson fold_max_le_iff order_refl)
  ultimately show "int (staged_max rows) = ?m" "staged_max rows < 2 ^ 63" by (simp_all add: staged_max_def)
qed

section \<open>The contract\<close>

lemma mem_entry_loads:
  assumes "rows_ok rows"
  shows "load_entry of_text (\<lambda>_. None) mem_lake (new_row (mem_file i rows)) = Ok (mem_entry i rows)"
    and "cs_max (the_stat (mem_file i rows) FIELD_ID_LSN) = Some (show_nat (unat (fe_watermark (mem_entry i rows))))"
    and "int (unat (fe_watermark (mem_entry i rows))) = fold max (map (\<lambda>r. fst (snd r)) rows) 0"
proof -
  note sm = staged_max_bounds [OF assms]
  have u: "unat (of_nat (staged_max rows) :: u64) = staged_max rows" using sm(2) by (simp add: unat_of_nat_u64)
  have "parse_u64 (show_nat (staged_max rows)) = Some (of_nat (staged_max rows))" using sm(2) by (simp add: parse_show_nat)
  then show "load_entry of_text (\<lambda>_. None) mem_lake (new_row (mem_file i rows)) = Ok (mem_entry i rows)"
    by (simp add: load_entry_def get_text_def decode_hex_def new_row_def the_stat_def the_bloom_def mem_file_def
        mem_entry_def mem_path_def FIELD_ID_PK_def FIELD_ID_LSN_def)
  show "cs_max (the_stat (mem_file i rows) FIELD_ID_LSN) = Some (show_nat (unat (fe_watermark (mem_entry i rows))))"
    using u by (simp add: the_stat_def mem_file_def mem_entry_def FIELD_ID_PK_def FIELD_ID_LSN_def)
  show "int (unat (fe_watermark (mem_entry i rows))) = fold max (map (\<lambda>r. fst (snd r)) rows) 0"
    unfolding mem_entry_def using u sm(1) by (metis file_entry.select_convs(2))
qed

lemma mem_object_path: "object_path (\<lambda>s. s) (mem_entry i rows) (lake_bucket mem_lake) = mem_path i"
  by (simp add: object_path_def mem_entry_def mem_path_def mem_lake_def strip_prefix_def Let_def)

lemma mem_entry_serves:
  assumes "rows_ok rows" and "\<forall>r. getr (mem_path i) r = Inr (object_bytes rows)"
  shows "entry_serves mem_pq getr (\<lambda>s. s) (lake_bucket mem_lake) (\<lambda>_. mem_size) (mem_entry i rows) (map lake_row rows)"
proof -
  have rows: "rows_in (object_bytes rows) = map lake_row rows" using assms(1) by (intro rows_in_object) (simp add: rows_ok_def)
  have keys: "map fst (map lake_row rows) = map fst rows" by (auto simp: lake_row_def)
  have srt: "sorted_wrt (<) (map fst rows)" "rows \<noteq> []" using assms(1) by (auto simp: rows_ok_def)
  have "file_serves mem_pq getr (mem_path i) n (map lake_row rows)" for n
    using mem_serves [of getr "mem_path i" "object_bytes rows" n] assms(2) srt unfolding rows keys by simp
  moreover have "pk_min (mem_entry i rows) \<le> k \<and> k \<le> pk_max (mem_entry i rows)" if "k \<in> fst ` set (map lake_row rows)" for k
  proof -
    have "k \<in> set (map fst rows)" using that keys by (metis list.set_map)
    from sorted_bounds [OF srt(1) this] srt(2) show ?thesis by (simp add: mem_entry_def hd_map last_map)
  qed
  ultimately show ?thesis
    unfolding entry_serves_def mem_object_path by (simp add: mem_entry_def mem_size_def)
qed

lemma mem_snapshot:
  assumes "rows_ok (staged_rows bs)" and "mem_good (w_db w) (w_getr w)"
  shows "snapshot_added mem_deps (\<lambda>_. mem_size) mem_lake bs w (mem_commit bs w)"
    and "mem_good (w_db (mem_commit bs w)) (w_getr (mem_commit bs w))" and "w_dir (mem_commit bs w) = w_dir w"
proof -
  let ?i = "length (db_files (w_db w))" and ?rows = "staged_rows bs"
  have new: "\<exists>m. w_getr w (mem_path i) r = Inl m" if "?i \<le> i" for i r
    using assms(2) that unfolding mem_good_def by blast
  have ids: "\<forall>f \<in> set (db_files (w_db w)). df_id f < int ?i" "\<forall>s \<in> set (db_stats (w_db w)). cs_file_id s < int ?i"
    "\<forall>b \<in> set (db_blooms (w_db w)). br_file_id b < int ?i" using assms(2) by (simp_all add: mem_good_def)
  have g: "w_getr (mem_commit bs w) = (w_getr w)(mem_path ?i := (\<lambda>_. Inr (object_bytes ?rows)))"
    and db: "w_db (mem_commit bs w) = committed_file (mem_file ?i ?rows) (w_db w)"
    by (simp_all add: mem_commit_def Let_def)
  show "w_dir (mem_commit bs w) = w_dir w" by (simp add: mem_commit_def Let_def)
  have "fresh_file (w_db w) (lake_table_id mem_lake) (mem_file ?i ?rows)"
    using ids by (fastforce simp: fresh_file_def mem_file_def mem_lake_def FIELD_ID_PK_def FIELD_ID_LSN_def)
  moreover have "grows (w_getr w) (w_getr (mem_commit bs w))"
    using new [of ?i] unfolding grows_def g by (metis Inl_Inr_False fun_upd_apply order_refl)
  moreover have "entry_serves mem_pq (w_getr (mem_commit bs w)) (\<lambda>s. s) (lake_bucket mem_lake) (\<lambda>_. mem_size) (mem_entry ?i ?rows) (map lake_row ?rows)"
    using assms(1) by (rule mem_entry_serves) (simp add: g)
  ultimately show "snapshot_added mem_deps (\<lambda>_. mem_size) mem_lake bs w (mem_commit bs w)"
    unfolding snapshot_added_def db using mem_entry_loads [OF assms(1)]
    by (intro exI [of _ "mem_file ?i ?rows"] exI [of _ "mem_entry ?i ?rows"]) (simp add: mem_deps_def)
  have old: "mem_path i \<noteq> mem_path ?i" if "Suc ?i \<le> i" for i using that by simp
  show "mem_good (w_db (mem_commit bs w)) (w_getr (mem_commit bs w))"
    unfolding mem_good_def db g using ids new old
    by (auto simp: committed_file_def mem_file_def intro: less_trans)
qed

interpretation mem: engine_env mem_deps "\<lambda>_. mem_size" mem_cfg mem_lake mem_good
proof (rule engine_env.intro, goal_cases)
  case 1
  show ?case by (simp add: mem_deps_def am.skipmap_axioms)
next
  case 2
  show ?case by (simp add: mem_deps_def sample_bigint_ok)
next
  case 3
  show ?case by (simp add: mem_deps_def in_order_ok)
next
  case 4
  show ?case by (simp add: mem_cfg_def)
next
  case 5
  show ?case by (simp add: mem_cfg_def)
next
  case (6 path sch w r w')
  then show ?case by (auto simp: mem_deps_def mem_aw_def update_conv')
next
  case (7 path b w r w')
  then show ?case by (auto simp: mem_deps_def mem_aw_def update_conv' split: option.splits intro: exI [of _ "w_stage w'"])
next
  case (8 path w r w')
  then show ?case by (auto simp: mem_deps_def mem_aw_def intro: exI [of _ "w_stage w'"])
next
  case (9 args path w x w' bs)
  then have "x = Exited (Some 0) []" "w' = mem_commit bs w"
    by (auto simp: mem_deps_def mem_proc_def find_staged mem_cfg_def)
  with mem_snapshot [OF 9(3,4)] show ?case by simp
qed

end
