(* ===== verification/Engine_Reach.thy ===== *)
theory Engine_Reach
  imports Engine_Tasks Memory_Lake
begin

text \<open>
  Runs of the engine. \<open>reach\<close> is the set of states an engine and its world can come to from an empty
  directory and an empty table: operations in any order, each with any outcome of its calls to Postgres
  and DuckDB; the process may be killed between operations, in each window of a flush and inside the
  append of a write. Any number of writers may run at once, in any schedule of their steps during which no
  flush is due, and the process may be killed between any two of these steps. A run carries the history of
  the writes that took effect, in the order of their sequence numbers. An operation that returned an
  error is followed by a restart: what happens otherwise is the subject of \<open>Engine_Faults\<close>.

  Concurrent writers start where the next sequence number names no segment, which is so unless the process
  had died inside the append that created the newest one: \<open>Engine_Writers\<close> shows what goes wrong there.
\<close>

section \<open>Steps\<close>

definition fresh_world :: "'f config \<Rightarrow> duck_lake \<Rightarrow> (catalog_db \<Rightarrow> get_range \<Rightarrow> bool) \<Rightarrow> world \<Rightarrow> bool" where
  "fresh_world cfg lake lake_good w \<longleftrightarrow>
     connect None (w_db w) (cfg_catalog cfg) = Ok lake \<and> lake_good (w_db w) (w_getr w) \<and>
     db_files (w_db w) = [] \<and> db_stats (w_db w) = [] \<and> wal_names (w_dir w) = {} \<and> distinct (map fst (w_dir w))"

text \<open>The process is killed: files are cut at or after their synced length, the staging directory is anything.\<close>

definition crashed :: "(string \<Rightarrow> nat) \<Rightarrow> (string \<times> stage_batch list) list \<Rightarrow> world \<Rightarrow> world" where
  "crashed keep_to st w = w\<lparr>w_dir := crash_dir keep_to (w_dir w), w_stage := st\<rparr>"

text \<open>A write in flight took effect when the next replay finds its record.\<close>

definition survived :: "(bytes \<Rightarrow> u32) \<Rightarrow> u64 \<Rightarrow> dir \<Rightarrow> wrecord \<Rightarrow> bool" where
  "survived crc m d r \<longleftrightarrow>
     (case wal_open crc m 0 d of Ok (_, _, rp) \<Rightarrow> r \<in> set (replay_records rp) | _ \<Rightarrow> False)"

inductive reach ::
    "('m, 'f) deps \<Rightarrow> 'f config \<Rightarrow> duck_lake \<Rightarrow> (catalog_db \<Rightarrow> get_range \<Rightarrow> bool)
      \<Rightarrow> wrecord list \<Rightarrow> ('m, 'f) engine option \<Rightarrow> world \<Rightarrow> bool"
  for dp :: "('m, 'f) deps" and cfg :: "'f config" and lake :: duck_lake and lake_good :: "catalog_db \<Rightarrow> get_range \<Rightarrow> bool" where
  start: "fresh_world cfg lake lake_good w \<Longrightarrow> reach dp cfg lake lake_good [] None w"
| opened: "reach dp cfg lake lake_good h None w \<Longrightarrow> engine_open dp io cfg w = (Ok e, w') \<Longrightarrow>
    reach dp cfg lake lake_good h (Some e) w'"
| open_failed: "reach dp cfg lake lake_good h None w \<Longrightarrow> engine_open dp io cfg w = (x, w') \<Longrightarrow>
    reach dp cfg lake lake_good h None (crashed keep_to st w')"
| put: "reach dp cfg lake lake_good h (Some e) w \<Longrightarrow> hist_ok (dp_crc dp) (h @ [record_put k (en_next_lsn e) v]) \<Longrightarrow>
    engine_put dp io k v (e, w) = (Ok l, (e', w')) \<Longrightarrow>
    reach dp cfg lake lake_good (h @ [record_put k l v]) (Some e') w'"
| put_failed: "reach dp cfg lake lake_good h (Some e) w \<Longrightarrow> hist_ok (dp_crc dp) (h @ [record_put k (en_next_lsn e) v]) \<Longrightarrow>
    engine_put dp io k v (e, w) = (x, (e', w')) \<Longrightarrow>
    reach dp cfg lake lake_good (h @ [record_put k (en_next_lsn e) v]) None (crashed keep_to st w')"
| delete: "reach dp cfg lake lake_good h (Some e) w \<Longrightarrow> hist_ok (dp_crc dp) (h @ [record_delete k (en_next_lsn e)]) \<Longrightarrow>
    engine_delete dp io k (e, w) = (Ok l, (e', w')) \<Longrightarrow>
    reach dp cfg lake lake_good (h @ [record_delete k l]) (Some e') w'"
| delete_failed: "reach dp cfg lake lake_good h (Some e) w \<Longrightarrow> hist_ok (dp_crc dp) (h @ [record_delete k (en_next_lsn e)]) \<Longrightarrow>
    engine_delete dp io k (e, w) = (x, (e', w')) \<Longrightarrow>
    reach dp cfg lake lake_good (h @ [record_delete k (en_next_lsn e)]) None (crashed keep_to st w')"
| write_killed: "reach dp cfg lake lake_good h (Some e) w \<Longrightarrow>
    r = record_put k (en_next_lsn e) v \<or> r = record_delete k (en_next_lsn e) \<Longrightarrow> hist_ok (dp_crc dp) (h @ [r]) \<Longrightarrow>
    append_write (dp_crc dp) [r] (w_dir w, en_wal e) = Ok (d, wal) \<Longrightarrow>
    reach dp cfg lake lake_good
      (if survived (dp_crc dp) (wal_segment_bytes cfg) (crash_dir keep_to d) r then h @ [r] else h)
      None (crashed keep_to st (w\<lparr>w_dir := d\<rparr>))"
| concurrent: "reach dp cfg lake lake_good h (Some e) w \<Longrightarrow> start_lsn (active (en_wal e)) \<noteq> en_next_lsn e \<Longrightarrow>
    calm dp (map Waiting qs) (e, w) ts (e', w') \<Longrightarrow> length qs < 2 ^ 63 \<Longrightarrow> all_acked ts \<Longrightarrow>
    hist_ok (dp_crc dp) (h @ sort_key r_lsn (all_tasks acked_by ts)) \<Longrightarrow>
    reach dp cfg lake lake_good (h @ sort_key r_lsn (all_tasks acked_by ts)) (Some e') w'"
| concurrent_killed: "reach dp cfg lake lake_good h (Some e) w \<Longrightarrow> start_lsn (active (en_wal e)) \<noteq> en_next_lsn e \<Longrightarrow>
    calm dp (map Waiting qs) (e, w) ts (e', w') \<Longrightarrow> length qs < 2 ^ 63 \<Longrightarrow>
    hist_ok (dp_crc dp) (h @ sort_key r_lsn (all_tasks logged_by ts)) \<Longrightarrow>
    reach dp cfg lake lake_good (h @ sort_key r_lsn (all_tasks logged_by ts)) None (crashed keep_to st w')"
| get: "reach dp cfg lake lake_good h (Some e) w \<Longrightarrow> engine_get dp k (e, w) = (x, (e', w')) \<Longrightarrow>
    reach dp cfg lake lake_good h (Some e') w'"
| reset: "reach dp cfg lake lake_good h (Some e) w \<Longrightarrow> reach dp cfg lake lake_good h (Some (engine_reset_stats e)) w"
| flush: "reach dp cfg lake lake_good h (Some e) w \<Longrightarrow> engine_flush dp io (e, w) = (Ok y, (e', w')) \<Longrightarrow>
    reach dp cfg lake lake_good h (Some e') w'"
| flush_killed: "reach dp cfg lake lake_good h (Some e) w \<Longrightarrow> flush_inner dp io crash (e, w) = (x, (e', w')) \<Longrightarrow>
    reach dp cfg lake lake_good h None (crashed keep_to st w')"
| killed: "reach dp cfg lake lake_good h (Some e) w \<Longrightarrow> reach dp cfg lake lake_good h None (crashed keep_to st w)"
| stopped: "reach dp cfg lake lake_good h (Some e) w \<Longrightarrow> reach dp cfg lake lake_good h None w"

definition value_of :: "(op \<times> bytes) option \<Rightarrow> bytes option" where
  "value_of x = (case x of Some (Put, v) \<Rightarrow> Some v | _ \<Rightarrow> None)"

section \<open>The invariant of runs\<close>

lemma no_rows_index: "db_files db = [] \<Longrightarrow> index_rows db t = []" "db_stats db = [] \<Longrightarrow> watermark_values db t = []"
  by (simp_all add: index_rows_def watermark_values_def)

context engine_env
begin

lemma fresh_down:
  assumes "fresh_world cfg lake lake_good w"
  shows "down_ok dp size_of cfg lake lake_good [] w"
proof -
  have f: "db_files (w_db w) = []" "db_stats (w_db w) = []" using assms by (simp_all add: fresh_world_def)
  have "cat_inv (dp_hexd dp) (dp_b64 dp) (w_db w) lake []"
    by (simp add: cat_inv_def load_index_Ok no_rows_index(1) [OF f(1)] no_rows_index(2) [OF f(2)] newest_first_def index_watermark_def)
  then have "lake_state dp size_of cfg lake lake_good [] [] w"
    using assms by (simp add: lake_state_def fresh_world_def index_watermark_def upto_def)
  moreover have "disk_state (dp_crc dp) [] (index_watermark []) (w_dir w)"
    using assms unfolding disk_state_def fresh_world_def
    by (intro exI [of _ "[]"]) (simp add: disk_inv_def covers_def above_def index_watermark_def)
  ultimately show ?thesis unfolding down_ok_def by (auto simp: hist_ok_def)
qed

lemma write_killed_down:
  assumes up: "up_ok dp size_of cfg lake lake_good h (e, w)" and r: "r_lsn r = en_next_lsn e" and h: "hist_ok (dp_crc dp) (h @ [r])"
    and wr: "append_write (dp_crc dp) [r] (w_dir w, en_wal e) = Ok (d, wal)"
  shows "down_ok dp size_of cfg lake lake_good
           (if survived (dp_crc dp) (wal_segment_bytes cfg) (crash_dir keep_to d) r then h @ [r] else h)
           (crashed keep_to st (w\<lparr>w_dir := d\<rparr>))"
proof -
  note u = up_ok_dest [OF up]
  let ?wm = "index_watermark (en_index e)"
  have rl: "r_lsn r = lsn_max h + 1" using r u(9) by simp
  have lt: "lsn_max h < r_lsn r" using next_lsn(1) [OF u(1)] rl by simp
  from append_state(2) [OF u(3,1) h rl u(11)] obtain ps where ps: "wal_inv (dp_crc dp) (w_dir w) (en_wal e) ps"
    "covers (dp_crc dp) h ?wm (log_of ps)" "batch_ok (dp_crc dp) (en_wal e) ps [r]" by blast
  from wal_state_names [OF u(3)] have nm: "names_ok (lsn_max h) (en_wal e)" .
  from crash_in_append_disk [OF ps(1,3) wr, of keep_to] obtain qs rs0 j t where
    d: "disk_inv (dp_crc dp) (crash_dir keep_to d) (on_disk qs (active wal, rs0 @ take j [r]) t)"
    and ext: "qs @ [(active wal, rs0)] = ps \<or> segment_max_bytes (en_wal e) \<le> active_bytes (en_wal e) \<and>
        qs = ps \<and> rs0 = [] \<and> start_lsn (active wal) = r_lsn r" by auto
  let ?ls = "on_disk qs (active wal, rs0 @ take j [r]) t"
  have log: "mset (disk_log ?ls) = mset (log_of ps @ take j [r])" using on_disk_log [of qs "(active wal, rs0 @ take j [r])" t] ext by auto
  have "lsn_max (log_of ps) \<le> lsn_max h" using ps(2) unfolding covers_def by (metis max.cobounded1)
  then have "0 < r_lsn r" "r \<notin> set (log_of ps)"
    using lt lsn_max_ge [of r "log_of ps"] by (auto simp: word_gt_0 not_less)
  moreover have "set (disk_log ?ls) = set (log_of ps @ take j [r])" using log by (rule mset_eq_setD)
  ultimately have sv: "survived (dp_crc dp) (wal_segment_bytes cfg) (crash_dir keep_to d) r \<longleftrightarrow> 0 < j"
    using wal_open_disk [OF d seg_pos, of 0] by (cases j) (auto simp: survived_def)
  show ?thesis
  proof (cases "0 < j")
    case True
    then have tk: "take j [r] = [r]" by (cases j) simp_all
    have "covers (dp_crc dp) (h @ [r]) ?wm (disk_log ?ls)"
      using covers_perm [OF covers_snoc [OF ps(2) order.strict_trans1 [OF u(11) lt]] refl] log tk by metis
    moreover have "\<forall>(l, rs, t) \<in> set ?ls. l \<le> lsn_max (h @ [r])"
      using on_disk_starts [OF ps(1) nm ext] next_lsn(1) [OF u(1)] rl by (auto simp: max.coboundedI2)
    ultimately have "disk_state (dp_crc dp) (h @ [r]) ?wm (crash_dir keep_to d)"
      using d unfolding disk_state_def by (intro exI [of _ ?ls]) auto
    moreover note lake_st_snoc [OF u(2) lt]
    ultimately show ?thesis using True sv h by (auto simp: down_ok_def crashed_def)
  next
    case False
    then have "covers (dp_crc dp) h ?wm (disk_log ?ls)" using covers_perm [OF ps(2) refl] log by simp
    moreover have "\<forall>(l, rs, t) \<in> set ?ls. l \<le> lsn_max h \<or> l = lsn_max h + 1 \<and> rs = []"
      using on_disk_unwritten [OF ps(1) nm ext rl] False by simp
    ultimately have "disk_state (dp_crc dp) h ?wm (crash_dir keep_to d)"
      using d unfolding disk_state_def by blast
    then show ?thesis using False sv u(1,2) by (auto simp: down_ok_def crashed_def)
  qed
qed

lemma up_calm_room:
  assumes up: "up_ok dp size_of cfg lake lake_good h (e, w)" and "start_lsn (active (en_wal e)) \<noteq> en_next_lsn e"
    and "length (qs :: request list) < 2 ^ 63"
  shows "start_lsn (active (en_wal e)) \<le> lsn_max h" and "unat (en_next_lsn e) + length qs < 2 ^ 64"
proof -
  note u = up_ok_dest [OF up]
  show "start_lsn (active (en_wal e)) \<le> lsn_max h" using wal_state_names [OF u(3)] assms(2) u(9) by (auto simp: names_ok_def)
  have "unat (lsn_max h) < 2 ^ 63" using u(1) by (simp add: hist_ok_def)
  then show "unat (en_next_lsn e) + length qs < 2 ^ 64" using next_lsn(2) [OF u(1)] u(9) assms(3) by simp
qed

lemma reach_ok:
  "reach dp cfg lake lake_good h eo w \<Longrightarrow>
     (case eo of None \<Rightarrow> down_ok dp size_of cfg lake lake_good h w | Some e \<Rightarrow> up_ok dp size_of cfg lake lake_good h (e, w))"
proof (induction rule: reach.induct)
  case (start w)
  then show ?case by (simp add: fresh_down)
next
  case (opened h w io e w')
  then show ?case using open_state(1) by auto
next
  case (open_failed h w io x w' keep_to st)
  then show ?case using open_state(2) by (auto simp: crashed_def)
next
  case (put h e w k v io l e' w')
  then show ?case
    using write_state [of h e w "\<lambda>l. record_put k l v"] up_ok_dest(9) [of h e w] by (fastforce simp: engine_put_def)
next
  case (put_failed h e w k v io x e' w' keep_to st)
  then have up: "up_ok dp size_of cfg lake lake_good h (e, w)" by simp
  show ?case
    using safe_crash [OF write_state(1) [OF up, of "\<lambda>l. record_put k l v"]] put_failed(2,3) up_ok_dest(9) [OF up]
    by (simp add: engine_put_def crashed_def)
next
  case (delete h e w k io l e' w')
  then show ?case
    using write_state [of h e w "\<lambda>l. record_delete k l"] up_ok_dest(9) [of h e w] by (fastforce simp: engine_delete_def)
next
  case (delete_failed h e w k io x e' w' keep_to st)
  then have up: "up_ok dp size_of cfg lake lake_good h (e, w)" by simp
  show ?case
    using safe_crash [OF write_state(1) [OF up, of "\<lambda>l. record_delete k l"]] delete_failed(2,3) up_ok_dest(9) [OF up]
    by (simp add: engine_delete_def crashed_def)
next
  case (write_killed h e w r k v d wal keep_to st)
  then have "up_ok dp size_of cfg lake lake_good h (e, w)" "r_lsn r = en_next_lsn e" by auto
  from write_killed_down [OF this write_killed(3,4)] show ?case by simp
next
  case (concurrent h e w qs ts e' w')
  then have up: "up_ok dp size_of cfg lake lake_good h (e, w)" by simp
  note room = up_calm_room [OF up concurrent(2,4)]
  from calm_up [OF up room(2,1) concurrent(3,6,5)] show ?case by simp
next
  case (concurrent_killed h e w qs ts e' w' keep_to st)
  then have up: "up_ok dp size_of cfg lake lake_good h (e, w)" by simp
  note room = up_calm_room [OF up concurrent_killed(2,4)]
  from safe_crash [OF calm_safe [OF up room(2,1) concurrent_killed(3,5)]] show ?case by (simp add: crashed_def)
next
  case (get h e w k x e' w')
  then show ?case using get_state [of h e w k] by auto
next
  case (reset h e w)
  then show ?case by (auto simp: up_ok_def engine_reset_stats_def reader_inv_def cache_holds_def reset_stats_def split_def)
next
  case (flush h e w io y e' w')
  then show ?case using flush_state(2) [of h e w io None] by (simp add: engine_flush_def)
next
  case (flush_killed h e w io crash x e' w' keep_to st)
  then show ?case using safe_crash [OF flush_state(1)] by (simp add: crashed_def)
next
  case (killed h e w keep_to st)
  then show ?case using safe_crash [OF up_safe] by (simp add: crashed_def)
next
  case (stopped h e w)
  then show ?case using safe_stopped [OF up_safe] by simp
qed

lemma reach_get:
  assumes "reach dp cfg lake lake_good h (Some e) w"
  shows "fst (engine_get dp k (e, w)) = Ok (value_of (apply_log h k))"
proof -
  have "up_ok dp size_of cfg lake lake_good h (e, w)" using reach_ok [OF assms] by simp
  from get_state [OF this, of k] show ?thesis by (auto simp: value_of_def)
qed

lemma reach_open:
  assumes "reach dp cfg lake lake_good h None w"
  shows "\<exists>e w'. engine_open dp pg_up cfg w = (Ok e, w') \<and> reach dp cfg lake lake_good h (Some e) w' \<and>
           en_next_lsn e = lsn_max h + 1 \<and> set_view (dp_sm dp) (en_memtables e) = apply_log (above (engine_watermark e) h)"
proof -
  have d: "down_ok dp size_of cfg lake lake_good h w" using reach_ok [OF assms] by simp
  obtain x w' where o: "engine_open dp pg_up cfg w = (x, w')" by fastforce
  from open_state(3) [OF d o] obtain e where e: "x = Ok e" by auto
  from open_state(1) [OF d o] e have up: "up_ok dp size_of cfg lake lake_good h (e, w')" by simp
  note u = up_ok_dest [OF up]
  have "sorted_wrt (<) (map r_lsn h)" using u(1) by (simp add: hist_ok_def)
  then have "set_view (dp_sm dp) (en_memtables e) = apply_log (above (engine_watermark e) h)"
    using u(6) skipmap.mt_holds_view [OF skip u(7) above_sorted] by (simp add: set_view_def engine_watermark_def)
  with o e u(9) reach.opened [OF assms, of pg_up e w'] show ?thesis by auto
qed

lemma reach_hist: "reach dp cfg lake lake_good h (Some e) w \<Longrightarrow> en_next_lsn e = lsn_max h + 1"
  using reach_ok [of h "Some e" w] up_ok_dest(9) by simp

lemma reach_put_unfrozen:
  assumes "reach dp cfg lake lake_good h (Some e) w" and "hist_ok (dp_crc dp) (h @ [mk (en_next_lsn e)])"
    and "r_lsn (mk (en_next_lsn e)) = en_next_lsn e"
    and "\<not> should_freeze (set_insert (dp_sm dp) (mk (en_next_lsn e)) (en_memtables e))"
  shows "\<exists>s. with_lsn dp io mk (e, w) = (Ok (en_next_lsn e), s)"
proof -
  have "up_ok dp size_of cfg lake lake_good h (e, w)" using reach_ok [OF assms(1)] by simp
  note u = up_ok_dest [OF this]
  from append_state(1) [OF u(3,1) _ _ u(11), of "mk (en_next_lsn e)"] assms(2,3) u(9) obtain d wal where
    "wal_append (dp_crc dp) [mk (en_next_lsn e)] (w_dir w, en_wal e) = Ok (d, wal)" by auto
  then show ?thesis using assms(4) by (simp add: with_lsn_def engine_append_def Let_def)
qed

end

section \<open>Progress\<close>

text \<open>The Arrow writer can write and DuckDB ends well on a script that names a staged file.\<close>

definition lake_up :: "('m, 'f) deps \<Rightarrow> 'f config \<Rightarrow> bool" where
  "lake_up dp cfg \<longleftrightarrow>
     (\<forall>path sch w. fst (aw_create (dp_aw dp) path sch w) = Ok ()) \<and>
     (\<forall>path b w. map_of (w_stage w) path \<noteq> None \<longrightarrow> fst (aw_write (dp_aw dp) path b w) = Ok ()) \<and>
     (\<forall>path w. fst (aw_close (dp_aw dp) path w) = Ok ()) \<and>
     (\<forall>args path w. map_of (w_stage w) path \<noteq> None \<longrightarrow>
        (\<exists>err. fst (dp_proc dp (duckdb_binary (cfg_duckdb cfg)) args (publish_script (cfg_catalog cfg) (cfg_s3 cfg) path) w) = Exited (Some 0) err))"

context engine_env
begin

lemma write_batches_live:
  assumes "lake_up dp cfg"
  shows "map_of (w_stage w) path \<noteq> None \<Longrightarrow> fst (write_batches (dp_aw dp) path bs w) = Ok ()"
proof (induction bs arbitrary: w)
  case (Cons b bs)
  obtain r w1 where wr: "aw_write (dp_aw dp) path b w = (r, w1)" by fastforce
  have r: "r = Ok ()" using assms Cons.prems wr unfolding lake_up_def by (metis fst_conv)
  from write_law [OF wr] r Cons.prems have "map_of (w_stage w1) path \<noteq> None" by auto
  from Cons.IH [OF this] wr r show ?case by simp
qed simp

lemma stage_live:
  assumes "lake_up dp cfg"
  shows "fst (stage (dp_sm dp) (dp_aw dp) mt path w) = Ok ()"
proof -
  obtain bs where bs: "batches (dp_sm dp) mt = Ok bs" using batches_chunks by blast
  obtain r1 w1 where c: "aw_create (dp_aw dp) path arrow_schema w = (r1, w1)" by fastforce
  then have r1: "r1 = Ok ()" using assms unfolding lake_up_def by (metis fst_conv)
  from create_law [OF c] r1 have "map_of (w_stage w1) path \<noteq> None" by auto
  from write_batches_live [OF assms this, of bs] obtain w2 where "write_batches (dp_aw dp) path bs w1 = (Ok (), w2)"
    by (metis prod.collapse)
  then show ?thesis using c r1 bs assms by (simp add: stage_def lake_up_def)
qed

lemma flush_write_live:
  assumes up: "up_ok dp size_of cfg lake lake_good h (e, w)" and ne: "above (index_watermark (en_index e)) h \<noteq> []"
    and live: "lake_up dp cfg" and fr: "mt_holds (dp_sm dp) (snd frozen) (above (index_watermark (en_index e)) h)"
  shows "\<exists>y s. flush_write dp pg_up None frozen (lsn_max h) (e\<lparr>en_memtables := ms\<rparr>, w) = (Ok y, s)"
proof -
  note u = up_ok_dest [OF up]
  let ?path = "staging_path (en_staging_dir e) (lsn_max h)"
  obtain w1 where sg: "stage (dp_sm dp) (dp_aw dp) (snd frozen) ?path w = (Ok (), w1)"
    using stage_live [OF live] by (metis prod.collapse)
  from stage_law [OF this] obtain st bs where stg: "w1 = w\<lparr>w_stage := st\<rparr>" "map_of st ?path = Some bs"
    "batches (dp_sm dp) (snd frozen) = Ok bs" by blast
  have st1: "lake_state dp size_of cfg lake lake_good h (en_index e) w1" using u(2) by (simp add: stg)
  have staged: "map_of (w_stage w1) ?path = Some bs" using stg by simp
  obtain err w2 where pr: "dp_proc dp (duckdb_binary (cfg_duckdb cfg)) [''-unsigned'', '':memory:'']
      (publish_script (cfg_catalog cfg) (cfg_s3 cfg) ?path) w1 = (Exited (Some 0) err, w2)"
    using live staged unfolding lake_up_def by (metis option.distinct(1) prod.collapse)
  then obtain pos where pb: "publish (dp_f64 dp) (dp_tape dp) (dp_proc dp) (cfg_duckdb cfg) (cfg_catalog cfg) (cfg_s3 cfg)
      ?path (cfg_latency cfg) (en_pos e) w1 = (Ok (), w2, pos)" by (simp add: publish_def run_duckdb_def)
  note ps = publish_state [OF st1 u(1) ne fr stg(3) staged pb]
  from ps(1) obtain idx' where ix: "lake_state dp size_of cfg lake lake_good h idx' w2" "index_watermark idx' = lsn_max h" by blast
  have "wal_state (dp_crc dp) h (lsn_max h) (w_dir w2) (en_wal e)"
    using ps(2) wal_state_mono [OF u(3,11)] by (simp add: stg(1))
  from truncate_state [OF this] obtain d wal where tr: "truncate_through (lsn_max h) (w_dir w2, en_wal e) = Ok (d, wal)" by blast
  show ?thesis
    by (simp add: flush_write_def Let_def sg u(4,5) pb publish_index_def lake_calls [OF ix(1)] pg_query_def pg_up_def
        truncate_wal_def tr retire_frozen_def)
qed

lemma up_flush_live:
  assumes up: "up_ok dp size_of cfg lake lake_good h (e, w)" and "lake_up dp cfg"
  shows "\<exists>y s. engine_flush dp pg_up (e, w) = (Ok y, s)"
proof -
  note u = up_ok_dest [OF up]
  let ?wm = "index_watermark (en_index e)"
  show ?thesis
  proof (cases "above ?wm h = []")
    case True
    then show ?thesis using freeze_none [OF up] by (simp add: engine_flush_simps)
  next
    case False
    from freeze_some [OF up this] obtain ms where fr: "freeze (dp_sm dp) (en_memtables e) = Ok (ms, Some (ms_active (en_memtables e)))" ..
    from flush_write_live [OF up False assms(2) u(7)] show ?thesis
      by (simp add: engine_flush_simps fr u(5) lake_calls [OF u(2)] pg_query_def pg_up_def plan_above [OF False u(7)])
  qed
qed

lemma flush_live:
  "reach dp cfg lake lake_good h (Some e) w \<Longrightarrow> lake_up dp cfg \<Longrightarrow> \<exists>y s. engine_flush dp pg_up (e, w) = (Ok y, s)"
  using reach_ok [of h "Some e" w] up_flush_live by simp

lemma up_write_live:
  assumes up: "up_ok dp size_of cfg lake lake_good h (e, w)" and live: "lake_up dp cfg"
    and mk: "hist_ok (dp_crc dp) (h @ [mk (lsn_max h + 1)])" "r_lsn (mk (lsn_max h + 1)) = lsn_max h + 1"
  shows "\<exists>s. with_lsn dp pg_up mk (e, w) = (Ok (lsn_max h + 1), s)"
proof -
  from write_appended [OF up, where mk = mk, OF mk] obtain e1 w1 where
    a: "up_ok dp size_of cfg lake lake_good (h @ [mk (lsn_max h + 1)]) (e1, w1)"
    "with_lsn dp pg_up mk (e, w) =
      (if should_freeze (en_memtables e1)
       then (case engine_flush dp pg_up (e1, w1) of
               (Ok _, s) \<Rightarrow> (Ok (lsn_max h + 1), s) | (Err x, s) \<Rightarrow> (Err x, s) | (Panic p, s) \<Rightarrow> (Panic p, s))
       else (Ok (lsn_max h + 1), (e1, w1)))" by blast
  from up_flush_live [OF a(1) live] show ?thesis unfolding a(2) by auto
qed

lemma flush_publishes_all:
  assumes "reach dp cfg lake lake_good h (Some e) w" and fl: "engine_flush dp io (e, w) = (Ok y, (e', w'))"
  shows "y = (if above (engine_watermark e) h = [] then Empty else Committed (lsn_max h) 1)"
    and "engine_watermark e' = lsn_max h"
    and "set_get (dp_sm dp) (en_memtables e') k = Missing"
    and "engine_flush dp io' (e', w') = (Ok Empty, (e', w'))"
    and "file_count e' = file_count e + (if above (engine_watermark e) h = [] then 0 else 1)"
proof -
  have up: "up_ok dp size_of cfg lake lake_good h (e, w)" using reach_ok [OF assms(1)] by simp
  from flush_state(2) [OF up fl [unfolded engine_flush_def]] have
    up': "up_ok dp size_of cfg lake lake_good h (e', w')" and no: "above (engine_watermark e') h = []"
    and y: "y = (if above (engine_watermark e) h = [] then Empty else Committed (lsn_max h) 1)"
    and n: "file_count e' = file_count e + (if above (engine_watermark e) h = [] then 0 else 1)"
    by (simp_all add: engine_watermark_def)
  show "file_count e' = file_count e + (if above (engine_watermark e) h = [] then 0 else 1)" by (rule n)
  show "y = (if above (engine_watermark e) h = [] then Empty else Committed (lsn_max h) 1)" by (rule y)
  note u = up_ok_dest [OF up']
  have "\<forall>r \<in> set h. r_lsn r \<le> engine_watermark e'" using no by (auto simp: above_def filter_empty_conv not_less)
  then have "lsn_max h \<le> engine_watermark e'" by (simp add: lsn_max_le_iff)
  then show "engine_watermark e' = lsn_max h" using u(11) by (simp add: engine_watermark_def)
  have act: "snd (ms_active (en_memtables e')) = memtable_new (dp_sm dp)"
    using mt_holds_Nil u(7) no by (simp add: engine_watermark_def)
  then have "set_view (dp_sm dp) (en_memtables e') = Map.empty"
    using u(6) skipmap.new_view [OF skip] by (simp add: set_view_def)
  then show "set_get (dp_sm dp) (en_memtables e') k = Missing"
    using level.get_view [OF skipmap.set_level [OF skip]] by (metis lookup_of_simps(1))
  show "engine_flush dp io' (e', w') = (Ok Empty, (e', w'))"
    using u(6,8) act skipmap.mt_of_is_empty [OF skip, of "[]"]
    by (simp add: engine_flush_simps freeze_def set_inv_def)
qed

end

section \<open>A run on the lake in memory\<close>

definition mem_world :: world where
  "mem_world = \<lparr>w_dir = [], w_db = sample_tables\<lparr>db_files := [], db_stats := []\<rparr>, w_getr = (\<lambda>_ _. Inl ''not found''), w_stage = []\<rparr>"

lemma mem_fresh: "fresh_world mem_cfg mem_lake mem_good mem_world"
proof -
  have "connect None (w_db mem_world) (cfg_catalog mem_cfg) = Ok mem_lake" by code_simp
  then show ?thesis
    by (simp add: fresh_world_def mem_good_def mem_world_def wal_names_def sample_tables_def sample_db_def)
qed

lemma mem_up: "lake_up mem_deps mem_cfg"
  by (auto simp: lake_up_def mem_deps_def mem_aw_def mem_proc_def find_staged mem_cfg_def split: option.splits)

definition mem_hist :: "wrecord list" where
  "mem_hist = [record_put [1] 1 [2]]"

lemma mem_hist_ok: "hist_ok (dp_crc mem_deps) mem_hist"
  by (simp add: hist_ok_def mem_hist_def record_put_def fits_def length_frame)

lemma mem_reach: "\<exists>e w. reach mem_deps mem_cfg mem_lake mem_good mem_hist (Some e) w"
proof -
  from mem.reach_open [OF reach.start [OF mem_fresh]] obtain e w where
    o: "reach mem_deps mem_cfg mem_lake mem_good [] (Some e) w" "en_next_lsn e = 1" by auto
  obtain x e' w' where p: "engine_put mem_deps pg_up [1] [2] (e, w) = (x, (e', w'))" by (metis prod_cases3)
  from reach.put_failed [OF o(1) _ p] mem_hist_ok o(2) have
    "reach mem_deps mem_cfg mem_lake mem_good mem_hist None (crashed (\<lambda>_. 0) [] w')" by (simp add: mem_hist_def)
  from mem.reach_open [OF this] show ?thesis by blast
qed

end
