(* ===== verification/Engine_Faults.thy ===== *)
theory Engine_Faults
  imports Engine_Reach
begin

text \<open>
  What a failed flush does to an engine that keeps running. The memtable it froze stays in the queue, and
  no later flush ever takes it up again: \<open>freeze\<close> hands out the active memtable only and \<open>retire\<close> removes
  what was just flushed.
\<close>

lemma publish_index_memtables: "publish_index dp io (e, w) = (x, (e', w')) \<Longrightarrow> en_memtables e' = en_memtables e"
  by (auto simp: publish_index_def split: res.splits)

lemma truncate_wal_memtables: "truncate_wal wm (e, w) = (x, (e', w')) \<Longrightarrow> en_memtables e' = en_memtables e"
  by (auto simp: truncate_wal_def split: res.splits)

lemma flush_write_retires:
  assumes "flush_write dp io None frozen wm (e, w) = (Ok y, (e', w'))"
  shows "en_memtables e' = retire frozen (en_memtables e)"
  using assms unfolding flush_write_def Let_def
  by (auto simp: retire_frozen_def split: res.splits prod.splits if_splits
      dest!: publish_index_memtables truncate_wal_memtables)

lemma flush_memtables:
  assumes "engine_flush dp io (e, w) = (Ok y, (e', w'))"
  shows "en_memtables e' = en_memtables e \<and> memtable_is_empty (dp_sm dp) (snd (ms_active (en_memtables e))) \<or>
         (\<exists>ms frozen. freeze (dp_sm dp) (en_memtables e) = Ok (ms, Some frozen) \<and> en_memtables e' = retire frozen ms)"
proof -
  obtain ms x where fr: "freeze (dp_sm dp) (en_memtables e) = Ok (ms, x)"
    using assms by (auto simp: engine_flush_simps split: res.splits)
  show ?thesis
  proof (cases x)
    case None
    then have "en_memtables e' = ms" using assms fr by (auto simp: engine_flush_simps)
    then show ?thesis using fr None by (auto simp: freeze_def Let_def split: if_splits)
  next
    case (Some frozen)
    have "en_memtables e' = retire frozen ms"
      using assms fr Some
      by (auto simp: engine_flush_simps retire_frozen_def split: res.splits plan.splits prod.splits
          dest!: truncate_wal_memtables flush_write_retires)
    with fr Some show ?thesis by blast
  qed
qed

lemma flush_keeps_queue:
  assumes "engine_flush dp io (e, w) = (Ok y, (e', w'))" and "set_inv (en_memtables e)"
  shows "ms_frozen (en_memtables e') = ms_frozen (en_memtables e)"
    and "skipmap (dp_sm dp) \<Longrightarrow> mt_view (dp_sm dp) (snd (ms_active (en_memtables e'))) = Map.empty"
proof -
  from flush_memtables [OF assms(1)] show "ms_frozen (en_memtables e') = ms_frozen (en_memtables e)"
    using mq.freeze_retire(1) [OF assms(2)] by metis
  assume sk: "skipmap (dp_sm dp)"
  from flush_memtables [OF assms(1)] show "mt_view (dp_sm dp) (snd (ms_active (en_memtables e'))) = Map.empty"
  proof (elim disjE exE conjE)
    assume "en_memtables e' = en_memtables e" "memtable_is_empty (dp_sm dp) (snd (ms_active (en_memtables e)))"
    then show ?thesis by (simp add: fun_eq_iff mt_view_def memtable_is_empty_def skipmap.is_empty_iter [OF sk])
  next
    fix ms frozen
    assume "freeze (dp_sm dp) (en_memtables e) = Ok (ms, Some frozen)" "en_memtables e' = retire frozen ms"
    then show ?thesis using skipmap.new_view [OF sk] by (auto simp: freeze_def retire_def Let_def split: if_splits)
  qed
qed

text \<open>A write changes the queue only through the flush it may trigger.\<close>

lemma put_keeps_queue:
  assumes "engine_put dp io k v (e, w) = (Ok l, (e', w'))" and "set_inv (en_memtables e)"
  shows "ms_frozen (en_memtables e') = ms_frozen (en_memtables e)" and "set_inv (en_memtables e')"
proof -
  let ?ms = "set_insert (dp_sm dp) (record_put k (en_next_lsn e) v) (en_memtables e)"
  have inv: "set_inv ?ms" using set_insert_inv [OF assms(2)] .
  have fr: "ms_frozen ?ms = ms_frozen (en_memtables e)" by (simp add: set_insert_def)
  have "en_memtables e' = ?ms \<or> (\<exists>e1 w1 y. en_memtables e1 = ?ms \<and> engine_flush dp io (e1, w1) = (Ok y, (e', w')))"
    using assms(1) unfolding engine_put_def with_lsn_def engine_append_def Let_def
    by (fastforce split: res.splits prod.splits if_splits)
  moreover have "set_inv (en_memtables e')" if "en_memtables e1 = ?ms" "engine_flush dp io (e1, w1) = (Ok y, (e', w'))" for e1 w1 y
    using flush_memtables [OF that(2)] mq.freeze_retire(2) inv unfolding that(1) by metis
  ultimately show "ms_frozen (en_memtables e') = ms_frozen (en_memtables e)" "set_inv (en_memtables e')"
    using flush_keeps_queue(1) inv fr by metis+
qed

section \<open>A run that loses an acknowledged write\<close>

definition pg_gone :: pg_io where
  "pg_gone = pg_up\<lparr>pg_watermark := Some (Postgres ''gone'')\<rparr>"

definition fault_trace where
  "fault_trace =
     (let (x0, w0) = engine_open mem_deps pg_up mem_cfg mem_world;
          (x1, s1) = engine_put mem_deps pg_up [7] [9] (ok_val x0, w0);
          (x2, s2) = engine_put mem_deps pg_up [1] [2] s1;
          (x3, s3) = engine_flush mem_deps pg_gone s2;
          (x4, s4) = engine_put mem_deps pg_up [1] [3] s3;
          (x5, s5) = engine_flush mem_deps pg_up s4;
          (x6, s6) = engine_get mem_deps [1] s5;
          (x7, w7) = engine_open mem_deps pg_up mem_cfg (crashed (\<lambda>_. 0) [] (snd s6));
          (x8, s8) = engine_get mem_deps [7] (ok_val x7, w7)
      in (x1, x2, x3, x4, x5, x6, x8))"


end
