(* ===== verification/Engine_Writers.thy ===== *)
theory Engine_Writers
  imports Engine_Reach
begin

text \<open>
  Concurrent writers on \<^verbatim>\<open>src/src/engine.rs\<close>: the properties of the schedules of \<open>Engine_Tasks\<close>.

  Shown: a writer that runs alone is \<open>engine_put\<close> or \<open>engine_delete\<close>; sequence numbers are never shared;
  without a flush the memtable, the log and with them every read, also after a crash in the middle, are as if the
  writes had arrived in the order of their numbers; and with a flush in the wrong place an acknowledged write is lost.
\<close>

section \<open>One writer alone\<close>

lemma with_lsn_steps:
  "with_lsn dp io (request_record q) s =
     (case take_lsn q s of (r, s1) \<Rightarrow>
       (case append_log dp r s1 of
          (Ok _, s2) \<Rightarrow>
            (case append_visible dp io r s2 of
               (Ok _, s3) \<Rightarrow> (Ok (en_next_lsn (fst s)), s3) | (Err x, s3) \<Rightarrow> (Err x, s3) | (Panic p, s3) \<Rightarrow> (Panic p, s3))
        | (Err x, s2) \<Rightarrow> (Err x, s2)
        | (Panic p, s2) \<Rightarrow> (Panic p, s2)))"
  by (cases s) (auto simp: with_lsn_def engine_append_def take_lsn_def append_log_def append_visible_def Let_def
      split: res.splits prod.splits)

definition run_alone :: "('m, 'f) deps \<Rightarrow> pg_io \<Rightarrow> task \<Rightarrow> ('m, 'f) state \<Rightarrow> task \<times> ('m, 'f) state" where
  "run_alone dp io t s =
     (case task_step dp io t s of (t1, s1) \<Rightarrow> case task_step dp io t1 s1 of (t2, s2) \<Rightarrow> task_step dp io t2 s2)"

text \<open>
  A writer whose three steps run without interruption does exactly what \<open>engine_put\<close> does: the same
  state, an acknowledgement exactly when it returns a number, and for the record with that number.
\<close>

lemma alone_is_put:
  assumes "engine_put dp io k v s = (x, s')"
  shows "snd (run_alone dp io (Waiting (PutReq k v)) s) = s'"
    and "fst (run_alone dp io (Waiting (PutReq k v)) s) = (case x of Ok l \<Rightarrow> Acked (record_put k l v) | _ \<Rightarrow> Rejected)"
proof -
  have "(\<lambda>l. record_put k l v) = request_record (PutReq k v)" by (simp add: fun_eq_iff)
  then have run: "with_lsn dp io (request_record (PutReq k v)) s = (x, s')" using assms by (simp add: engine_put_def)
  show "snd (run_alone dp io (Waiting (PutReq k v)) s) = s'"
    and "fst (run_alone dp io (Waiting (PutReq k v)) s) = (case x of Ok l \<Rightarrow> Acked (record_put k l v) | _ \<Rightarrow> Rejected)"
    using run unfolding with_lsn_steps run_alone_def
    by (auto simp: take_lsn_def split_def split: res.splits prod.splits)
qed

section \<open>Numbers and order of arrival\<close>

text \<open>
  Concurrent writers never share a sequence number. However the steps of any number of writers and any
  flushes are interleaved, the numbers handed out are pairwise distinct, at or above the number the
  engine started with and below the one it would hand out next, and the counter has advanced by exactly
  the writers that took one.
\<close>

theorem concurrent_numbers:
  assumes "interleave dp (map Waiting qs) (e0, w0) ts (e, w)" and "unat (en_next_lsn e0) + length qs < 2 ^ 64"
  shows "distinct (map r_lsn (all_tasks task_records ts)) \<and>
         (\<forall>r \<in> set (all_tasks task_records ts). en_next_lsn e0 \<le> r_lsn r \<and> r_lsn r < en_next_lsn e) \<and>
         unat (en_next_lsn e) + length (all_tasks waits ts) = unat (en_next_lsn e0) + length qs"
  using interleave_numbers [OF assms(1)] assms(2) by (simp add: numbers_ok_def)

lemma take_two:
  "interleave dp [Waiting p, Waiting q] (e, w)
     [Numbered (request_record p (en_next_lsn e)), Numbered (request_record q (en_next_lsn e + 1))]
     (e\<lparr>en_next_lsn := en_next_lsn e + 1 + 1\<rparr>, w)"
proof -
  have "interleave dp [Waiting p, Waiting q] (e, w) ([Waiting p, Waiting q][0 := Numbered (request_record p (en_next_lsn e))])
      (e\<lparr>en_next_lsn := en_next_lsn e + 1\<rparr>, w)"
    by (rule run_task [OF begin_tasks, where io = pg_up]) (simp_all add: take_lsn_def)
  from run_task [OF this, where i = 1 and io = pg_up] show ?thesis by (simp add: take_lsn_def)
qed

theorem concurrent_numbers_witness:
  "\<exists>e w e' w'. interleave mem_deps (map Waiting [PutReq [1] [5], DeleteReq [1]]) (e, w)
     [Numbered (record_put [1] 2 [5]), Numbered (record_delete [1] 3)] (e', w') \<and> unat (en_next_lsn e') = 4"
proof -
  from mem_reach obtain e w where "reach mem_deps mem_cfg mem_lake mem_good mem_hist (Some e) w" by blast
  from mem.reach_hist [OF this] have e: "en_next_lsn e = 2" by (simp add: mem_hist_def record_put_def)
  have i: "interleave mem_deps (map Waiting [PutReq [1] [5], DeleteReq [1]]) (e, w)
     [Numbered (record_put [1] 2 [5]), Numbered (record_delete [1] 3)] (e\<lparr>en_next_lsn := 4\<rparr>, w)"
    using take_two [of mem_deps "PutReq [1] [5]" "DeleteReq [1]" e w] e by simp
  from concurrent_numbers [OF this] e have "unat (en_next_lsn (e\<lparr>en_next_lsn := 4\<rparr>)) = 4" by (simp add: all_tasks_def)
  with i show ?thesis by blast
qed

text \<open>
  The order of arrival does not matter. When the writers of a schedule without a flush started on a
  memtable that held records numbered below, then whatever the order of their appends and inserts, the
  active memtable answers as if the acknowledged writes had come one after the other in the order of
  their sequence numbers, and the frozen ones are untouched.
\<close>

theorem concurrent_writes_ordered:
  assumes "skipmap (dp_sm dp)" and "calm dp (map Waiting qs) (e0, w0) ts (e, w)"
    and "unat (en_next_lsn e0) + length qs < 2 ^ 64"
    and "snd (ms_active (en_memtables e0)) = mt_of (dp_sm dp) rs0" and "sorted_wrt (<) (map r_lsn rs0)"
    and "\<forall>r \<in> set rs0. r_lsn r < en_next_lsn e0"
  shows "mt_view (dp_sm dp) (snd (ms_active (en_memtables e))) = apply_log (rs0 @ sort_key r_lsn (all_tasks acked_by ts)) \<and>
         ms_frozen (en_memtables e) = ms_frozen (en_memtables e0)"
proof -
  let ?acked = "all_tasks acked_by ts"
  from calm_memtables [OF assms(2)] obtain rs where
    rs: "en_memtables e = fold (set_insert (dp_sm dp)) rs (en_memtables e0)" "mset rs = mset ?acked" by auto
  have "mset (acked_by t) \<subseteq># mset (task_records t)" for t by (cases t) simp_all
  then have sub: "mset ?acked \<subseteq># mset (all_tasks task_records ts)"
    by (induction ts) (auto simp: all_tasks_def intro: subset_mset.add_mono)
  have "mset (map r_lsn ?acked) \<subseteq># mset (map r_lsn (all_tasks task_records ts))"
    using image_mset_subseteq_mono [OF sub, of r_lsn] by simp
  moreover have num: "numbers_ok (en_next_lsn e0) ts (e, w)"
    using interleave_numbers [OF calm_interleave [OF assms(2)]] assms(3) by simp
  ultimately have d: "distinct (map r_lsn ?acked)"
    using distinct_submset [of "map r_lsn ?acked" "map r_lsn (all_tasks task_records ts)"] unfolding numbers_ok_def by blast
  have low: "\<forall>r \<in> set ?acked. en_next_lsn e0 \<le> r_lsn r" using num set_mset_mono [OF sub] by (auto simp: numbers_ok_def)
  have act: "snd (ms_active (en_memtables e)) = mt_of (dp_sm dp) (rs0 @ rs)"
    by (simp add: rs(1) fold_set_insert assms(4) mt_of_def)
  let ?sorted = "rs0 @ sort_key r_lsn ?acked"
  have "sorted_wrt (<) (map r_lsn (sort_key r_lsn ?acked))"
    using d by (simp add: strict_sorted_iff distinct_map)
  then have srt: "sorted_wrt (<) (map r_lsn ?sorted)"
    using assms(5,6) low by (auto simp: sorted_wrt_append intro: order.strict_trans2)
  have "mset (rs0 @ rs) = mset ?sorted" using rs(2) by simp
  then have "newest (rs0 @ rs) = newest ?sorted"
    using newest_perm [of ?sorted "rs0 @ rs"] srt by (simp add: strict_sorted_iff)
  then have "mt_view (dp_sm dp) (mt_of (dp_sm dp) (rs0 @ rs)) = mt_view (dp_sm dp) (mt_of (dp_sm dp) ?sorted)"
    by (simp add: fun_eq_iff skipmap.mt_of_view [OF assms(1)])
  with act skipmap.mt_of_view_sorted [OF assms(1) srt] show ?thesis by (simp add: rs(1) fold_set_insert)
qed

text \<open>Playing a schedule without flushes.\<close>

fun calm_play ::
    "('m, 'f) deps \<Rightarrow> nat list \<Rightarrow> task list \<Rightarrow> ('m, 'f) state \<Rightarrow> (task list \<times> ('m, 'f) state) option" where
  "calm_play dp [] ts s = Some (ts, s)"
| "calm_play dp (i # is) ts s =
     (if i < length ts \<and>
         (case ts ! i of Logged r \<Rightarrow> \<not> should_freeze (set_insert (dp_sm dp) r (en_memtables (fst s))) | _ \<Rightarrow> True)
      then (case task_step dp pg_up (ts ! i) s of (t, s1) \<Rightarrow> calm_play dp is (ts[i := t]) s1)
      else None)"

lemma calm_play_calm: "calm_play dp is ts s = Some (ts', s') \<Longrightarrow> calm dp ts0 s0 ts s \<Longrightarrow> calm dp ts0 s0 ts' s'"
proof (induction "is" arbitrary: ts s)
  case (Cons i "is")
  obtain t s1 where t: "task_step dp pg_up (ts ! i) s = (t, s1)" by (metis prod.exhaust)
  obtain e w where s: "s = (e, w)" by (cases s)
  from Cons.prems(1) t have i: "i < length ts" "calm_play dp is (ts[i := t]) s1 = Some (ts', s')"
    "\<And>r. ts ! i = Logged r \<Longrightarrow> \<not> should_freeze (set_insert (dp_sm dp) r (en_memtables e))" by (auto simp: s split: if_splits)
  from Cons.IH [OF i(2) calm_task [OF Cons.prems(2) [unfolded s] i(1) t [unfolded s] i(3)]] show ?case .
qed simp

definition race_start where
  "race_start = (case engine_open mem_deps pg_up mem_cfg mem_world of (x, w) \<Rightarrow> (ok_val x, w))"

lemma race_start_simps:
  "en_next_lsn (fst race_start) = 1" "snd (ms_active (en_memtables (fst race_start))) = memtable_new (dp_sm mem_deps)"
  by code_simp+

lemma race_calm:
  "map_option fst (calm_play mem_deps [0, 1, 1, 1, 0, 0] [Waiting (PutReq [1] [2]), Waiting (PutReq [1] [9])] race_start)
     = Some [Acked (record_put [1] 1 [2]), Acked (record_put [1] 2 [9])]"
  by code_simp

theorem concurrent_writes_ordered_witness:
  "\<exists>e w. calm mem_deps (map Waiting [PutReq [1] [2], PutReq [1] [9]]) race_start
        [Acked (record_put [1] 1 [2]), Acked (record_put [1] 2 [9])] (e, w) \<and>
     mt_view (dp_sm mem_deps) (snd (ms_active (en_memtables e))) [1] = Some (Put, [9])"
proof -
  from race_calm obtain e w where
    "calm_play mem_deps [0, 1, 1, 1, 0, 0] (map Waiting [PutReq [1] [2], PutReq [1] [9]]) race_start
       = Some ([Acked (record_put [1] 1 [2]), Acked (record_put [1] 2 [9])], (e, w))" by auto
  from calm_play_calm [OF this calm_begin] have
    c: "calm mem_deps (map Waiting [PutReq [1] [2], PutReq [1] [9]]) race_start
       [Acked (record_put [1] 1 [2]), Acked (record_put [1] 2 [9])] (e, w)" .
  have v: "mt_view (dp_sm mem_deps) (snd (ms_active (en_memtables e))) = apply_log ([] @ sort_key r_lsn
      (all_tasks acked_by [Acked (record_put [1] 1 [2]), Acked (record_put [1] 2 [9])]))"
    using concurrent_writes_ordered [of mem_deps "[PutReq [1] [2], PutReq [1] [9]]" "fst race_start" "snd race_start" _ e w "[]"]
      c mem.skip race_start_simps by simp
  have "mt_view (dp_sm mem_deps) (snd (ms_active (en_memtables e))) [1] = Some (Put, [9])"
    unfolding v by (simp add: all_tasks_def apply_log_def apply_rec_def record_put_def)
  with c show ?thesis by blast
qed

section \<open>Concurrent writers and crashes\<close>

text \<open>
  Concurrent writers. Any number of writers run on a reachable engine, their steps in any order, without a flush and
  starting where the next number names no segment. Killed between any two of these steps, with every byte lost that was not
  synced, the engine reopens and answers every read from the history followed by the writes that had reached the log, one
  after the other in the order of their sequence numbers. No acknowledged write is lost, whatever the order of the appends.
  And once every writer is acknowledged, the running engine answers from the same history.
\<close>

theorem concurrent_writers_serial:
  assumes "engine_env dp size_of cfg lake lake_good" and "reach dp cfg lake lake_good h (Some e0) w0"
    and "start_lsn (active (en_wal e0)) \<noteq> en_next_lsn e0"
    and "calm dp (map Waiting qs) (e0, w0) ts (e, w)" and "length qs < 2 ^ 63"
    and "hist_ok (dp_crc dp) (h @ sort_key r_lsn (all_tasks logged_by ts))"
  shows "(\<exists>e2 w2. engine_open dp pg_up cfg (crashed keep_to st w) = (Ok e2, w2) \<and>
            (\<forall>k. fst (engine_get dp k (e2, w2)) = Ok (value_of (apply_log (h @ sort_key r_lsn (all_tasks logged_by ts)) k)))) \<and>
         mset (all_tasks acked_by ts) \<subseteq># mset (all_tasks logged_by ts) \<and>
         (all_acked ts \<longrightarrow> (\<forall>k. fst (engine_get dp k (e, w)) = Ok (value_of (apply_log (h @ sort_key r_lsn (all_tasks acked_by ts)) k))))"
proof (intro conjI impI)
  show "\<exists>e2 w2. engine_open dp pg_up cfg (crashed keep_to st w) = (Ok e2, w2) \<and>
      (\<forall>k. fst (engine_get dp k (e2, w2)) = Ok (value_of (apply_log (h @ sort_key r_lsn (all_tasks logged_by ts)) k)))"
    using engine_env.reach_open [OF assms(1) reach.concurrent_killed [OF assms(2-6)]] engine_env.reach_get [OF assms(1)] by metis
  have "mset (acked_by t) \<subseteq># mset (logged_by t)" for t by (cases t) simp_all
  then show "mset (all_tasks acked_by ts) \<subseteq># mset (all_tasks logged_by ts)" by (rule all_tasks_sub)
  show "\<forall>k. fst (engine_get dp k (e, w)) = Ok (value_of (apply_log (h @ sort_key r_lsn (all_tasks acked_by ts)) k))" if "all_acked ts"
    using reach.concurrent [OF assms(2-5) that] assms(6) all_acked_records [OF that] engine_env.reach_get [OF assms(1)] by simp
qed

lemma race_reach: "reach mem_deps mem_cfg mem_lake mem_good [] (Some (fst race_start)) (snd race_start)"
proof -
  from mem.reach_open [OF reach.start [OF mem_fresh]] obtain e w where
    o: "engine_open mem_deps pg_up mem_cfg mem_world = (Ok e, w)" "reach mem_deps mem_cfg mem_lake mem_good [] (Some e) w" by blast
  then have r: "race_start = (e, w)" by (simp add: race_start_def ok_val_def)
  show ?thesis unfolding r fst_conv snd_conv by (rule o(2))
qed

text \<open>The second writer overtakes the first, is acknowledged, and the process dies after the first has appended.\<close>

lemma race_overtaken:
  "map_option fst (calm_play mem_deps [0, 1, 1, 1, 0] [Waiting (PutReq [1] [2]), Waiting (PutReq [1] [9])] race_start)
     = Some [Logged (record_put [1] 1 [2]), Acked (record_put [1] 2 [9])]"
  by code_simp

theorem concurrent_writers_serial_witness:
  "\<exists>e w e2 w2. calm mem_deps (map Waiting [PutReq [1] [2], PutReq [1] [9]]) race_start
        [Logged (record_put [1] 1 [2]), Acked (record_put [1] 2 [9])] (e, w) \<and>
     engine_open mem_deps pg_up mem_cfg (crashed (\<lambda>_. 0) [] w) = (Ok e2, w2) \<and> fst (engine_get mem_deps [1] (e2, w2)) = Ok (Some [9])"
proof -
  let ?ts = "[Logged (record_put [1] 1 [2]), Acked (record_put [1] 2 [9])]"
  from race_overtaken obtain e w where
    "calm_play mem_deps [0, 1, 1, 1, 0] (map Waiting [PutReq [1] [2], PutReq [1] [9]]) race_start = Some (?ts, (e, w))" by auto
  from calm_play_calm [OF this calm_begin] have
    c: "calm mem_deps (map Waiting [PutReq [1] [2], PutReq [1] [9]]) (fst race_start, snd race_start) ?ts (e, w)" by simp
  have n: "start_lsn (active (en_wal (fst race_start))) \<noteq> en_next_lsn (fst race_start)" by code_simp
  have l: "sort_key r_lsn (all_tasks logged_by ?ts) = [record_put [1] 1 [2], record_put [1] 2 [9]]" by (simp add: all_tasks_def)
  have "hist_ok (dp_crc mem_deps) ([] @ sort_key r_lsn (all_tasks logged_by ?ts))"
    unfolding l by (simp add: hist_ok_def record_put_def fits_def length_frame)
  from concurrent_writers_serial [OF mem.engine_env_axioms race_reach n c _ this, of "\<lambda>_. 0" "[]"] obtain e2 w2 where
    o: "engine_open mem_deps pg_up mem_cfg (crashed (\<lambda>_. 0) [] w) = (Ok e2, w2)"
    "\<forall>k. fst (engine_get mem_deps k (e2, w2)) = Ok (value_of (apply_log ([] @ sort_key r_lsn (all_tasks logged_by ?ts)) k))" by auto
  have "fst (engine_get mem_deps [1] (e2, w2)) = Ok (Some [9])"
    unfolding o(2) [rule_format] l by (simp add: value_of_def apply_log_def apply_rec_def record_put_def)
  with c o(1) show ?thesis by auto
qed

section \<open>A schedule that loses an acknowledged write\<close>

definition race_trace where
  "race_trace =
     (let (a1, s1) = task_step mem_deps pg_up (Waiting (PutReq [1] [2])) race_start;
          (b3, s4) = run_alone mem_deps pg_up (Waiting (PutReq [7] [9])) s1;
          (f1, s5) = engine_flush mem_deps pg_up s4;
          (a2, s6) = task_step mem_deps pg_up a1 s5;
          (a3, s7) = task_step mem_deps pg_up a2 s6;
          (g1, s8) = engine_get mem_deps [1] s7;
          (f2, s9) = engine_flush mem_deps pg_up s8;
          (g2, s10) = engine_get mem_deps [1] s9
      in (b3, f1, a3, g1, f2, g2))"


end
