(* ===== verification/Flush_Steps.thy ===== *)
theory Flush_Steps
  imports Engine_Writers "HOL-Library.Sublist"
begin

text \<open>
  \<open>Engine::flush_inner\<close> of \<^verbatim>\<open>src/src/engine.rs\<close> cut at its awaits: between two of them other tasks run. \<open>flush_pc\<close>
  says what the flush does next and carries what it holds in its local variables; \<open>flush_step\<close> does it. \<open>beside\<close>
  is a run of readers and of writers that come one after the other beside the steps of a flush.

  Shown: the steps without interruption are \<open>engine_flush\<close>; in every state between the steps reads answer
  from the history and a crash loses nothing, also after a flush that failed; and a read that looks at
  the memtables, is held up and looks at the files later gives a value the key had in between.
\<close>

section \<open>Steps\<close>

datatype 'm flush_pc =
    FreezeNext
  | PlanNext "'m arc"
  | StageNext "'m arc" lsn
  | PublishNext "'m arc" lsn string
  | IndexNext "'m arc" lsn string
  | TruncateNext "'m arc" lsn flushed "string option"
  | RetireNext "'m arc" flushed "string option"
  | FlushEnd "flushed res"

fun flush_fail :: "unit res \<Rightarrow> 'm flush_pc \<Rightarrow> 'm flush_pc" where
  "flush_fail (Ok _) pc = pc"
| "flush_fail (Err x) pc = FlushEnd (Err x)"
| "flush_fail (Panic p) pc = FlushEnd (Panic p)"

fun flush_step ::
    "('m, 'f) deps \<Rightarrow> pg_io \<Rightarrow> 'm flush_pc \<Rightarrow> ('m, 'f) state \<Rightarrow> 'm flush_pc \<times> ('m, 'f) state" where
  "flush_step dp io FreezeNext (e, w) =
     (case freeze (dp_sm dp) (en_memtables e) of
        Err x \<Rightarrow> (FlushEnd (Err x), (e, w))
      | Panic p \<Rightarrow> (FlushEnd (Panic p), (e, w))
      | Ok (ms, None) \<Rightarrow> (FlushEnd (Ok Empty), (e\<lparr>en_memtables := ms\<rparr>, w))
      | Ok (ms, Some frozen) \<Rightarrow> (PlanNext frozen, (e\<lparr>en_memtables := ms\<rparr>, w)))"
| "flush_step dp io (PlanNext frozen) (e, w) =
     (case published_watermark (dp_bigint dp) (pg_watermark io) (w_db w) (en_lake e) of
        Err x \<Rightarrow> (FlushEnd (Err x), (e, w))
      | Panic p \<Rightarrow> (FlushEnd (Panic p), (e, w))
      | Ok published \<Rightarrow>
          (case plan_flush (dp_sm dp) published (snd frozen) of
             PlanEmpty \<Rightarrow> RetireNext frozen Empty None
           | PlanAlreadyPublished watermark \<Rightarrow> TruncateNext frozen watermark (AlreadyPublished watermark) None
           | PlanWrite watermark \<Rightarrow> StageNext frozen watermark, (e, w)))"
| "flush_step dp io (StageNext frozen watermark) (e, w) =
     (let staging = staging_path (en_staging_dir e) watermark
      in case stage (dp_sm dp) (dp_aw dp) (snd frozen) staging w of
           (x, w1) \<Rightarrow> (flush_fail x (PublishNext frozen watermark staging), (e, w1)))"
| "flush_step dp io (PublishNext frozen watermark staging) (e, w) =
     (case publish (dp_f64 dp) (dp_tape dp) (dp_proc dp) (cfg_duckdb (en_cfg e)) (cfg_catalog (en_cfg e)) (cfg_s3 (en_cfg e))
             staging (cfg_latency (en_cfg e)) (en_pos e) w of
        (x, w1, pos) \<Rightarrow> (flush_fail x (IndexNext frozen watermark staging), (e\<lparr>en_pos := pos\<rparr>, w1)))"
| "flush_step dp io (IndexNext frozen watermark staging) s =
     (case publish_index dp io s of
        (x, s1) \<Rightarrow> (flush_fail x (TruncateNext frozen watermark (Committed watermark 1) (Some staging)), s1))"
| "flush_step dp io (TruncateNext frozen watermark y staging) s =
     (case truncate_wal watermark s of (x, s1) \<Rightarrow> (flush_fail x (RetireNext frozen y staging), s1))"
| "flush_step dp io (RetireNext frozen y staging) s =
     (case retire_frozen frozen s of
        (e1, w1) \<Rightarrow>
          (FlushEnd (Ok y),
           (e1, case staging of None \<Rightarrow> w1 | Some path \<Rightarrow> w1\<lparr>w_stage := AList.delete path (w_stage w1)\<rparr>)))"
| "flush_step dp io (FlushEnd y) s = (FlushEnd y, s)"

definition flush_run ::
    "('m, 'f) deps \<Rightarrow> pg_io \<Rightarrow> nat \<Rightarrow> 'm flush_pc \<times> ('m, 'f) state \<Rightarrow> 'm flush_pc \<times> ('m, 'f) state" where
  "flush_run dp io n = (\<lambda>(pc, s). flush_step dp io pc s) ^^ n"

lemma flush_run_simps [simp]:
  "flush_run dp io 0 (pc, s) = (pc, s)"
  "flush_run dp io (Suc n) (pc, s) = flush_run dp io n (flush_step dp io pc s)"
  by (simp_all add: flush_run_def funpow_swap1)

lemma flush_run_numeral:
  "flush_run dp io (numeral n) (pc, s) = flush_run dp io (pred_numeral n) (flush_step dp io pc s)"
  by (simp add: numeral_eq_Suc)

lemma flush_run_end [simp]: "flush_run dp io n (FlushEnd y, s) = (FlushEnd y, s)"
  by (induction n) simp_all

lemma flush_write_run:
  "flush_run dp io 5 (StageNext frozen wm, s) = (FlushEnd (fst (flush_write dp io None frozen wm s)), snd (flush_write dp io None frozen wm s))"
proof (cases s)
  case (Pair e w)
  let ?path = "staging_path (en_staging_dir e) wm"
  obtain x1 w1 where st: "stage (dp_sm dp) (dp_aw dp) (snd frozen) ?path w = (x1, w1)" by fastforce
  obtain x2 w2 pos where pb: "publish (dp_f64 dp) (dp_tape dp) (dp_proc dp) (cfg_duckdb (en_cfg e)) (cfg_catalog (en_cfg e))
      (cfg_s3 (en_cfg e)) ?path (cfg_latency (en_cfg e)) (en_pos e) w1 = (x2, w2, pos)" by (metis prod_cases3)
  obtain x3 s3 where ix: "publish_index dp io (e\<lparr>en_pos := pos\<rparr>, w2) = (x3, s3)" by (metis prod.exhaust)
  obtain x4 s4 where tr: "truncate_wal wm s3 = (x4, s4)" by (metis prod.exhaust)
  obtain e5 w5 where rt: "retire_frozen frozen s4 = (e5, w5)" by (metis prod.exhaust)
  note steps = Pair flush_write_def Let_def st pb ix tr rt eval_nat_numeral
  show ?thesis
    by (cases x1; simp add: steps; cases x2; simp add: steps; cases x3; simp add: steps; cases x4; simp add: steps)
qed


text \<open>
  A read in three steps: the memtables, the index taken under its lock, and the files of that index,
  which may be read much later.
\<close>

datatype get_pc = LookNext | ClaimNext | FilesNext file_index | GetEnd "bytes option res"

fun get_step :: "('m, 'f) deps \<Rightarrow> bytes \<Rightarrow> get_pc \<Rightarrow> ('m, 'f) state \<Rightarrow> get_pc \<times> ('m, 'f) state" where
  "get_step dp k LookNext (e, w) =
     (case set_get (dp_sm dp) (en_memtables e) k of
        Found v \<Rightarrow> GetEnd (Ok (Some v)) | Deleted \<Rightarrow> GetEnd (Ok None) | Missing \<Rightarrow> ClaimNext, (e, w))"
| "get_step dp k ClaimNext (e, w) = (FilesNext (en_index e), (e, w))"
| "get_step dp k (FilesNext idx) (e, w) =
     (let e1 = charge_gets dp (length (columnar_requests (dp_pq dp) (w_getr w) (dp_sched dp) (dp_path_from dp)
                 (lake_bucket (en_lake e)) idx k (en_reader e))) e
      in case columnar_get (dp_pq dp) (w_getr w) (dp_sched dp) (dp_path_from dp) (lake_bucket (en_lake e)) idx k (en_reader e) of
        (Ok l, st) \<Rightarrow>
          (GetEnd (Ok (case l of Found v \<Rightarrow> Some v | Deleted \<Rightarrow> None | Missing \<Rightarrow> None)), (e1\<lparr>en_reader := st\<rparr>, w))
      | (Err x, st) \<Rightarrow> (GetEnd (Err x), (e1\<lparr>en_reader := st\<rparr>, w))
      | (Panic p, st) \<Rightarrow> (GetEnd (Panic p), (e1\<lparr>en_reader := st\<rparr>, w)))"
| "get_step dp k (GetEnd y) s = (GetEnd y, s)"

lemma get_steps_compose:
  "(case get_step dp k LookNext s of (g1, s1) \<Rightarrow> case get_step dp k g1 s1 of (g2, s2) \<Rightarrow> get_step dp k g2 s2)
     = (GetEnd (fst (engine_get dp k s)), snd (engine_get dp k s))"
  by (cases s) (auto simp: engine_get_def Let_def split: lookup.splits res.splits prod.splits)

section \<open>Histories cut at a freeze\<close>

lemma upto_upto: "a \<le> c \<Longrightarrow> upto a (upto c h) = upto a h"
  by (auto simp: upto_def intro!: filter_cong)

lemma upto_snoc [simp]: "upto c (h @ [r]) = upto c h @ (if r_lsn r \<le> c then [r] else [])"
  by (simp add: upto_def)

text \<open>Writing over a value that a level below has already gives the same map.\<close>

lemma levels_overlap:
  assumes "sorted_wrt (<) (map r_lsn h)" and "b \<le> a" and "a \<le> c"
  shows "apply_log (upto a h) ++ apply_log (above b (upto c h)) = apply_log (upto c h)"
proof -
  have srt: "sorted_wrt (<) (map r_lsn (upto x h))" for x using assms(1) by (simp add: upto_def sorted_wrt_map sorted_wrt_filter)
  have "upto b h @ above b (upto c h) = upto c h" using split_history [OF srt, of b c] assms(2,3) upto_upto [of b c h] by simp
  moreover have "upto b h @ above b (upto a h) = upto a h" using split_history [OF srt, of b a] upto_upto [OF assms(2)] by simp
  moreover have "above b (upto a h) @ above a (upto c h) = above b (upto c h)"
  proof -
    have "upto a (above b (upto c h)) = above b (upto a h)" "above a (above b (upto c h)) = above a (upto c h)"
      using assms(2,3) by (auto simp: upto_def above_def intro!: filter_cong)
    then show ?thesis using split_history [OF above_sorted [OF srt], of a b c] by simp
  qed
  ultimately show ?thesis
    by (metis (no_types, lifting) apply_log_append map_add_assoc map_add_subsumed2 map_le_refl)
qed

lemma apply_log_None: "apply_log h k = None \<longleftrightarrow> (\<forall>r \<in> set h. r_key r \<noteq> k)"
  by (induction h rule: rev_induct) (auto simp: apply_log_def apply_rec_def)

text \<open>A history read up to a later watermark is a history in between, as far as a key is concerned that has nothing in memory.\<close>

lemma upto_between:
  assumes "sorted_wrt (<) (map r_lsn h2)" and "prefix h1 h2" and "\<forall>r \<in> set h1. r_key r = k \<longrightarrow> r_lsn r \<le> a"
  shows "\<exists>h. prefix h1 h \<and> prefix h h2 \<and> apply_log (upto a h2) k = apply_log h k"
proof -
  from assms(2) obtain x where h2: "h2 = h1 @ x" by (auto elim: prefixE)
  have pre: "prefix (upto a h2) h2" using split_history [OF assms(1), of a] by (metis prefixI)
  show ?thesis
  proof (cases "prefix h1 (upto a h2)")
    case False
    with pre assms(2) have "prefix (upto a h2) h1" by (metis prefix_same_cases)
    then obtain y where h1: "h1 = upto a h2 @ y" by (auto elim: prefixE)
    have "y @ x = above a h2" using split_history [OF assms(1), of a] h1 h2 by (metis append_assoc append_same_eq same_append_eq)
    then have "set y \<subseteq> set (above a h2)" by (metis Un_upper1 set_append)
    then have "\<forall>r \<in> set y. a < r_lsn r" by (auto simp: above_def)
    then have "apply_log y k = None" unfolding apply_log_None using assms(3) h1 by (auto simp: not_le [symmetric])
    then have "apply_log (upto a h2) k = apply_log h1 k" by (subst h1) (simp add: apply_log_append map_add_def)
    with assms(2) show ?thesis by blast
  qed (use pre in blast)
qed

section \<open>States between the steps\<close>

text \<open>
  The index in memory, which may be behind the catalog, serves the history up to its own watermark. The
  history is split at \<open>b\<close> and \<open>c\<close>: the active memtable holds what is above \<open>c\<close>, a frozen one what is above \<open>b\<close>
  up to \<open>c\<close>, and the files known to the engine reach at least to \<open>b\<close>.
\<close>

definition serves ::
    "('m, 'f) deps \<Rightarrow> (string \<Rightarrow> u64) \<Rightarrow> duck_lake \<Rightarrow> wrecord list \<Rightarrow> file_index \<Rightarrow> world \<Rightarrow> bool" where
  "serves dp size_of lake h idx w \<longleftrightarrow>
     (\<exists>files. list_all2 (entry_serves (dp_pq dp) (w_getr w) (dp_path_from dp) (lake_bucket lake) size_of) idx files \<and>
        files_view files = apply_log (upto (index_watermark idx) h))"

definition mid_ok ::
    "('m, 'f) deps \<Rightarrow> (string \<Rightarrow> u64) \<Rightarrow> 'f config \<Rightarrow> duck_lake \<Rightarrow> (catalog_db \<Rightarrow> get_range \<Rightarrow> bool)
      \<Rightarrow> wrecord list \<Rightarrow> file_index \<Rightarrow> lsn \<Rightarrow> lsn \<Rightarrow> ('m, 'f) state \<Rightarrow> bool" where
  "mid_ok dp size_of cfg lake lake_good h idx b c = (\<lambda>(e, w).
     hist_ok (dp_crc dp) h \<and> lake_state dp size_of cfg lake lake_good h idx w \<and>
     wal_state (dp_crc dp) h (index_watermark idx) (w_dir w) (en_wal e) \<and>
     en_cfg e = cfg \<and> en_lake e = lake \<and> set_inv (en_memtables e) \<and> en_next_lsn e = lsn_max h + 1 \<and>
     reader_inv (w_getr w) (pq_load (dp_pq dp)) size_of (en_reader e) \<and> serves dp size_of lake h (en_index e) w \<and>
     b \<le> index_watermark (en_index e) \<and> index_watermark (en_index e) \<le> index_watermark idx \<and> index_watermark idx \<le> c \<and>
     c \<le> lsn_max h \<and>
     mt_holds (dp_sm dp) (snd (ms_active (en_memtables e))) (above c h) \<and>
     (ms_frozen (en_memtables e) = [] \<and> index_watermark (en_index e) = c \<or>
      lsn_max (upto c h) = c \<and>
        (\<exists>frozen. ms_frozen (en_memtables e) = [frozen] \<and> mt_holds (dp_sm dp) (snd frozen) (above b (upto c h)))))"

text \<open>What the flush knows where it stands.\<close>

fun phase_ok ::
    "('m, 'f) deps \<Rightarrow> wrecord list \<Rightarrow> file_index \<Rightarrow> lsn \<Rightarrow> lsn \<Rightarrow> 'm flush_pc \<Rightarrow> ('m, 'f) state \<Rightarrow> bool" where
  "phase_ok dp h idx b c FreezeNext (e, w) \<longleftrightarrow> ms_frozen (en_memtables e) = [] \<and> en_index e = idx"
| "phase_ok dp h idx b c (PlanNext frozen) (e, w) \<longleftrightarrow>
     ms_frozen (en_memtables e) = [frozen] \<and> en_index e = idx \<and> index_watermark idx = b \<and> above b (upto c h) \<noteq> []"
| "phase_ok dp h idx b c (StageNext frozen wm) (e, w) \<longleftrightarrow>
     ms_frozen (en_memtables e) = [frozen] \<and> en_index e = idx \<and> index_watermark idx = b \<and> above b (upto c h) \<noteq> [] \<and> wm = c"
| "phase_ok dp h idx b c (PublishNext frozen wm staging) (e, w) \<longleftrightarrow>
     ms_frozen (en_memtables e) = [frozen] \<and> en_index e = idx \<and> index_watermark idx = b \<and> above b (upto c h) \<noteq> [] \<and> wm = c \<and>
     (\<exists>bs. batches (dp_sm dp) (snd frozen) = Ok bs \<and> map_of (w_stage w) staging = Some bs)"
| "phase_ok dp h idx b c (IndexNext frozen wm staging) (e, w) \<longleftrightarrow>
     ms_frozen (en_memtables e) = [frozen] \<and> index_watermark idx = c \<and> wm = c"
| "phase_ok dp h idx b c (TruncateNext frozen wm y staging) (e, w) \<longleftrightarrow>
     ms_frozen (en_memtables e) = [frozen] \<and> en_index e = idx \<and> index_watermark idx = c \<and> wm = c"
| "phase_ok dp h idx b c (RetireNext frozen y staging) (e, w) \<longleftrightarrow>
     ms_frozen (en_memtables e) = [frozen] \<and> en_index e = idx \<and> index_watermark idx = c"
| "phase_ok dp h idx b c (FlushEnd y) (e, w) \<longleftrightarrow>
     ((\<exists>z. y = Ok z) \<longrightarrow> ms_frozen (en_memtables e) = [] \<and> en_index e = idx)"

definition between_at ::
    "('m, 'f) deps \<Rightarrow> (string \<Rightarrow> u64) \<Rightarrow> 'f config \<Rightarrow> duck_lake \<Rightarrow> (catalog_db \<Rightarrow> get_range \<Rightarrow> bool)
      \<Rightarrow> wrecord list \<Rightarrow> lsn \<Rightarrow> lsn \<Rightarrow> 'm flush_pc \<Rightarrow> ('m, 'f) state \<Rightarrow> bool" where
  "between_at dp size_of cfg lake lake_good h b c pc s \<longleftrightarrow>
     (\<exists>idx. mid_ok dp size_of cfg lake lake_good h idx b c s \<and> phase_ok dp h idx b c pc s)"

definition between_ok ::
    "('m, 'f) deps \<Rightarrow> (string \<Rightarrow> u64) \<Rightarrow> 'f config \<Rightarrow> duck_lake \<Rightarrow> (catalog_db \<Rightarrow> get_range \<Rightarrow> bool)
      \<Rightarrow> wrecord list \<Rightarrow> 'm flush_pc \<Rightarrow> ('m, 'f) state \<Rightarrow> bool" where
  "between_ok dp size_of cfg lake lake_good h pc s \<longleftrightarrow>
     (\<exists>idx b c. mid_ok dp size_of cfg lake lake_good h idx b c s \<and> phase_ok dp h idx b c pc s)"

lemma between_ok_at: "between_ok dp size_of cfg lake lake_good h pc s \<longleftrightarrow> (\<exists>b c. between_at dp size_of cfg lake lake_good h b c pc s)"
  unfolding between_ok_def between_at_def by blast

text \<open>From one state to a later one the store and the watermark of the index only grow.\<close>

definition later :: "('m, 'f) state \<Rightarrow> ('m, 'f) state \<Rightarrow> bool" where
  "later = (\<lambda>(e, w) (e', w').
     index_watermark (en_index e) \<le> index_watermark (en_index e') \<and> grows (w_getr w) (w_getr w'))"

lemma later_refl [simp]: "later s s"
  by (simp add: later_def split_def)

lemma later_trans: "later s s' \<Longrightarrow> later s' s'' \<Longrightarrow> later s s''"
  by (auto simp: later_def grows_def split_def intro: order_trans)

context engine_env
begin

abbreviation (input) mid :: "wrecord list \<Rightarrow> file_index \<Rightarrow> lsn \<Rightarrow> lsn \<Rightarrow> ('m, 'f) state \<Rightarrow> bool" where
  "mid \<equiv> mid_ok dp size_of cfg lake lake_good"

lemma mid_dest:
  assumes "mid h idx b c (e, w)"
  shows "hist_ok (dp_crc dp) h" "lake_state dp size_of cfg lake lake_good h idx w"
    "wal_state (dp_crc dp) h (index_watermark idx) (w_dir w) (en_wal e)"
    "en_cfg e = cfg" "en_lake e = lake" "set_inv (en_memtables e)" "en_next_lsn e = lsn_max h + 1"
    "reader_inv (w_getr w) (pq_load (dp_pq dp)) size_of (en_reader e)" "serves dp size_of lake h (en_index e) w"
    "b \<le> index_watermark (en_index e)" "index_watermark (en_index e) \<le> index_watermark idx" "index_watermark idx \<le> c"
    "c \<le> lsn_max h" "mt_holds (dp_sm dp) (snd (ms_active (en_memtables e))) (above c h)"
    "ms_frozen (en_memtables e) = [] \<and> index_watermark (en_index e) = c \<or>
      lsn_max (upto c h) = c \<and>
        (\<exists>frozen. ms_frozen (en_memtables e) = [frozen] \<and> mt_holds (dp_sm dp) (snd frozen) (above b (upto c h)))"
  using assms by (simp_all add: mid_ok_def)

lemma mid_frozen: "mid h idx b c (e, w) \<Longrightarrow> ms_frozen (en_memtables e) = [frozen] \<Longrightarrow>
     mt_holds (dp_sm dp) (snd frozen) (above b (upto c h)) \<and> lsn_max (upto c h) = c"
  using mid_dest(15) [of h idx b c e w] by auto

lemma mid_safe: "mid h idx b c s \<Longrightarrow> safe dp size_of cfg lake lake_good h s"
  by (cases s) (auto simp: mid_ok_def safe_def)

text \<open>The memtables and the files together are the history.\<close>

lemma levels_view:
  assumes srt: "sorted_wrt (<) (map r_lsn h)" and low: "b \<le> wm" "wm \<le> c"
    and act: "mt_holds (dp_sm dp) (snd (ms_active ms)) (above c h)"
    and fz: "ms_frozen ms = [] \<and> wm = c \<or> (\<exists>frozen. ms_frozen ms = [frozen] \<and> mt_holds (dp_sm dp) (snd frozen) (above b (upto c h)))"
  shows "apply_log (upto wm h) ++ set_view (dp_sm dp) ms = apply_log h"
proof -
  have av: "mt_view (dp_sm dp) (snd (ms_active ms)) = apply_log (above c h)"
    using skipmap.mt_holds_view [OF skip act above_sorted [OF srt]] .
  have all: "apply_log (upto c h) ++ apply_log (above c h) = apply_log h"
    using split_history [OF srt, of c] by (metis apply_log_append)
  from fz show ?thesis
  proof (elim disjE exE conjE)
    assume "ms_frozen ms = []" "wm = c"
    then show ?thesis using av all by (simp add: set_view_def)
  next
    fix frozen
    assume fr: "ms_frozen ms = [frozen]" "mt_holds (dp_sm dp) (snd frozen) (above b (upto c h))"
    have "sorted_wrt (<) (map r_lsn (upto c h))" using srt by (simp add: upto_def sorted_wrt_map sorted_wrt_filter)
    then have "mt_view (dp_sm dp) (snd frozen) = apply_log (above b (upto c h))"
      using skipmap.mt_holds_view [OF skip fr(2) above_sorted] by simp
    then have "set_view (dp_sm dp) ms = apply_log (above b (upto c h)) ++ apply_log (above c h)"
      using av fr(1) by (simp add: set_view_def)
    moreover have "apply_log (upto wm h) ++ apply_log (above b (upto c h)) = apply_log (upto c h)"
      using levels_overlap [OF srt low] .
    ultimately show ?thesis using all by (simp add: map_add_assoc)
  qed
qed

lemma mid_view:
  assumes "mid h idx b c (e, w)"
  shows "apply_log (upto (index_watermark (en_index e)) h) ++ set_view (dp_sm dp) (en_memtables e) = apply_log h"
proof -
  note m = mid_dest [OF assms]
  show ?thesis using m(1,15) by (intro levels_view [OF _ m(10) order_trans [OF m(11,12)] m(14)]) (auto simp: hist_ok_def)
qed

lemma mid_get:
  assumes "mid h idx b c (e, w)"
  shows "\<exists>n st. engine_get dp k (e, w) = (Ok (value_of (apply_log h k)), ((charge_gets dp n e)\<lparr>en_reader := st\<rparr>, w)) \<and> mid h idx b c ((charge_gets dp n e)\<lparr>en_reader := st\<rparr>, w)"
proof -
  note m = mid_dest [OF assms]
  from m(9) obtain files where
    files: "list_all2 (entry_serves (dp_pq dp) (w_getr w) (dp_path_from dp) (lake_bucket lake) size_of) (en_index e) files"
    "files_view files = apply_log (upto (index_watermark (en_index e)) h)" unfolding serves_def by blast
  from get_levels [OF files(1) m(8,5), of k] mid_view [OF assms] assms show ?thesis
    by (auto simp: files(2) value_of_def mid_ok_def)
qed

lemma lake_serves: "lake_state dp size_of cfg lake lake_good h idx w \<Longrightarrow> serves dp size_of lake h idx w"
  by (auto simp: lake_state_def serves_def)

lemma serves_grows: "grows (w_getr w) (w_getr w') \<Longrightarrow> serves dp size_of lake h idx w \<Longrightarrow> serves dp size_of lake h idx w'"
  unfolding serves_def by (blast intro: list_all2_mono entry_serves_grows)

text \<open>The catalog does not care about what was written after the freeze.\<close>

lemma lake_state_cut:
  assumes "lsn_max (upto c h) = c" and "c \<le> lsn_max h" and "index_watermark idx \<le> c"
  shows "lake_state dp size_of cfg lake lake_good (upto c h) idx w \<longleftrightarrow> lake_state dp size_of cfg lake lake_good h idx w"
  using assms upto_upto [OF assms(3)] by (auto simp: lake_state_def)

lemma hist_ok_upto: "hist_ok crc h \<Longrightarrow> hist_ok crc (upto c h)"
proof -
  assume h: "hist_ok crc h"
  have "lsn_max (upto c h) \<le> lsn_max h" by (auto simp: lsn_max_le_iff upto_def intro: lsn_max_ge)
  moreover have "length (frames crc (upto c h)) \<le> length (frames crc h)"
    by (induction h) (simp_all add: upto_def frames_def)
  ultimately show ?thesis using h
    by (auto simp: hist_ok_def upto_def sorted_wrt_map sorted_wrt_filter list_all_iff word_le_nat_alt)
qed

lemma up_mid:
  assumes "up_ok dp size_of cfg lake lake_good h (e, w)"
  shows "between_ok dp size_of cfg lake lake_good h FreezeNext (e, w)"
proof -
  note u = up_ok_dest [OF assms]
  let ?wm = "index_watermark (en_index e)"
  have "mid h (en_index e) ?wm ?wm (e, w)" using u lake_serves [OF u(2)] by (simp add: mid_ok_def)
  then show ?thesis unfolding between_ok_def using u(6) by (metis phase_ok.simps(1))
qed

lemma mid_up:
  assumes "mid h idx b c (e, w)" and "ms_frozen (en_memtables e) = []" and "en_index e = idx"
  shows "up_ok dp size_of cfg lake lake_good h (e, w)"
  using mid_dest [OF assms(1)] assms(2,3) by (simp add: up_ok_def)

section \<open>One step of the flush\<close>

lemma freeze_between:
  assumes m: "mid h idx b c (e, w)" and ph: "phase_ok dp h idx b c FreezeNext (e, w)"
    and st: "flush_step dp io FreezeNext (e, w) = (pc, s')"
  shows "between_ok dp size_of cfg lake lake_good h pc s'"
proof -
  have up: "up_ok dp size_of cfg lake lake_good h (e, w)" using mid_up [OF m] ph by simp
  note u = up_ok_dest [OF up]
  let ?wm = "index_watermark (en_index e)"
  show ?thesis
  proof (cases "above ?wm h = []")
    case True
    then have "pc = FlushEnd (Ok Empty)" "s' = (e, w)" using st freeze_none [OF up] by simp_all
    then show ?thesis using m ph unfolding between_ok_def by auto
  next
    case False
    from freeze_some [OF up this] obtain ms where fr: "freeze (dp_sm dp) (en_memtables e) = Ok (ms, Some (ms_active (en_memtables e)))" ..
    have ms: "ms_frozen ms = [ms_active (en_memtables e)]" "snd (ms_active ms) = memtable_new (dp_sm dp)"
      using fr u(6) by (auto simp: freeze_def Let_def split: if_splits)
    have "mid h (en_index e) ?wm (lsn_max h) (e\<lparr>en_memtables := ms\<rparr>, w)"
      using u ms lake_serves [OF u(2)] freeze_inv [OF u(8) fr] by (simp add: mid_ok_def above_max upto_max del: split_paired_Ex)
    moreover have "pc = PlanNext (ms_active (en_memtables e))" "s' = (e\<lparr>en_memtables := ms\<rparr>, w)" using st fr by simp_all
    ultimately show ?thesis using ms(1) False unfolding between_ok_def
      by (intro exI [of _ "en_index e"] exI [of _ ?wm] exI [of _ "lsn_max h"]) (simp add: upto_max)
  qed
qed

lemma plan_between:
  assumes m: "mid h idx b c (e, w)" and ph: "phase_ok dp h idx b c (PlanNext frozen) (e, w)"
    and st: "flush_step dp io (PlanNext frozen) (e, w) = (pc, s')"
  shows "between_at dp size_of cfg lake lake_good h b c pc s'"
proof -
  note d = mid_dest [OF m]
  from ph have fr: "ms_frozen (en_memtables e) = [frozen]" "index_watermark idx = b" "above b (upto c h) \<noteq> []" by simp_all
  have "plan_flush (dp_sm dp) b (snd frozen) = PlanWrite c"
    using plan_above [OF fr(3)] mid_frozen [OF m fr(1)] by metis
  then have "s' = (e, w) \<and> (pc = StageNext frozen c \<or> (\<exists>x. pc = FlushEnd (Err x)))"
    using st fr(2) by (auto simp: d(5) lake_calls [OF d(2)] pg_query_def split: option.splits)
  then show ?thesis using m ph unfolding between_at_def by (elim conjE disjE exE) auto
qed

lemma stage_between:
  assumes m: "mid h idx b c (e, w)" and ph: "phase_ok dp h idx b c (StageNext frozen wm) (e, w)"
    and st: "flush_step dp io (StageNext frozen wm) (e, w) = (pc, s')"
  shows "between_at dp size_of cfg lake lake_good h b c pc s'"
proof -
  let ?path = "staging_path (en_staging_dir e) wm"
  obtain x w1 where sg: "stage (dp_sm dp) (dp_aw dp) (snd frozen) ?path w = (x, w1)" by fastforce
  from stage_law [OF sg] obtain stg bs where w1: "w1 = w\<lparr>w_stage := stg\<rparr>" "batches (dp_sm dp) (snd frozen) = Ok bs"
    "x = Ok () \<longrightarrow> map_of stg ?path = Some bs" by blast
  have "mid h idx b c (e, w1)" using m by (simp add: mid_ok_def w1(1) lake_state_def serves_def)
  moreover have "s' = (e, w1)" "pc = flush_fail x (PublishNext frozen wm ?path)" using st sg by (simp_all add: Let_def)
  ultimately show ?thesis using ph w1 unfolding between_at_def by (cases x) auto
qed

lemma publish_between:
  assumes m: "mid h idx b c (e, w)" and ph: "phase_ok dp h idx b c (PublishNext frozen wm staging) (e, w)"
    and st: "flush_step dp io (PublishNext frozen wm staging) (e, w) = (pc, s')"
  shows "between_at dp size_of cfg lake lake_good h b c pc s' \<and> later (e, w) s'"
proof -
  note d = mid_dest [OF m]
  from ph obtain bs where fr: "ms_frozen (en_memtables e) = [frozen]" "en_index e = idx" "index_watermark idx = b"
    "above b (upto c h) \<noteq> []" "wm = c" "batches (dp_sm dp) (snd frozen) = Ok bs" "map_of (w_stage w) staging = Some bs" by auto
  note mf = mid_frozen [OF m fr(1)]
  let ?h = "upto c h"
  have bc: "b \<le> c" using d(10-12) fr(2) by (meson order_trans)
  obtain x w1 pos where pb: "publish (dp_f64 dp) (dp_tape dp) (dp_proc dp) (cfg_duckdb cfg) (cfg_catalog cfg) (cfg_s3 cfg)
      staging (cfg_latency cfg) (en_pos e) w = (x, w1, pos)" by (metis prod_cases3)
  have cut: "index_watermark i \<le> c \<Longrightarrow> lake_state dp size_of cfg lake lake_good ?h i v = lake_state dp size_of cfg lake lake_good h i v" for i v
    using lake_state_cut mf d(13) by blast
  have "lake_state dp size_of cfg lake lake_good ?h idx w" using d(2,12) cut by simp
  from publish_state [OF this hist_ok_upto [OF d(1)] _ _ fr(6,7) pb] fr(3,4) mf
  have ps: "\<exists>idx'. lake_state dp size_of cfg lake lake_good ?h idx' w1 \<and> (idx' = idx \<or> index_watermark idx' = c) \<and>
      (x = Ok () \<longrightarrow> index_watermark idx' = c)" "w_dir w1 = w_dir w" "grows (w_getr w) (w_getr w1)" by auto
  then obtain idx' where ix: "lake_state dp size_of cfg lake lake_good ?h idx' w1" "idx' = idx \<or> index_watermark idx' = c"
    "x = Ok () \<longrightarrow> index_watermark idx' = c" by blast
  have le: "index_watermark idx' \<le> c" "b \<le> index_watermark idx'" using ix(2) d(12) bc fr(3) by auto
  let ?e1 = "e\<lparr>en_pos := pos\<rparr>"
  have "wal_state (dp_crc dp) h (index_watermark idx') (w_dir w1) (en_wal e)"
    using wal_state_mono [OF d(3)] le d(13) fr(3) by (simp add: ps(2) order_trans [OF le(1)])
  then have "mid h idx' b c (?e1, w1)"
    using m ix(1) cut [OF le(1)] le fr(2,3) serves_grows [OF ps(3) d(9)] reader_inv_grows [OF ps(3) d(8)] by (simp add: mid_ok_def)
  moreover have "s' = (?e1, w1)" "pc = flush_fail x (IndexNext frozen wm staging)" using st pb d(4) by simp_all
  moreover have "later (e, w) (?e1, w1)" using ps(3) by (simp add: later_def)
  ultimately show ?thesis using fr(1,5) ix(3) unfolding between_at_def by (cases x) auto
qed

lemma index_between:
  assumes m: "mid h idx b c (e, w)" and ph: "phase_ok dp h idx b c (IndexNext frozen wm staging) (e, w)"
    and st: "flush_step dp io (IndexNext frozen wm staging) (e, w) = (pc, s')"
  shows "between_at dp size_of cfg lake lake_good h b c pc s'"
proof -
  note d = mid_dest [OF m]
  from ph have fr: "ms_frozen (en_memtables e) = [frozen]" "index_watermark idx = c" "wm = c" by simp_all
  let ?e1 = "e\<lparr>en_index := idx\<rparr>"
  have "b \<le> c" using d(10-12) by (meson order_trans)
  then have "mid h idx b c (?e1, w)" using m lake_serves [OF d(2)] fr(2) by (auto simp: mid_ok_def)
  moreover have "s' = (e, w) \<and> (\<exists>x. pc = FlushEnd (Err x)) \<or>
      s' = (?e1, w) \<and> pc = TruncateNext frozen wm (Committed wm 1) (Some staging)"
    using st by (auto simp: publish_index_def d(5) lake_calls [OF d(2)] pg_query_def split: option.splits)
  ultimately show ?thesis using m fr unfolding between_at_def by (elim disjE conjE exE) (auto 4 3)
qed

lemma truncate_between:
  assumes m: "mid h idx b c (e, w)" and ph: "phase_ok dp h idx b c (TruncateNext frozen wm y staging) (e, w)"
    and st: "flush_step dp io (TruncateNext frozen wm y staging) (e, w) = (pc, s')"
  shows "between_at dp size_of cfg lake lake_good h b c pc s'"
proof -
  note d = mid_dest [OF m]
  from ph have fr: "ms_frozen (en_memtables e) = [frozen]" "en_index e = idx" "index_watermark idx = c" "wm = c" by simp_all
  from truncate_state [OF d(3)] obtain dir wal where
    tr: "truncate_through c (w_dir w, en_wal e) = Ok (dir, wal)" "wal_state (dp_crc dp) h c dir wal" unfolding fr(3) by blast
  let ?s = "(e\<lparr>en_wal := wal\<rparr>, w\<lparr>w_dir := dir\<rparr>)"
  have "mid h idx b c ?s" using m tr(2) fr(3) by (simp add: mid_ok_def lake_state_def serves_def)
  moreover have "s' = ?s" "pc = RetireNext frozen y staging" using st tr(1) fr(4) by (simp_all add: truncate_wal_def)
  ultimately show ?thesis using fr unfolding between_at_def by auto
qed

lemma retire_between:
  assumes m: "mid h idx b c (e, w)" and ph: "phase_ok dp h idx b c (RetireNext frozen y staging) (e, w)"
    and st: "flush_step dp io (RetireNext frozen y staging) (e, w) = (pc, s')"
  shows "between_at dp size_of cfg lake lake_good h b c pc s'"
proof -
  note d = mid_dest [OF m]
  from ph have fr: "ms_frozen (en_memtables e) = [frozen]" "en_index e = idx" "index_watermark idx = c" by simp_all
  let ?e1 = "e\<lparr>en_memtables := retire frozen (en_memtables e)\<rparr>"
  obtain stg where s': "s' = (?e1, w\<lparr>w_stage := stg\<rparr>)" "pc = FlushEnd (Ok y)"
  proof (cases staging)
    case None
    then show ?thesis using st that [of "w_stage w"] by (simp add: retire_frozen_def)
  next
    case (Some path)
    then show ?thesis using st that [of "AList.delete path (w_stage w)"] by (simp add: retire_frozen_def)
  qed
  have none: "ms_frozen (retire frozen (en_memtables e)) = []" using retire_newest [OF d(6), of "[]"] fr(1) by simp
  have "snd (ms_active (retire frozen (en_memtables e))) = snd (ms_active (en_memtables e))" by (simp add: retire_def)
  then have "mid h idx b c s'" using m none fr(2,3) retire_inv [OF d(6)] by (simp add: mid_ok_def s' lake_state_def serves_def)
  then show ?thesis using none fr(2) s' unfolding between_at_def by auto
qed

text \<open>The index moves only in its own step, the store only when a file is published.\<close>

lemma step_later:
  assumes "mid h idx b c (e, w)" and "phase_ok dp h idx b c pc (e, w)" and "flush_step dp io pc (e, w) = (pc', s')"
  shows "later (e, w) s'"
proof (cases pc)
  case (StageNext frozen wm)
  obtain x w1 where sg: "stage (dp_sm dp) (dp_aw dp) (snd frozen) (staging_path (en_staging_dir e) wm) w = (x, w1)" by fastforce
  from stage_law [OF sg] assms(3) sg show ?thesis by (auto simp: StageNext later_def Let_def)
next
  case (PublishNext frozen wm staging)
  then show ?thesis using publish_between assms by blast
next
  case (IndexNext frozen wm staging)
  then show ?thesis using assms(3) mid_dest(5,11) [OF assms(1)] lake_calls [OF mid_dest(2) [OF assms(1)]]
    by (auto simp: later_def publish_index_def pg_query_def split: option.splits)
qed (use assms(3) in \<open>auto simp: later_def truncate_wal_def retire_frozen_def split: res.splits option.splits plan.splits\<close>)

text \<open>Only the freeze moves the bounds between which the frozen memtable lies.\<close>

lemma flush_step_at:
  assumes "between_at dp size_of cfg lake lake_good h b c pc (e, w)" and "pc \<noteq> FreezeNext" and "flush_step dp io pc (e, w) = (pc', s')"
  shows "between_at dp size_of cfg lake lake_good h b c pc' s'"
proof -
  from assms(1) obtain idx where m: "mid h idx b c (e, w)" "phase_ok dp h idx b c pc (e, w)" unfolding between_at_def by blast
  show ?thesis
  proof (cases pc)
    case (FlushEnd y)
    then show ?thesis using assms(1,3) by simp
  qed (use m assms(2,3) in \<open>auto intro: plan_between stage_between publish_between [THEN conjunct1] index_between
      truncate_between retire_between simp del: flush_step.simps phase_ok.simps\<close>)
qed

lemma flush_step_between:
  assumes "between_ok dp size_of cfg lake lake_good h pc s" and "flush_step dp io pc s = (pc', s')"
  shows "between_ok dp size_of cfg lake lake_good h pc' s' \<and> later s s'"
proof -
  obtain e w where s: "s = (e, w)" by (cases s)
  from assms(1) obtain idx b c where m: "mid h idx b c (e, w)" "phase_ok dp h idx b c pc (e, w)" unfolding between_ok_def s by blast
  have "between_ok dp size_of cfg lake lake_good h pc' s'"
  proof (cases "pc = FreezeNext")
    case True
    then show ?thesis using freeze_between [OF m(1)] m(2) assms(2) by (simp add: s del: flush_step.simps phase_ok.simps)
  next
    case False
    then show ?thesis using flush_step_at [of h b c pc e w io pc' s'] m assms(2) unfolding between_ok_at s between_at_def by blast
  qed
  with step_later [OF m] assms(2) show ?thesis by (simp add: s)
qed

section \<open>Writers and readers beside the flush\<close>

lemma above_new: "c \<le> lsn_max h \<Longrightarrow> lsn_max h < r_lsn r \<Longrightarrow> upto c (h @ [r]) = upto c h \<and> above c (h @ [r]) = above c h @ [r]"
  by (auto dest: order.strict_trans1)

lemma phase_ok_write:
  assumes "phase_ok dp h idx b c pc (e, w)" and "upto c h' = upto c h"
    and "ms_frozen (en_memtables e') = ms_frozen (en_memtables e)" and "en_index e' = en_index e" and "w_stage w' = w_stage w"
  shows "phase_ok dp h' idx b c pc (e', w')"
  using assms by (cases pc) auto

lemma write_between:
  assumes bt: "between_ok dp size_of cfg lake lake_good h pc (e, w)"
    and mk: "hist_ok (dp_crc dp) (h @ [mk (lsn_max h + 1)])" "r_lsn (mk (lsn_max h + 1)) = lsn_max h + 1"
    and calm: "\<not> should_freeze (set_insert (dp_sm dp) (mk (lsn_max h + 1)) (en_memtables e))"
  shows "\<exists>e' w'. (\<forall>io. with_lsn dp io mk (e, w) = (Ok (lsn_max h + 1), (e', w'))) \<and>
           between_ok dp size_of cfg lake lake_good (h @ [mk (lsn_max h + 1)]) pc (e', w') \<and> later (e, w) (e', w')"
proof -
  from bt obtain idx b c where m: "mid h idx b c (e, w)" and ph: "phase_ok dp h idx b c pc (e, w)" unfolding between_ok_def by blast
  note d = mid_dest [OF m]
  let ?r = "mk (lsn_max h + 1)" and ?wm = "index_watermark idx"
  let ?h = "h @ [?r]"
  have lt: "lsn_max h < r_lsn ?r" using next_lsn(1) [OF d(1)] mk(2) by simp
  then have mx: "lsn_max ?h = r_lsn ?r" by (simp add: less_imp_le)
  note cut = above_new [OF d(13) lt]
  have wm: "?wm \<le> lsn_max h" "index_watermark (en_index e) \<le> lsn_max h" using d(11-13) by (meson order_trans)+
  from append_state(1) [OF d(3,1) mk wm(1)] obtain dir wal where
    a: "wal_append (dp_crc dp) [?r] (w_dir w, en_wal e) = Ok (dir, wal)" "wal_state (dp_crc dp) ?h ?wm dir wal" by blast
  let ?e = "e\<lparr>en_next_lsn := lsn_max h + 1 + 1, en_wal := wal, en_memtables := set_insert (dp_sm dp) ?r (en_memtables e)\<rparr>"
  let ?w = "w\<lparr>w_dir := dir\<rparr>"
  have lake: "lake_state dp size_of cfg lake lake_good ?h idx ?w" using lake_st_snoc [OF d(2) lt] by simp
  have sv: "serves dp size_of lake ?h (en_index e) ?w" using d(9) above_new [OF wm(2) lt] by (simp add: serves_def)
  have nx: "lsn_max ?h + 1 = lsn_max h + 1 + 1" by (simp only: mx mk(2))
  have act: "mt_holds (dp_sm dp) (snd (ms_active (set_insert (dp_sm dp) ?r (en_memtables e)))) (above c ?h)"
    using mt_holds_insert [OF d(14)] cut by (simp add: set_insert_def)
  have fz: "ms_frozen (set_insert (dp_sm dp) ?r (en_memtables e)) = ms_frozen (en_memtables e)" by (simp add: set_insert_def)
  have "c \<le> lsn_max ?h" using d(13) lt unfolding mx by (meson less_imp_le order_trans)
  then have "mid ?h idx b c (?e, ?w)"
    unfolding mid_ok_def prod.case using d mk(1) a(2) lake sv act fz nx set_insert_inv [OF d(6)] cut by (intro conjI) simp_all
  moreover have "phase_ok dp ?h idx b c pc (?e, ?w)" using phase_ok_write [OF ph, of ?h ?e ?w] cut fz by simp
  moreover have "with_lsn dp io mk (e, w) = (Ok (lsn_max h + 1), (?e, ?w))" for io
    using calm by (simp add: with_lsn_def engine_append_def Let_def a(1) d(7))
  moreover have "later (e, w) (?e, ?w)" by (simp add: later_def)
  ultimately show ?thesis unfolding between_ok_def by (intro exI [of _ ?e] exI [of _ ?w]) auto
qed

lemma get_between:
  assumes "between_ok dp size_of cfg lake lake_good h pc (e, w)"
  shows "\<exists>n st. engine_get dp k (e, w) = (Ok (value_of (apply_log h k)), ((charge_gets dp n e)\<lparr>en_reader := st\<rparr>, w)) \<and>
           between_ok dp size_of cfg lake lake_good h pc ((charge_gets dp n e)\<lparr>en_reader := st\<rparr>, w)"
proof -
  from assms obtain idx b c where m: "mid h idx b c (e, w)" and ph: "phase_ok dp h idx b c pc (e, w)" unfolding between_ok_def by blast
  from mid_get [OF m, of k] obtain n st where
    g: "engine_get dp k (e, w) = (Ok (value_of (apply_log h k)), ((charge_gets dp n e)\<lparr>en_reader := st\<rparr>, w))" "mid h idx b c ((charge_gets dp n e)\<lparr>en_reader := st\<rparr>, w)" by blast
  moreover have "phase_ok dp h idx b c pc ((charge_gets dp n e)\<lparr>en_reader := st\<rparr>, w)" using phase_ok_write [OF ph] by simp
  ultimately show ?thesis unfolding between_ok_def by blast
qed

lemma crash_between:
  assumes "between_ok dp size_of cfg lake lake_good h pc (e, w)"
  shows "\<exists>e' w'. engine_open dp pg_up cfg (crashed keep_to st w) = (Ok e', w') \<and> en_next_lsn e' = lsn_max h + 1 \<and>
           (\<forall>k. fst (engine_get dp k (e', w')) = Ok (value_of (apply_log h k)))"
proof -
  from assms have "safe dp size_of cfg lake lake_good h (e, w)" unfolding between_ok_def using mid_safe by blast
  then have d: "down_ok dp size_of cfg lake lake_good h (crashed keep_to st w)" using safe_crash by (simp add: crashed_def)
  obtain x w' where o: "engine_open dp pg_up cfg (crashed keep_to st w) = (x, w')" by fastforce
  from open_state(3) [OF d o] obtain e' where "x = Ok e'" by auto
  moreover from this open_state(1) [OF d o] have up: "up_ok dp size_of cfg lake lake_good h (e', w')" by simp
  moreover have "fst (engine_get dp k (e', w')) = Ok (value_of (apply_log h k))" for k
    using get_state [OF up, of k] by (auto simp: value_of_def)
  ultimately show ?thesis using o up_ok_dest(9) [OF up] by auto
qed

end

text \<open>
  A step beside a flush: a step of the flush, a whole write that does not itself call for a flush, a read,
  or the start of the next flush after one that returned.
\<close>

inductive beside_step ::
    "('m, 'f) deps \<Rightarrow> wrecord list \<times> 'm flush_pc \<times> ('m, 'f) state \<Rightarrow> wrecord list \<times> 'm flush_pc \<times> ('m, 'f) state \<Rightarrow> bool"
  for dp :: "('m, 'f) deps" where
  step_flush: "flush_step dp io pc s = (pc', s') \<Longrightarrow> beside_step dp (h, pc, s) (h, pc', s')"
| step_write: "hist_ok (dp_crc dp) (h @ [request_record q (en_next_lsn e)]) \<Longrightarrow>
    \<not> should_freeze (set_insert (dp_sm dp) (request_record q (en_next_lsn e)) (en_memtables e)) \<Longrightarrow>
    with_lsn dp io (request_record q) (e, w) = (x, s') \<Longrightarrow>
    beside_step dp (h, pc, (e, w)) (h @ [request_record q (en_next_lsn e)], pc, s')"
| step_read: "engine_get dp k s = (x, s') \<Longrightarrow> beside_step dp (h, pc, s) (h, pc, s')"
| step_again: "beside_step dp (h, FlushEnd (Ok y), s) (h, FreezeNext, s)"

definition beside ::
    "('m, 'f) deps \<Rightarrow> 'f config \<Rightarrow> duck_lake \<Rightarrow> (catalog_db \<Rightarrow> get_range \<Rightarrow> bool)
      \<Rightarrow> wrecord list \<Rightarrow> 'm flush_pc \<Rightarrow> ('m, 'f) state \<Rightarrow> bool" where
  "beside dp cfg lake lake_good h pc s \<longleftrightarrow>
     (\<exists>h0 e0 w0. reach dp cfg lake lake_good h0 (Some e0) w0 \<and> (beside_step dp)\<^sup>*\<^sup>* (h0, FreezeNext, (e0, w0)) (h, pc, s))"

inductive_cases beside_stepE: "beside_step dp (h, pc, s) (h', pc', s')"

lemma request_lsn [simp]: "r_lsn (request_record q l) = l"
  by (cases q) simp_all

context engine_env
begin

lemma beside_step_ok:
  assumes "beside_step dp (h, pc, s) (h', pc', s')" and "between_ok dp size_of cfg lake lake_good h pc s"
  shows "between_ok dp size_of cfg lake lake_good h' pc' s' \<and> prefix h h' \<and> later s s'"
  using assms(1)
proof (rule beside_stepE)
  fix io
  assume "h' = h" and "flush_step dp io pc s = (pc', s')"
  then show ?thesis using flush_step_between assms(2) by blast
next
  fix q e io w x
  assume w: "s = (e, w)" "h' = h @ [request_record q (en_next_lsn e)]" "pc' = pc"
    "hist_ok (dp_crc dp) (h @ [request_record q (en_next_lsn e)])"
    "\<not> should_freeze (set_insert (dp_sm dp) (request_record q (en_next_lsn e)) (en_memtables e))"
    "with_lsn dp io (request_record q) (e, w) = (x, s')"
  have nx: "en_next_lsn e = lsn_max h + 1" using assms(2) w(1) by (auto simp: between_ok_def mid_ok_def)
  from write_between [OF assms(2) [unfolded w(1)], where mk = "request_record q"] w nx show ?thesis by force
next
  fix k x
  assume r: "h' = h" "pc' = pc" "engine_get dp k s = (x, s')"
  obtain e w where "s = (e, w)" by (cases s)
  with get_between [of h pc e w k] assms(2) r show ?thesis by (auto simp: later_def)
next
  fix y
  assume "s' = s" "h' = h" "pc = FlushEnd (Ok y)" "pc' = FreezeNext"
  then show ?thesis using assms(2) unfolding between_ok_def by (cases s) auto
qed

abbreviation (input) run_ok :: "wrecord list \<times> 'm flush_pc \<times> ('m, 'f) state \<Rightarrow> bool" where
  "run_ok x \<equiv> between_ok dp size_of cfg lake lake_good (fst x) (fst (snd x)) (snd (snd x))"

lemma beside_run_ok:
  assumes "(beside_step dp)\<^sup>*\<^sup>* x y" and "run_ok x"
  shows "run_ok y \<and> prefix (fst x) (fst y) \<and> later (snd (snd x)) (snd (snd y))"
  using assms
proof (induction rule: rtranclp_induct)
  case (step y z)
  then show ?case
    using beside_step_ok [of "fst y" "fst (snd y)" "snd (snd y)" "fst z" "fst (snd z)" "snd (snd z)"]
    by (auto intro: later_trans prefix_order.trans)
qed simp

lemma beside_ok:
  assumes "beside dp cfg lake lake_good h pc s"
  shows "between_ok dp size_of cfg lake lake_good h pc s"
proof -
  from assms obtain h0 e0 w0 where r: "reach dp cfg lake lake_good h0 (Some e0) w0"
    and st: "(beside_step dp)\<^sup>*\<^sup>* (h0, FreezeNext, (e0, w0)) (h, pc, s)" unfolding beside_def by blast
  have "between_ok dp size_of cfg lake lake_good h0 FreezeNext (e0, w0)" using up_mid reach_ok [OF r] by simp
  with beside_run_ok [OF st] show ?thesis by simp
qed

section \<open>A read held up\<close>

lemma mid_look: "set_get (dp_sm dp) ms k = lookup_of (set_view (dp_sm dp) ms k)"
  using level.get_view [OF skipmap.set_level [OF skip]] by metis

lemma look_hit:
  assumes "between_ok dp size_of cfg lake lake_good h pc (e, w)" and "set_view (dp_sm dp) (en_memtables e) k = Some x"
  shows "apply_log h k = Some x"
  using assms mid_view unfolding between_ok_def by (metis map_add_find_right)

lemma look_missed:
  assumes "between_ok dp size_of cfg lake lake_good h pc (e, w)" and "set_view (dp_sm dp) (en_memtables e) k = None"
    and "r \<in> set h" and "r_key r = k"
  shows "r_lsn r \<le> index_watermark (en_index e)"
proof -
  from assms(1) obtain idx b c where m: "mid h idx b c (e, w)" unfolding between_ok_def by blast
  note d = mid_dest [OF m]
  have srt: "sorted_wrt (<) (map r_lsn h)" "sorted_wrt (<) (map r_lsn (upto c h))"
    using d(1) by (simp_all add: hist_ok_def upto_def sorted_wrt_map sorted_wrt_filter)
  have "mt_view (dp_sm dp) (snd (ms_active (en_memtables e))) k = None" using assms(2) by (simp add: set_view_def)
  then have "r \<notin> set (above c h)" using assms(4) skipmap.mt_holds_view [OF skip d(14) above_sorted [OF srt(1)]] by (auto simp: apply_log_None)
  then have rc: "r_lsn r \<le> c" using assms(3) by (simp add: above_def not_less)
  from d(15) show ?thesis
  proof (elim disjE exE conjE)
    fix frozen
    assume fr: "ms_frozen (en_memtables e) = [frozen]" "mt_holds (dp_sm dp) (snd frozen) (above b (upto c h))"
    then have "mt_view (dp_sm dp) (snd frozen) k = None" using assms(2) by (auto simp: set_view_def)
    then have "r \<notin> set (above b (upto c h))" using assms(4) skipmap.mt_holds_view [OF skip fr(2) above_sorted [OF srt(2)]] by (auto simp: apply_log_None)
    then have "r_lsn r \<le> b" using rc assms(3) by (simp add: above_def upto_def not_less)
    with d(10) show ?thesis by (rule order_trans [rotated])
  qed (use rc in simp)
qed

lemma files_read_late:
  assumes m: "between_ok dp size_of cfg lake lake_good h pc (e, w)" and l: "between_ok dp size_of cfg lake lake_good h' pc' (e', w')"
    and gr: "grows (w_getr w) (w_getr w')"
  shows "\<exists>n st. get_step dp k (FilesNext (en_index e)) (e', w') =
     (GetEnd (Ok (value_of (apply_log (upto (index_watermark (en_index e)) h) k))), ((charge_gets dp n e')\<lparr>en_reader := st\<rparr>, w'))"
proof -
  from m have "serves dp size_of lake h (en_index e) w" unfolding between_ok_def using mid_dest(9) by blast
  from serves_grows [OF gr this] obtain files where
    files: "list_all2 (entry_serves (dp_pq dp) (w_getr w') (dp_path_from dp) (lake_bucket lake) size_of) (en_index e) files"
    "files_view files = apply_log (upto (index_watermark (en_index e)) h)" unfolding serves_def by blast
  from l have rd: "reader_inv (w_getr w') (pq_load (dp_pq dp)) size_of (en_reader e')" "en_lake e' = lake"
    unfolding between_ok_def using mid_dest(5,8) by blast+
  from columnar_get_spec [OF files(1) sched rd(1), of k] obtain st where
    "columnar_get (dp_pq dp) (w_getr w') (dp_sched dp) (dp_path_from dp) (lake_bucket lake) (en_index e) k (en_reader e')
       = (Ok (lookup_of (files_view files k)), st)" by blast
  then show ?thesis
    by (intro exI [of _ "length (columnar_requests (dp_pq dp) (w_getr w') (dp_sched dp) (dp_path_from dp) (lake_bucket lake) (en_index e) k (en_reader e'))"] exI [of _ st])
      (auto simp: Let_def rd(2) files(2) value_of_def lookup_of_def split: option.splits op.splits)
qed

lemma held_read:
  assumes ok: "between_ok dp size_of cfg lake lake_good h1 pc1 s1" and look: "get_step dp k LookNext s1 = (g1, t1)"
    and run1: "(beside_step dp)\<^sup>*\<^sup>* (h1, pc1, t1) (h2, pc2, s2)" and claim: "get_step dp k g1 s2 = (g2, t2)"
    and run2: "(beside_step dp)\<^sup>*\<^sup>* (h2, pc2, t2) (h3, pc3, s3)" and files: "get_step dp k g2 s3 = (g3, t3)"
  shows "\<exists>h. prefix h1 h \<and> prefix h h3 \<and> g3 = GetEnd (Ok (value_of (apply_log h k)))"
proof -
  obtain e1 w1 e2 w2 e3 w3 where s: "s1 = (e1, w1)" "s2 = (e2, w2)" "s3 = (e3, w3)" by (metis prod.exhaust)
  have t1: "t1 = s1" using look by (simp add: s)
  note r1 = beside_run_ok [OF run1, unfolded t1, simplified, OF ok]
  show ?thesis
  proof (cases "set_view (dp_sm dp) (en_memtables e1) k")
    case None
    then have g1: "g1 = ClaimNext" using look by (simp add: s mid_look lookup_of_def)
    then have g2: "g2 = FilesNext (en_index e2)" "t2 = s2" using claim by (simp_all add: s)
    note r2 = beside_run_ok [OF run2, unfolded g2(2), simplified, OF r1 [THEN conjunct1]]
    have "\<exists>n st. get_step dp k (FilesNext (en_index e2)) (e3, w3) =
       (GetEnd (Ok (value_of (apply_log (upto (index_watermark (en_index e2)) h2) k))), ((charge_gets dp n e3)\<lparr>en_reader := st\<rparr>, w3))"
      by (rule files_read_late) (use r1 r2 in \<open>auto simp: s later_def\<close>)
    then have g3: "g3 = GetEnd (Ok (value_of (apply_log (upto (index_watermark (en_index e2)) h2) k)))"
      using files g2(1) s(3) by auto
    have srt: "sorted_wrt (<) (map r_lsn h2)" using r1 mid_dest(1) unfolding between_ok_def s hist_ok_def by blast
    have "\<forall>r \<in> set h1. r_key r = k \<longrightarrow> r_lsn r \<le> index_watermark (en_index e2)"
      using look_missed [OF ok [unfolded s] None] r1 by (auto simp: s later_def intro: order_trans)
    from upto_between [OF srt _ this] r1 r2 g3 show ?thesis by (auto intro: prefix_order.trans)
  next
    case (Some x)
    then have "g1 = GetEnd (Ok (value_of (apply_log h1 k)))"
      using look look_hit [OF ok [unfolded s] Some] by (auto simp: s mid_look lookup_of_def value_of_def split: op.splits prod.splits)
    then show ?thesis using claim files beside_run_ok [OF run2] r1 by (auto intro: prefix_order.trans)
  qed
qed

end

section \<open>Playing steps\<close>

datatype beside_act = ActFlush | ActWrite request | ActRead bytes

fun beside_do ::
    "('m, 'f) deps \<Rightarrow> beside_act \<Rightarrow> wrecord list \<times> 'm flush_pc \<times> ('m, 'f) state
      \<Rightarrow> (wrecord list \<times> 'm flush_pc \<times> ('m, 'f) state) option" where
  "beside_do dp ActFlush (h, pc, s) = Some (h, flush_step dp pg_up pc s)"
| "beside_do dp (ActRead k) (h, pc, s) = Some (h, pc, snd (engine_get dp k s))"
| "beside_do dp (ActWrite q) (h, pc, (e, w)) =
     (let r = request_record q (en_next_lsn e)
      in if \<not> should_freeze (set_insert (dp_sm dp) r (en_memtables e))
         then Some (h @ [r], pc, snd (with_lsn dp pg_up (request_record q) (e, w))) else None)"

fun beside_play ::
    "('m, 'f) deps \<Rightarrow> beside_act list \<Rightarrow> wrecord list \<times> 'm flush_pc \<times> ('m, 'f) state
      \<Rightarrow> (wrecord list \<times> 'm flush_pc \<times> ('m, 'f) state) option" where
  "beside_play dp [] x = Some x"
| "beside_play dp (a # as) x = Option.bind (beside_do dp a x) (beside_play dp as)"

lemma hist_ok_prefix: "hist_ok crc h' \<Longrightarrow> prefix h h' \<Longrightarrow> hist_ok crc h"
  by (auto elim!: prefixE dest: hist_ok_appendD)

lemma beside_do_step:
  assumes "beside_do dp a x = Some y" and "hist_ok (dp_crc dp) (fst y)"
  shows "beside_step dp x y \<and> prefix (fst x) (fst y)"
proof (cases a)
  case ActFlush
  obtain h pc s pc' s' where "x = (h, pc, s)" "flush_step dp pg_up pc s = (pc', s')" by (metis prod.exhaust)
  then show ?thesis using assms step_flush [of dp pg_up pc s pc' s' h] by (auto simp: ActFlush)
next
  case (ActWrite q)
  obtain h pc e w z s' where "x = (h, pc, (e, w))" "with_lsn dp pg_up (request_record q) (e, w) = (z, s')" by (metis prod.exhaust)
  then show ?thesis using assms step_write [of dp h q e pg_up w z s' pc] by (auto simp: ActWrite Let_def split: if_splits)
next
  case (ActRead k)
  obtain h pc s z s' where "x = (h, pc, s)" "engine_get dp k s = (z, s')" by (metis prod.exhaust)
  then show ?thesis using assms step_read [of dp k s z s' h pc] by (auto simp: ActRead)
qed

lemma beside_play_prefix: "beside_play dp as x = Some y \<Longrightarrow> prefix (fst x) (fst y)"
proof (induction as arbitrary: x)
  case (Cons a as)
  then obtain z where z: "beside_do dp a x = Some z" "beside_play dp as z = Some y" by (auto simp: Option.bind_eq_Some_conv)
  obtain h pc e w where "x = (h, pc, (e, w))" by (metis prod.exhaust)
  with z(1) have "prefix (fst x) (fst z)" by (cases a) (auto simp: Let_def split: if_splits)
  with Cons.IH [OF z(2)] show ?case by (metis prefix_order.trans)
qed simp

lemma beside_play_run: "beside_play dp as x = Some y \<Longrightarrow> hist_ok (dp_crc dp) (fst y) \<Longrightarrow> (beside_step dp)\<^sup>*\<^sup>* x y"
proof (induction as arbitrary: x)
  case (Cons a as)
  then obtain z where z: "beside_do dp a x = Some z" "beside_play dp as z = Some y" by (auto simp: Option.bind_eq_Some_conv)
  have "hist_ok (dp_crc dp) (fst z)" using Cons.prems(2) beside_play_prefix [OF z(2)] by (rule hist_ok_prefix)
  with beside_do_step [OF z(1)] Cons.IH [OF z(2) Cons.prems(2)] show ?case by (auto intro: converse_rtranclp_into_rtranclp)
qed simp

lemma beside_played: "hist_ok (dp_crc mem_deps) h \<Longrightarrow> beside_play mem_deps as ([], FreezeNext, race_start) = Some (h, pc, s) \<Longrightarrow> beside mem_deps mem_cfg mem_lake mem_good h pc s"
  unfolding beside_def using beside_play_run race_reach by (metis fst_conv prod.collapse)

text \<open>Key 1 is written, a flush starts and has published when key 7 is written; later that flush ends and the next one is done.\<close>

definition beside_script :: "beside_act list" where
  "beside_script = [ActWrite (PutReq [1] [2]), ActFlush, ActFlush, ActFlush, ActFlush, ActWrite (PutReq [7] [9])]"

definition beside_hist :: "wrecord list" where
  "beside_hist = [record_put [1] 1 [2], record_put [7] 2 [9]]"

lemma beside_hist_values:
  "lsn_max beside_hist = 2" "value_of (apply_log beside_hist [1]) = Some [2]" "value_of (apply_log beside_hist [7]) = Some [9]"
  by (simp_all add: beside_hist_def apply_log_def apply_rec_def record_put_def value_of_def)

lemma beside_hist_ok: "hist_ok (dp_crc mem_deps) beside_hist"
  by (simp add: hist_ok_def beside_hist_def record_put_def fits_def length_frame)

definition beside_at :: "((bytes \<times> entry) list flush_pc) \<Rightarrow> lsn option" where
  "beside_at pc = (case pc of IndexNext frozen wm path \<Rightarrow> Some wm | _ \<Rightarrow> None)"

lemma beside_script_runs:
  "map_option (\<lambda>(h, pc, s). (h, beside_at pc)) (beside_play mem_deps beside_script ([], FreezeNext, race_start))
   = Some (beside_hist, Some 1)"
  by code_simp

lemma beside_script_beside:
  "\<exists>frozen path e w. beside mem_deps mem_cfg mem_lake mem_good beside_hist (IndexNext frozen 1 path) (e, w)"
proof -
  from beside_script_runs obtain pc e w where
    p: "beside_play mem_deps beside_script ([], FreezeNext, race_start) = Some (beside_hist, pc, (e, w))" "beside_at pc = Some 1" by auto
  from p(2) obtain frozen path where "pc = IndexNext frozen 1 path" by (auto simp: beside_at_def split: flush_pc.splits)
  with beside_played [OF beside_hist_ok p(1)] show ?thesis by blast
qed

section \<open>What is seen beside a flush\<close>

text \<open>
  C5. Reads beside a flush. In every state between the steps of a flush, whatever its calls returned and also
  after it failed, with any writes and reads that came between, a read answers with the last write to the key.
\<close>

theorem reads_beside_flush:
  assumes "engine_env dp size_of cfg lake lake_good" and "beside dp cfg lake lake_good h pc (e, w)"
  shows "fst (engine_get dp k (e, w)) = Ok (value_of (apply_log h k))"
  using engine_env.get_between [OF assms(1) engine_env.beside_ok [OF assms], of k] by auto

theorem reads_beside_flush_witness:
  "\<exists>h frozen path e w. beside mem_deps mem_cfg mem_lake mem_good h (IndexNext frozen 1 path) (e, w) \<and>
     fst (engine_get mem_deps [1] (e, w)) = Ok (Some [2]) \<and> fst (engine_get mem_deps [7] (e, w)) = Ok (Some [9])"
proof -
  from beside_script_beside obtain frozen path e w where
    b: "beside mem_deps mem_cfg mem_lake mem_good beside_hist (IndexNext frozen 1 path) (e, w)" by blast
  from reads_beside_flush [OF mem.engine_env_axioms b, of "[1]"] reads_beside_flush [OF mem.engine_env_axioms b, of "[7]"] b
  show ?thesis unfolding beside_hist_values by blast
qed

text \<open>
  C4. A crash beside a flush. Kill the process between any two steps of a flush, after writes that came in
  while it ran, and lose every byte that was not synced: the engine opens again and every read answers
  from the whole history, the writes beside the flush included.
\<close>

theorem crash_beside_flush:
  assumes "engine_env dp size_of cfg lake lake_good" and "beside dp cfg lake lake_good h pc (e, w)"
  shows "\<exists>e' w'. engine_open dp pg_up cfg (crashed keep_to st w) = (Ok e', w') \<and> en_next_lsn e' = lsn_max h + 1 \<and>
           (\<forall>k. fst (engine_get dp k (e', w')) = Ok (value_of (apply_log h k)))"
  using engine_env.crash_between [OF assms(1) engine_env.beside_ok [OF assms]] .

theorem crash_beside_flush_witness:
  "\<exists>frozen path e w e' w'. beside mem_deps mem_cfg mem_lake mem_good beside_hist (IndexNext frozen 1 path) (e, w) \<and>
     engine_open mem_deps pg_up mem_cfg (crashed (\<lambda>_. 0) [] w) = (Ok e', w') \<and> en_next_lsn e' = 3 \<and>
     fst (engine_get mem_deps [1] (e', w')) = Ok (Some [2]) \<and> fst (engine_get mem_deps [7] (e', w')) = Ok (Some [9])"
proof -
  from beside_script_beside obtain frozen path e w where
    b: "beside mem_deps mem_cfg mem_lake mem_good beside_hist (IndexNext frozen 1 path) (e, w)" by blast
  from crash_beside_flush [OF mem.engine_env_axioms b, of "\<lambda>_. 0" "[]"] obtain e' w' where
    "engine_open mem_deps pg_up mem_cfg (crashed (\<lambda>_. 0) [] w) = (Ok e', w')" "en_next_lsn e' = 3"
    "\<forall>k. fst (engine_get mem_deps k (e', w')) = Ok (value_of (apply_log beside_hist k))" by (auto simp: beside_hist_values)
  with b show ?thesis unfolding beside_hist_values [symmetric] by blast
qed

text \<open>
  C6. A read held up is still a read. A \<open>get\<close> looks at the memtables, later takes the index and later still
  reads the files of that index, while a flush, writes and other reads go on. What it returns is the value
  the key had at some moment between its first and its last step: it never misses a value that a flush
  carries from one level to the other under it.
\<close>

theorem held_up_read:
  assumes "engine_env dp size_of cfg lake lake_good" and "beside dp cfg lake lake_good h1 pc1 s1"
    and "get_step dp k LookNext s1 = (g1, t1)" and "(beside_step dp)\<^sup>*\<^sup>* (h1, pc1, t1) (h2, pc2, s2)"
    and "get_step dp k g1 s2 = (g2, t2)" and "(beside_step dp)\<^sup>*\<^sup>* (h2, pc2, t2) (h3, pc3, s3)"
    and "get_step dp k g2 s3 = (g3, t3)"
  shows "\<exists>h. prefix h1 h \<and> prefix h h3 \<and> g3 = GetEnd (Ok (value_of (apply_log h k)))"
  using engine_env.held_read [OF assms(1) engine_env.beside_ok [OF assms(1,2)] assms(3-7)] .

lemma held_script_runs:
  "Option.bind (beside_play mem_deps (ActWrite (PutReq [1] [2]) # replicate 7 ActFlush) ([], FreezeNext, race_start))
     (\<lambda>x. map_option (\<lambda>y. (fst x, set_get (dp_sm mem_deps) (en_memtables (fst (snd (snd x)))) [1], fst y))
       (beside_play mem_deps [ActWrite (PutReq [7] [9])] x))
   = Some ([record_put [1] 1 [2]], Missing, beside_hist)"
  by code_simp

theorem held_up_read_witness:
  "\<exists>pc s1 pc2 s2 g t t3. beside mem_deps mem_cfg mem_lake mem_good [record_put [1] 1 [2]] pc s1 \<and>
     get_step mem_deps [1] LookNext s1 = (ClaimNext, s1) \<and>
     beside_play mem_deps [ActWrite (PutReq [7] [9])] ([record_put [1] 1 [2]], pc, s1) = Some (beside_hist, pc2, s2) \<and>
     get_step mem_deps [1] ClaimNext s2 = (g, t) \<and> get_step mem_deps [1] g t = (GetEnd (Ok (Some [2])), t3)"
proof -
  let ?h1 = "[record_put [1] 1 [2]]"
  from held_script_runs obtain pc s1 pc2 s2 where
    p: "beside_play mem_deps (ActWrite (PutReq [1] [2]) # replicate 7 ActFlush) ([], FreezeNext, race_start) = Some (?h1, pc, s1)"
    "set_get (dp_sm mem_deps) (en_memtables (fst s1)) [1] = Missing"
    "beside_play mem_deps [ActWrite (PutReq [7] [9])] (?h1, pc, s1) = Some (beside_hist, pc2, s2)"
    by (auto simp: Option.bind_eq_Some_conv simp del: beside_play.simps)
  have ok: "hist_ok (dp_crc mem_deps) ?h1" using beside_hist_ok by (rule hist_ok_prefix) (simp add: beside_hist_def)
  note b = beside_played [OF ok p(1)]
  have l: "get_step mem_deps [1] LookNext s1 = (ClaimNext, s1)" using p(2) by (cases s1) simp
  note run = beside_play_run [OF p(3), simplified, OF beside_hist_ok]
  obtain g t g3 t3 where g: "get_step mem_deps [1] ClaimNext s2 = (g, t)" "get_step mem_deps [1] g t = (g3, t3)" by (metis prod.exhaust)
  from held_up_read [OF mem.engine_env_axioms b l run g(1) rtranclp.rtrancl_refl g(2)] obtain h where
    h: "prefix ?h1 h" "prefix h beside_hist" "g3 = GetEnd (Ok (value_of (apply_log h [1])))" by blast
  have "value_of (apply_log h [1]) = Some [2]"
    using h(1,2) by (auto simp: beside_hist_def prefix_Cons apply_log_def apply_rec_def record_put_def value_of_def)
  with b l p(3) g h(3) show ?thesis by metis
qed

section \<open>Two flushes at once\<close>

text \<open>
  Nothing keeps two flushes apart: \<open>flush\<close> takes no lock, and every write that fills the active memtable
  starts one. Here the first has frozen its memtable and waits for Postgres while the second, for a write that came
  after, runs to its end.
\<close>

definition overlap_trace where
  "overlap_trace =
     (let (x1, s1) = engine_put mem_deps pg_up [1] [2] race_start;
          (a1, s2) = flush_step mem_deps pg_up FreezeNext s1;
          (x2, s3) = engine_put mem_deps pg_up [7] [9] s2;
          (f2, s4) = engine_flush mem_deps pg_up s3;
          (g1, s5) = engine_get mem_deps [1] s4;
          (a2, s6) = flush_run mem_deps pg_up 6 (a1, s5);
          (g2, s7) = engine_get mem_deps [1] s6;
          (x3, w8) = engine_open mem_deps pg_up mem_cfg (snd s7);
          (g3, s8) = engine_get mem_deps [1] (ok_val x3, w8)
      in (x1, x2, f2, g1, case a2 of FlushEnd y \<Rightarrow> Some y | _ \<Rightarrow> None, g2, g3))"


end
