(* ===== verification/Flush_Writers.thy ===== *)
theory Flush_Writers
  imports Flush_Steps
begin

text \<open>
  Writers in three steps beside a flush in seven, \<^verbatim>\<open>src/src/engine.rs\<close>. \<open>mixed_step\<close> is one step of a writer, of the
  flush, or a read; a memtable is frozen only while no writer stands between taking its number and inserting its
  record, which is what the schedule of \<open>late_append_lost\<close> does not keep.

  Shown: reads answer from the acknowledged writes, and a crash between any two steps loses none of them. The proof
  looks at the settled state, in which the records that are logged and not yet inserted are inserted: the steps
  of the flush do not notice the difference, and in the settled state the lemmas of \<open>Flush_Steps\<close> apply.
\<close>

section \<open>Steps\<close>

fun in_flight :: "task \<Rightarrow> wrecord list" where
  "in_flight (Numbered r) = [r]"
| "in_flight (Logged r) = [r]"
| "in_flight _ = []"

fun pending :: "task \<Rightarrow> wrecord list" where
  "pending (Logged r) = [r]"
| "pending _ = []"

definition quiet :: "task list \<Rightarrow> bool" where
  "quiet ts \<longleftrightarrow> all_tasks in_flight ts = []"

inductive mixed_step ::
    "('m, 'f) deps \<Rightarrow> task list \<times> 'm flush_pc \<times> ('m, 'f) state \<Rightarrow> task list \<times> 'm flush_pc \<times> ('m, 'f) state \<Rightarrow> bool"
  for dp :: "('m, 'f) deps" where
  mixed_task: "i < length ts \<Longrightarrow> task_step dp io (ts ! i) (e, w) = (t, s') \<Longrightarrow>
    (\<And>r. ts ! i = Logged r \<Longrightarrow> \<not> should_freeze (set_insert (dp_sm dp) r (en_memtables e))) \<Longrightarrow>
    mixed_step dp (ts, pc, (e, w)) (ts[i := t], pc, s')"
| mixed_flush: "(pc = FreezeNext \<Longrightarrow> quiet ts) \<Longrightarrow> flush_step dp io pc s = (pc', s') \<Longrightarrow> mixed_step dp (ts, pc, s) (ts, pc', s')"
| mixed_read: "engine_get dp k s = (x, s') \<Longrightarrow> mixed_step dp (ts, pc, s) (ts, pc, s')"
| mixed_again: "mixed_step dp (ts, FlushEnd (Ok y), s) (ts, FreezeNext, s)"

inductive_cases mixed_stepE: "mixed_step dp (ts, pc, s) (ts', pc', s')"

lemmas mixed_step_cases = mixed_stepE [consumes 1, case_names task flush read again]

section \<open>Histories\<close>

definition log_hist :: "wrecord list \<Rightarrow> task list \<Rightarrow> wrecord list" where
  "log_hist h ts = h @ sort_key r_lsn (all_tasks logged_by ts)"

definition ack_hist :: "wrecord list \<Rightarrow> task list \<Rightarrow> wrecord list" where
  "ack_hist h ts = h @ sort_key r_lsn (all_tasks acked_by ts)"

lemma all_tasks_eq: "i < length ts \<Longrightarrow> f t = f (ts ! i) \<Longrightarrow> all_tasks f (ts[i := t]) = all_tasks f ts"
  unfolding all_tasks_def by (metis list_update_id map_update)

lemma logged_split: "mset (all_tasks logged_by ts) = mset (all_tasks acked_by ts) + mset (all_tasks pending ts)"
proof (induction ts)
  case (Cons t ts)
  then show ?case by (cases t) (simp_all add: all_tasks_def)
qed (simp add: all_tasks_def)

lemma pending_in_flight: "set (all_tasks pending ts) \<subseteq> set (all_tasks in_flight ts)"
proof (induction ts)
  case (Cons t ts)
  then show ?case by (cases t) (auto simp: all_tasks_def)
qed (simp add: all_tasks_def)

lemma quiet_logged: "quiet ts \<Longrightarrow> all_tasks pending ts = [] \<and> all_tasks logged_by ts = all_tasks acked_by ts"
proof (induction ts)
  case (Cons t ts)
  then show ?case by (cases t) (auto simp: all_tasks_def quiet_def)
qed (simp add: all_tasks_def quiet_def)

lemma acked_sub: "mset (all_tasks acked_by ts) \<subseteq># mset (all_tasks task_records ts)"
proof (rule all_tasks_sub)
  show "mset (acked_by t) \<subseteq># mset (task_records t)" for t by (cases t) simp_all
qed

lemma hist_sorted:
  assumes num: "numbers_ok n0 ts s" and low: "lsn_max h < n0" and srt: "sorted_wrt (<) (map r_lsn h)"
    and sub: "mset xs \<subseteq># mset (all_tasks task_records ts)"
  shows "sorted_wrt (<) (map r_lsn (h @ sort_key r_lsn xs))"
proof -
  note ns = numbers_ok_sub [OF num sub]
  have "r_lsn a < r_lsn x" if "a \<in> set h" "x \<in> set xs" for a x
    using lsn_max_ge [OF that(1)] low ns(2) that(2) by (meson order.strict_trans1 order.strict_trans2)
  then show ?thesis using srt sort_key_strict [OF ns(1)] by (auto simp: sorted_wrt_append)
qed

lemma hist_ok_sub:
  assumes "hist_ok crc h'" and "mset h \<subseteq># mset h'" and "sorted_wrt (<) (map r_lsn h)"
  shows "hist_ok crc h"
proof -
  from assms(2) obtain zs where zs: "mset h' = mset (h @ zs)" by (metis ex_mset mset_append subset_mset.less_eqE)
  have "length (frames crc h) \<le> length (frames crc h')" using frames_length_perm [OF zs, of crc] by simp
  moreover have "lsn_max h \<le> lsn_max h'" using lsn_max_perm [OF zs] by simp
  moreover have "set h \<subseteq> set h'" using mset_eq_setD [OF zs] by simp
  ultimately show ?thesis using assms(1,3) unfolding hist_ok_def by (auto simp: list_all_iff word_le_nat_alt)
qed

text \<open>A record above the cut changes nothing below it.\<close>

lemma upto_new:
  assumes "sorted_wrt (<) (map r_lsn h)" and "sorted_wrt (<) (map r_lsn h')" and "mset h' = mset (h @ xs)" and "\<forall>r \<in> set xs. c < r_lsn r"
  shows "upto c h' = upto c h"
proof (rule sorted_map_unique [of r_lsn])
  show "sorted_wrt (<) (map r_lsn (upto c h'))" "sorted_wrt (<) (map r_lsn (upto c h))"
    using assms(1,2) by (simp_all add: upto_def sorted_wrt_map sorted_wrt_filter)
  have "set h' = set (h @ xs)" using assms(3) by (rule mset_eq_setD)
  then show "set (upto c h') = set (upto c h)" using assms(4) by (auto simp: upto_def not_le [symmetric])
qed

lemma above_perm: "mset h' = mset (h @ xs) \<Longrightarrow> \<forall>r \<in> set xs. c < r_lsn r \<Longrightarrow> mset (above c h') = mset (above c h @ xs)"
  by (simp add: above_def filter_mset_eq_conv mset_filter)

lemma ack_log_hist: "mset (log_hist h ts) = mset (ack_hist h ts @ all_tasks pending ts)"
  by (simp add: log_hist_def ack_hist_def logged_split)

section \<open>The settled state\<close>

definition settle :: "('m, 'f) deps \<Rightarrow> wrecord list \<Rightarrow> wrecord list \<Rightarrow> ('m, 'f) state \<Rightarrow> ('m, 'f) state" where
  "settle dp h xs = (\<lambda>(e, w). (e\<lparr>en_next_lsn := lsn_max h + 1, en_memtables := fold (set_insert (dp_sm dp)) xs (en_memtables e)\<rparr>, w))"

lemma settle_flush:
  assumes "flush_step dp io pc (e, w) = (pc', s')" and "pc \<noteq> FreezeNext \<or> xs = []"
  shows "flush_step dp io pc (settle dp h xs (e, w)) = (pc', settle dp h xs s')"
  using assms
  by (cases pc; cases s')
    (auto simp: settle_def fold_set_insert publish_index_def truncate_wal_def retire_frozen_def retire_def Let_def
      split: res.splits prod.splits option.splits)

section \<open>The invariant\<close>

definition mixed_ok ::
    "('m, 'f) deps \<Rightarrow> (string \<Rightarrow> u64) \<Rightarrow> 'f config \<Rightarrow> duck_lake \<Rightarrow> (catalog_db \<Rightarrow> get_range \<Rightarrow> bool)
      \<Rightarrow> wrecord list \<Rightarrow> task list \<Rightarrow> 'm flush_pc \<Rightarrow> ('m, 'f) state \<Rightarrow> bool" where
  "mixed_ok dp size_of cfg lake lake_good h ts pc s \<longleftrightarrow>
     (\<forall>l \<in> set (wal_starts (en_wal (fst s))). l \<le> lsn_max h \<or> l \<in> r_lsn ` set (all_tasks logged_by ts)) \<and>
     (\<exists>b c. between_at dp size_of cfg lake lake_good (log_hist h ts) b c pc (settle dp (log_hist h ts) (all_tasks pending ts) s) \<and>
        mt_holds (dp_sm dp) (snd (ms_active (en_memtables (fst s)))) (above c (ack_hist h ts)) \<and>
        (\<forall>r \<in> set (all_tasks in_flight ts). c < r_lsn r))"

lemma mt_holds_perm: "mt_holds sm m rs \<Longrightarrow> mset rs = mset rs' \<Longrightarrow> mt_holds sm m rs'"
  by (simp add: mt_holds_def)

lemma set_inv_inserts: "set_inv (set_insert sm r ms) = set_inv ms" "set_inv (fold (set_insert sm) rs ms) = set_inv ms"
  by (simp_all add: fold_set_insert set_insert_def set_inv_def)

text \<open>Inserting what is pending, in any order, gives the memtable of everything that is logged.\<close>

lemma settled_active:
  assumes "mt_holds sm (snd (ms_active ms)) (above c (ack_hist h ts))" and "\<forall>r \<in> set (all_tasks in_flight ts). c < r_lsn r"
  shows "mt_holds sm (snd (ms_active (fold (set_insert sm) (all_tasks pending ts) ms))) (above c (log_hist h ts))"
proof -
  have "\<forall>r \<in> set (all_tasks pending ts). c < r_lsn r" using assms(2) pending_in_flight by blast
  from above_perm [OF ack_log_hist this] mt_holds_fold [OF assms(1)] show ?thesis by (simp add: fold_set_insert)
qed

lemma truncate_starts: "truncate_through wm (d, wal) = Ok (d', wal') \<Longrightarrow> set (wal_starts wal') \<subseteq> set (wal_starts wal)"
  by (auto simp: truncate_through_def wal_starts_def Let_def bind_res_Ok_iff split: prod.splits)

lemma flush_step_frame:
  assumes "flush_step dp io pc (e, w) = (pc', (e', w'))"
  shows "en_next_lsn e' = en_next_lsn e" and "set (wal_starts (en_wal e')) \<subseteq> set (wal_starts (en_wal e))"
    and "pc \<noteq> FreezeNext \<Longrightarrow> ms_active (en_memtables e') = ms_active (en_memtables e)"
  using assms
  by (cases pc; auto simp: publish_index_def truncate_wal_def retire_frozen_def retire_def Let_def dest!: truncate_starts
      split: res.splits prod.splits option.splits)+

context engine_env
begin

lemma mid_active:
  assumes "mid h idx b c (e, w)" and "ms_frozen ms = ms_frozen (en_memtables e)" and "set_inv ms"
    and "mt_holds (dp_sm dp) (snd (ms_active ms)) (above c h)"
  shows "mid h idx b c (e\<lparr>en_memtables := ms\<rparr>, w)"
  using assms by (simp add: mid_ok_def)

text \<open>A record comes late to the log: others with higher numbers may be there already.\<close>

lemma late_append:
  assumes m: "mid h idx b c (e, w)" and h': "hist_ok (dp_crc dp) h'" "mset h' = add_mset r (mset h)" and r: "c < r_lsn r"
    and app: "wal_append (dp_crc dp) [r] (w_dir w, en_wal e) = Ok (d', wal')"
    and fresh: "r_lsn r \<notin> set (wal_starts (en_wal e))" and names: "\<forall>l \<in> set (wal_starts (en_wal e)). l \<le> lsn_max h'"
    and ms: "ms_frozen ms = ms_frozen (en_memtables e)" "set_inv ms" "mt_holds (dp_sm dp) (snd (ms_active ms)) (above c h')"
    and e': "en_cfg e' = en_cfg e" "en_lake e' = en_lake e" "en_index e' = en_index e" "en_reader e' = en_reader e"
      "en_wal e' = wal'" "en_memtables e' = ms" "en_next_lsn e' = lsn_max h' + 1"
  shows "mid h' idx b c (e', w\<lparr>w_dir := d'\<rparr>)" and "upto c h' = upto c h" and "set (wal_starts wal') \<subseteq> insert (r_lsn r) (set (wal_starts (en_wal e)))"
proof -
  note d = mid_dest [OF m]
  have srt: "sorted_wrt (<) (map r_lsn h)" "sorted_wrt (<) (map r_lsn h')" using d(1) h'(1) by (simp_all add: hist_ok_def)
  have hm: "mset h' = mset (h @ [r])" using h'(2) by simp
  have cut: "upto x h' = upto x h" if "x < r_lsn r" for x using upto_new [OF srt hm] that by simp
  show cc: "upto c h' = upto c h" using cut r .
  have set: "set h' = insert r (set h)" using arg_cong [OF h'(2), of set_mset] by simp
  have wm: "index_watermark idx < r_lsn r" "index_watermark (en_index e) < r_lsn r" using d(11,12) r by (meson order.strict_trans1)+
  have mx: "lsn_max h \<le> lsn_max h'" using set by (auto simp: lsn_max_le_iff intro: lsn_max_ge)
  from d(3) obtain ps where ps: "wal_inv (dp_crc dp) (w_dir w) (en_wal e) ps" "covers (dp_crc dp) h (index_watermark idx) (log_of ps)"
    unfolding wal_state_def by blast
  have fit: "fits r" "length (frames (dp_crc dp) (h @ [r])) < 2 ^ 64"
    using h'(1) set frames_length_perm [OF hm, of "dp_crc dp"] by (simp_all add: hist_ok_def list_all_iff)
  from append_covers(2) [OF ps wm(1) fit fresh] app obtain ps' where
    ps': "wal_inv (dp_crc dp) d' wal' ps'" "covers (dp_crc dp) (h @ [r]) (index_watermark idx) (log_of ps')"
    and st: "set (wal_starts wal') \<subseteq> insert (r_lsn r) (set (wal_starts (en_wal e)))" by auto
  show "set (wal_starts wal') \<subseteq> insert (r_lsn r) (set (wal_starts (en_wal e)))" by (rule st)
  have "\<forall>l \<in> set (wal_starts wal'). l \<le> lsn_max h'" using st names set by (auto intro: lsn_max_ge)
  then have "wal_state (dp_crc dp) h' (index_watermark idx) d' wal'"
    using ps'(1) covers_perm [OF ps'(2) hm [symmetric] refl] names_okI unfolding wal_state_def by blast
  moreover have "lake_state dp size_of cfg lake lake_good h' idx (w\<lparr>w_dir := d'\<rparr>)"
    using d(2) cut [OF wm(1)] mx by (auto simp: lake_state_def)
  moreover have "serves dp size_of lake h' (en_index e) (w\<lparr>w_dir := d'\<rparr>)" using d(9) cut [OF wm(2)] by (simp add: serves_def)
  ultimately show "mid h' idx b c (e', w\<lparr>w_dir := d'\<rparr>)"
    unfolding mid_ok_def prod.case using d mx h'(1) ms e' cc by (intro conjI) (simp_all add: order_trans)
qed

end

section \<open>Every step keeps it\<close>

lemma hist_below_next:
  assumes num: "numbers_ok n0 ts s" and low: "lsn_max h < n0"
  shows "lsn_max (log_hist h ts) < en_next_lsn (fst s)"
proof -
  have "unat n0 \<le> unat (en_next_lsn (fst s))" using num waits_le [of ts] by (simp add: numbers_ok_def)
  then have "lsn_max h < en_next_lsn (fst s)" using low by (simp add: word_less_nat_alt)
  moreover have "lsn_max (sort_key r_lsn (all_tasks logged_by ts)) = lsn_max (all_tasks logged_by ts)" by (rule lsn_max_perm) simp
  moreover have "lsn_max xs < n" if "\<forall>x \<in> set xs. r_lsn x < n" "0 < n" for xs :: "wrecord list" and n
    using that by (induction xs) auto
  moreover have "0 < en_next_lsn (fst s)" using \<open>lsn_max h < en_next_lsn (fst s)\<close> by (rule order.strict_trans1 [OF word_zero_le])
  ultimately show ?thesis using numbers_ok_sub(2) [OF num logged_sub] by (simp add: log_hist_def)
qed

text \<open>What a step of one task does to the lists.\<close>

lemma in_flight_update:
  assumes "i < length ts"
  shows "set (all_tasks in_flight (ts[i := t])) \<subseteq> set (all_tasks in_flight ts) \<union> set (in_flight t)"
proof -
  have "mset (all_tasks in_flight (ts[i := t])) \<subseteq># mset (all_tasks in_flight ts) + mset (in_flight t)"
    using all_tasks_update [OF assms, of in_flight t] by (metis mset_subset_eq_add_left)
  from set_mset_mono [OF this] show ?thesis by simp
qed

lemma mixed_ok_same:
  assumes ok: "mixed_ok dp size_of cfg lake lake_good h ts pc s" and i: "i < length ts"
    and same: "logged_by t = logged_by (ts ! i)" "acked_by t = acked_by (ts ! i)" "pending t = pending (ts ! i)"
    and fl: "\<forall>r \<in> set (in_flight t). r \<in> set (all_tasks in_flight ts) \<or> lsn_max (log_hist h ts) < r_lsn r"
    and s': "settle dp (log_hist h ts) (all_tasks pending ts) s' = settle dp (log_hist h ts) (all_tasks pending ts) s"
      "en_wal (fst s') = en_wal (fst s)" "en_memtables (fst s') = en_memtables (fst s)"
  shows "mixed_ok dp size_of cfg lake lake_good h (ts[i := t]) pc s'"
proof -
  have eq: "all_tasks logged_by (ts[i := t]) = all_tasks logged_by ts" "all_tasks acked_by (ts[i := t]) = all_tasks acked_by ts"
    "all_tasks pending (ts[i := t]) = all_tasks pending ts"
    using all_tasks_eq [OF i same(1)] all_tasks_eq [OF i same(2)] all_tasks_eq [OF i same(3)] .
  from ok obtain b c where bc: "between_at dp size_of cfg lake lake_good (log_hist h ts) b c pc (settle dp (log_hist h ts) (all_tasks pending ts) s)"
    "mt_holds (dp_sm dp) (snd (ms_active (en_memtables (fst s)))) (above c (ack_hist h ts))"
    "\<forall>r \<in> set (all_tasks in_flight ts). c < r_lsn r" unfolding mixed_ok_def by blast
  obtain e w where "settle dp (log_hist h ts) (all_tasks pending ts) s = (e, w)" by fastforce
  with bc(1) have "c \<le> lsn_max (log_hist h ts)" by (auto simp: between_at_def mid_ok_def)
  then have "\<forall>r \<in> set (all_tasks in_flight (ts[i := t])). c < r_lsn r"
    using bc(3) fl in_flight_update [OF i, of t] by (blast intro: order.strict_trans1)
  with ok bc show ?thesis unfolding mixed_ok_def log_hist_def ack_hist_def eq s' [unfolded log_hist_def] by blast
qed

context engine_env
begin

lemma mixed_append:
  assumes ok: "mixed_ok dp size_of cfg lake lake_good h ts pc (e, w)" and num: "numbers_ok n0 ts (e, w)" and low: "lsn_max h < n0"
    and i: "i < length ts" "ts ! i = Numbered r" and app: "wal_append (dp_crc dp) [r] (w_dir w, en_wal e) = Ok (d', wal')"
    and h': "hist_ok (dp_crc dp) (log_hist h (ts[i := Logged r]))"
  shows "mixed_ok dp size_of cfg lake lake_good h (ts[i := Logged r]) pc (e\<lparr>en_wal := wal'\<rparr>, w\<lparr>w_dir := d'\<rparr>)"
proof -
  let ?ts = "ts[i := Logged r]"
  have ml: "mset (all_tasks logged_by ?ts) = add_mset r (mset (all_tasks logged_by ts))"
    using all_tasks_update [OF i(1), of logged_by "Logged r"] i(2) by simp
  then have mh: "mset (log_hist h ?ts) = add_mset r (mset (log_hist h ts))" by (simp add: log_hist_def)
  have ak: "ack_hist h ?ts = ack_hist h ts" using all_tasks_eq [OF i(1), of acked_by "Logged r"] i(2) by (simp add: ack_hist_def)
  have fl: "all_tasks in_flight ?ts = all_tasks in_flight ts" using all_tasks_eq [OF i(1), of in_flight "Logged r"] i(2) by simp
  from ok obtain idx b c where m: "mid (log_hist h ts) idx b c (settle dp (log_hist h ts) (all_tasks pending ts) (e, w))"
    "phase_ok dp (log_hist h ts) idx b c pc (settle dp (log_hist h ts) (all_tasks pending ts) (e, w))"
    and act: "mt_holds (dp_sm dp) (snd (ms_active (en_memtables e))) (above c (ack_hist h ts))"
    and inf: "\<forall>r \<in> set (all_tasks in_flight ts). c < r_lsn r" unfolding mixed_ok_def between_at_def by auto
  have nm: "\<forall>l \<in> set (wal_starts (en_wal e)). l \<le> lsn_max h \<or> l \<in> r_lsn ` set (all_tasks logged_by ts)" using ok by (simp add: mixed_ok_def)
  have rin: "r \<in> set (all_tasks in_flight ts)" using i by (force simp: all_tasks_def in_set_conv_nth)
  have gt: "lsn_max h < r_lsn r" using numbered_fresh(2) [OF num i] low by (rule order.strict_trans2 [rotated])
  have fresh: "r_lsn r \<notin> set (wal_starts (en_wal e))" using nm numbered_fresh(1) [OF num i] gt by (auto simp: not_le)
  have sub: "set (log_hist h ts) \<subseteq> set (log_hist h ?ts)" using arg_cong [OF mh, of set_mset] by auto
  have hl: "set h \<subseteq> set (log_hist h ts)" "set (all_tasks logged_by ts) \<subseteq> set (log_hist h ts)" by (auto simp: log_hist_def)
  have "lsn_max h \<le> lsn_max (log_hist h ?ts)" using sub hl by (auto simp: lsn_max_le_iff intro: lsn_max_ge)
  then have names: "\<forall>l \<in> set (wal_starts (en_wal e)). l \<le> lsn_max (log_hist h ?ts)"
    using nm sub hl lsn_max_ge by (smt (verit) image_iff order_trans subsetD)
  obtain e1 where se: "settle dp (log_hist h ts) (all_tasks pending ts) (e, w) = (e1, w)" by (simp add: settle_def)
  have e1: "en_wal e1 = en_wal e" "en_memtables e1 = fold (set_insert (dp_sm dp)) (all_tasks pending ts) (en_memtables e)"
    "en_cfg e1 = en_cfg e" "en_lake e1 = en_lake e" "en_index e1 = en_index e" "en_reader e1 = en_reader e"
    using se by (auto simp: settle_def)
  let ?ms = "fold (set_insert (dp_sm dp)) (all_tasks pending ?ts) (en_memtables e)"
  have ms: "ms_frozen ?ms = ms_frozen (en_memtables e1)" "set_inv ?ms"
    using mid_dest(6) [OF m(1) [unfolded se]] by (simp_all add: e1(2) set_inv_inserts) (simp add: fold_set_insert)
  have mact: "mt_holds (dp_sm dp) (snd (ms_active ?ms)) (above c (log_hist h ?ts))"
    using settled_active [of "dp_sm dp" "en_memtables e" c h ?ts] act inf by (simp only: ak fl)
  obtain e2 where s2: "settle dp (log_hist h ?ts) (all_tasks pending ?ts) (e\<lparr>en_wal := wal'\<rparr>, w\<lparr>w_dir := d'\<rparr>) = (e2, w\<lparr>w_dir := d'\<rparr>)"
    by (simp add: settle_def)
  have e2: "en_cfg e2 = en_cfg e1" "en_lake e2 = en_lake e1" "en_index e2 = en_index e1" "en_reader e2 = en_reader e1"
    "en_wal e2 = wal'" "en_memtables e2 = ?ms" "en_next_lsn e2 = lsn_max (log_hist h ?ts) + 1"
    using s2 e1 by (auto simp: settle_def)
  note la = late_append [OF m(1) [unfolded se] h' mh _ _ _ _ ms mact e2, unfolded e1, OF inf [rule_format, OF rin] app fresh names]
  have "phase_ok dp (log_hist h ?ts) idx b c pc (e2, w\<lparr>w_dir := d'\<rparr>)"
    using phase_ok_write [OF m(2) [unfolded se] la(2)] ms(1) e2 by simp
  then have "between_at dp size_of cfg lake lake_good (log_hist h ?ts) b c pc (e2, w\<lparr>w_dir := d'\<rparr>)"
    using la(1) unfolding between_at_def by blast
  moreover have "\<forall>l \<in> set (wal_starts wal'). l \<le> lsn_max h \<or> l \<in> r_lsn ` set (all_tasks logged_by ?ts)"
    using la(3) nm arg_cong [OF ml, of set_mset] by auto
  ultimately show ?thesis using act inf unfolding mixed_ok_def s2 ak fl by auto
qed

lemma mixed_insert:
  assumes ok: "mixed_ok dp size_of cfg lake lake_good h ts pc (e, w)" and i: "i < length ts" "ts ! i = Logged r"
  shows "mixed_ok dp size_of cfg lake lake_good h (ts[i := Acked r]) pc (e\<lparr>en_memtables := set_insert (dp_sm dp) r (en_memtables e)\<rparr>, w)"
proof -
  let ?ts = "ts[i := Acked r]" and ?ms = "set_insert (dp_sm dp) r (en_memtables e)"
  have lg: "all_tasks logged_by ?ts = all_tasks logged_by ts" using all_tasks_eq [OF i(1), of logged_by "Acked r"] i(2) by simp
  then have hh: "log_hist h ?ts = log_hist h ts" by (simp add: log_hist_def)
  have "mset (all_tasks acked_by ?ts) = add_mset r (mset (all_tasks acked_by ts))"
    using all_tasks_update [OF i(1), of acked_by "Acked r"] i(2) by simp
  then have ma: "mset (ack_hist h ?ts) = mset (ack_hist h ts @ [r])" by (simp add: ack_hist_def)
  from ok obtain idx b c where m: "mid (log_hist h ts) idx b c (settle dp (log_hist h ts) (all_tasks pending ts) (e, w))"
    "phase_ok dp (log_hist h ts) idx b c pc (settle dp (log_hist h ts) (all_tasks pending ts) (e, w))"
    and act: "mt_holds (dp_sm dp) (snd (ms_active (en_memtables e))) (above c (ack_hist h ts))"
    and inf: "\<forall>r \<in> set (all_tasks in_flight ts). c < r_lsn r" unfolding mixed_ok_def between_at_def by auto
  have rin: "r \<in> set (all_tasks in_flight ts)" using i by (force simp: all_tasks_def in_set_conv_nth)
  have act': "mt_holds (dp_sm dp) (snd (ms_active ?ms)) (above c (ack_hist h ?ts))"
    using mt_holds_perm [OF mt_holds_insert [OF act, of r]] above_perm [OF ma, of c] inf rin by (simp add: set_insert_def)
  have inf': "\<forall>r \<in> set (all_tasks in_flight ?ts). c < r_lsn r" using inf in_flight_update [OF i(1), of "Acked r"] by auto
  let ?fs = "fold (set_insert (dp_sm dp)) (all_tasks pending ?ts) ?ms"
  have fact: "mt_holds (dp_sm dp) (snd (ms_active ?fs)) (above c (log_hist h ts))" using settled_active [OF act' inf'] by (simp only: hh)
  obtain e1 where se: "settle dp (log_hist h ts) (all_tasks pending ts) (e, w) = (e1, w)" by (simp add: settle_def)
  have fz: "ms_frozen ?fs = ms_frozen (en_memtables e1)" "set_inv ?fs"
    using se mid_dest(6) [OF m(1) [unfolded se]] by (auto simp: settle_def set_inv_inserts) (simp add: fold_set_insert set_insert_def)
  note mm = mid_active [OF m(1) [unfolded se] fz fact]
  have s2: "settle dp (log_hist h ts) (all_tasks pending ?ts) (e\<lparr>en_memtables := ?ms\<rparr>, w) = (e1\<lparr>en_memtables := ?fs\<rparr>, w)"
    using se by (auto simp: settle_def)
  have "phase_ok dp (log_hist h ts) idx b c pc (e1\<lparr>en_memtables := ?fs\<rparr>, w)"
    using phase_ok_write [OF m(2) [unfolded se] refl] fz(1) by simp
  with mm ok act' inf' show ?thesis unfolding mixed_ok_def between_at_def hh lg s2 by auto
qed

end

context engine_env
begin

lemma mixed_flush_ok:
  assumes ok: "mixed_ok dp size_of cfg lake lake_good h ts pc (e, w)" and q: "pc = FreezeNext \<Longrightarrow> quiet ts"
    and st: "flush_step dp io pc (e, w) = (pc', (e', w'))"
  shows "mixed_ok dp size_of cfg lake lake_good h ts pc' (e', w')"
proof -
  let ?s = "settle dp (log_hist h ts) (all_tasks pending ts)"
  from ok obtain b c where bt: "between_at dp size_of cfg lake lake_good (log_hist h ts) b c pc (?s (e, w))"
    and act: "mt_holds (dp_sm dp) (snd (ms_active (en_memtables e))) (above c (ack_hist h ts))"
    and inf: "\<forall>r \<in> set (all_tasks in_flight ts). c < r_lsn r" unfolding mixed_ok_def by auto
  have nm: "\<forall>l \<in> set (wal_starts (en_wal e')). l \<le> lsn_max h \<or> l \<in> r_lsn ` set (all_tasks logged_by ts)"
    using ok flush_step_frame(2) [OF st] by (auto simp: mixed_ok_def)
  obtain e1 where se: "?s (e, w) = (e1, w)" by (simp add: settle_def)
  show ?thesis
  proof (cases "pc = FreezeNext")
    case True
    note ql = quiet_logged [OF q [OF True]]
    have "flush_step dp io pc (?s (e, w)) = (pc', ?s (e', w'))" using settle_flush [OF st, of "[]" "log_hist h ts"] ql by simp
    moreover have "between_ok dp size_of cfg lake lake_good (log_hist h ts) pc (?s (e, w))" using bt unfolding between_ok_at by blast
    ultimately have "between_ok dp size_of cfg lake lake_good (log_hist h ts) pc' (?s (e', w'))" using flush_step_between by blast
    then obtain idx b' c' where m: "mid (log_hist h ts) idx b' c' (?s (e', w'))" "phase_ok dp (log_hist h ts) idx b' c' pc' (?s (e', w'))"
      unfolding between_ok_def by blast
    have "log_hist h ts = ack_hist h ts" using ql by (simp add: log_hist_def ack_hist_def)
    moreover have "?s (e', w') = (e'\<lparr>en_next_lsn := lsn_max (log_hist h ts) + 1\<rparr>, w')" using ql by (simp add: settle_def)
    ultimately have "mt_holds (dp_sm dp) (snd (ms_active (en_memtables e'))) (above c' (ack_hist h ts))"
      using mid_dest(14) [of "log_hist h ts" idx b' c'] m(1) by fastforce
    moreover have "all_tasks in_flight ts = []" using q [OF True] by (simp add: quiet_def)
    ultimately show ?thesis using m nm unfolding mixed_ok_def between_at_def by auto
  next
    case False
    from flush_step_at [OF bt [unfolded se] False] settle_flush [OF st] False
    have "between_at dp size_of cfg lake lake_good (log_hist h ts) b c pc' (?s (e', w'))" by (metis se)
    with nm act inf flush_step_frame(3) [OF st False] show ?thesis unfolding mixed_ok_def by auto
  qed
qed

lemma mixed_get:
  assumes ok: "mixed_ok dp size_of cfg lake lake_good h ts pc (e, w)"
    and srt: "sorted_wrt (<) (map r_lsn (ack_hist h ts))"
  shows "\<exists>n st. engine_get dp k (e, w) = (Ok (value_of (apply_log (ack_hist h ts) k)), ((charge_gets dp n e)\<lparr>en_reader := st\<rparr>, w)) \<and>
           mixed_ok dp size_of cfg lake lake_good h ts pc ((charge_gets dp n e)\<lparr>en_reader := st\<rparr>, w)"
proof -
  let ?h = "log_hist h ts" and ?a = "ack_hist h ts" and ?wm = "index_watermark (en_index e)"
  let ?s = "settle dp ?h (all_tasks pending ts)"
  from ok obtain idx b c where m: "mid ?h idx b c (?s (e, w))" "phase_ok dp ?h idx b c pc (?s (e, w))"
    and act: "mt_holds (dp_sm dp) (snd (ms_active (en_memtables e))) (above c ?a)"
    and inf: "\<forall>r \<in> set (all_tasks in_flight ts). c < r_lsn r" unfolding mixed_ok_def between_at_def by auto
  obtain e1 where se: "?s (e, w) = (e1, w)" by (simp add: settle_def)
  have e1: "en_index e1 = en_index e" "en_lake e1 = en_lake e" "en_reader e1 = en_reader e" "ms_frozen (en_memtables e1) = ms_frozen (en_memtables e)"
    using se by (auto simp: settle_def fold_set_insert)
  note d = mid_dest [OF m(1) [unfolded se], unfolded e1]
  have wc: "b \<le> ?wm" "?wm \<le> c" using d(10-12) by (meson order_trans)+
  have pend: "\<forall>r \<in> set (all_tasks pending ts). x < r_lsn r" if "x \<le> c" for x
    using inf pending_in_flight that by (blast intro: order.strict_trans1)
  have hs: "sorted_wrt (<) (map r_lsn ?h)" using d(1) by (simp add: hist_ok_def)
  note cut = upto_new [OF srt hs ack_log_hist pend]
  from d(9) obtain files where
    files: "list_all2 (entry_serves (dp_pq dp) (w_getr w) (dp_path_from dp) (lake_bucket lake) size_of) (en_index e) files"
    "files_view files = apply_log (upto ?wm ?a)" unfolding serves_def cut [OF wc(2)] by blast
  have "apply_log (upto ?wm ?a) ++ set_view (dp_sm dp) (en_memtables e) = apply_log ?a"
    using d(15) by (intro levels_view [OF srt wc act]) (auto simp: cut [OF order_refl])
  with get_levels [OF files(1) d(8,5), of k] files(2) obtain n st where
    g: "engine_get dp k (e, w) = (Ok (value_of (apply_log ?a k)), ((charge_gets dp n e)\<lparr>en_reader := st\<rparr>, w))"
    "reader_inv (w_getr w) (pq_load (dp_pq dp)) size_of st" by (auto simp: value_of_def)
  let ?e = "(charge_gets dp n e)\<lparr>en_reader := st\<rparr>"
  obtain e2 where s2: "?s (?e, w) = (e2, w)" by (simp add: settle_def)
  have e2: "en_cfg e2 = en_cfg e1" "en_lake e2 = en_lake e1" "en_index e2 = en_index e1" "en_wal e2 = en_wal e1"
    "en_memtables e2 = en_memtables e1" "en_next_lsn e2 = en_next_lsn e1" "en_reader e2 = st"
    using se s2 by (auto simp: settle_def)
  have "mid ?h idx b c (e2, w)" using m(1) g(2) unfolding se mid_ok_def prod.case by (simp only: e2)
  moreover have "phase_ok dp ?h idx b c pc (e2, w)" using phase_ok_write [OF m(2) [unfolded se] refl] e2 by simp
  ultimately show ?thesis using g(1) ok act inf unfolding mixed_ok_def between_at_def by (intro exI [of _ n] exI [of _ st]) (auto simp: s2)
qed

lemma mixed_task_ok:
  assumes ok: "mixed_ok dp size_of cfg lake lake_good h ts pc (e, w)" and num: "numbers_ok n0 ts (e, w)" and low: "lsn_max h < n0"
    and i: "i < length ts" and st: "task_step dp io (ts ! i) (e, w) = (t, (e', w'))"
    and calm: "\<And>r. ts ! i = Logged r \<Longrightarrow> \<not> should_freeze (set_insert (dp_sm dp) r (en_memtables e))"
    and h': "hist_ok (dp_crc dp) (log_hist h (ts[i := t]))"
  shows "mixed_ok dp size_of cfg lake lake_good h (ts[i := t]) pc (e', w')"
proof (cases "ts ! i")
  case (Waiting q)
  have t: "t = Numbered (request_record q (en_next_lsn e))" "e' = e\<lparr>en_next_lsn := en_next_lsn e + 1\<rparr>" "w' = w"
    using st Waiting by (auto simp: take_lsn_def)
  show ?thesis
    by (rule mixed_ok_same [OF ok i]) (use hist_below_next [OF num low] in \<open>auto simp: t Waiting settle_def\<close>)
next
  case (Numbered r)
  consider (logged) d wal where "wal_append (dp_crc dp) [r] (w_dir w, en_wal e) = Ok (d, wal)" "t = Logged r"
      "e' = e\<lparr>en_wal := wal\<rparr>" "w' = w\<lparr>w_dir := d\<rparr>"
    | (refused) "t = Rejected" "e' = e" "w' = w"
    using st Numbered by (auto simp: append_log_def split: res.splits prod.splits)
  then show ?thesis
  proof cases
    case logged
    with mixed_append [OF ok num low i Numbered logged(1)] h' show ?thesis by simp
  next
    case refused
    show ?thesis by (rule mixed_ok_same [OF ok i]) (auto simp: refused Numbered)
  qed
next
  case (Logged r)
  have "t = Acked r" "e' = e\<lparr>en_memtables := set_insert (dp_sm dp) r (en_memtables e)\<rparr>" "w' = w"
    using st calm [OF Logged] Logged by (auto simp: append_visible_def Let_def)
  with mixed_insert [OF ok i Logged] show ?thesis by simp
next
  case (Acked r)
  with st have "t = Acked r" "e' = e" "w' = w" by simp_all
  with Acked show ?thesis by (intro mixed_ok_same [OF ok i]) auto
next
  case Rejected
  with st have "t = Rejected" "e' = e" "w' = w" by simp_all
  with Rejected show ?thesis by (intro mixed_ok_same [OF ok i]) auto
qed

end

section \<open>Whole runs\<close>

lemma logged_grows:
  assumes st: "task_step dp io (ts ! i) (e, w) = (t, s')" and i: "i < length ts"
    and calm: "\<And>r. ts ! i = Logged r \<Longrightarrow> \<not> should_freeze (set_insert (dp_sm dp) r (en_memtables e))"
  shows "mset (log_hist h ts) \<subseteq># mset (log_hist h (ts[i := t]))"
proof -
  obtain e' w' where s': "s' = (e', w')" by (cases s')
  from calm have "\<forall>r. ts ! i = Logged r \<longrightarrow> \<not> should_freeze (set_insert (dp_sm dp) r (en_memtables e))" by blast
  from calm_step_frame(2) [OF st [unfolded s'] this] have "mset (logged_by (ts ! i)) \<subseteq># mset (logged_by t)" by auto
  with all_tasks_update [OF i, of logged_by t] have "mset (all_tasks logged_by ts) \<subseteq># mset (all_tasks logged_by (ts[i := t]))"
    by (metis mset_subset_eq_mono_add_right_cancel subset_mset.add_mono subset_mset.order_refl)
  then show ?thesis by (simp add: log_hist_def)
qed

lemma get_numbers: "engine_get dp k (e, w) = (x, (e', w')) \<Longrightarrow> en_next_lsn e' = en_next_lsn e"
  by (auto simp: engine_get_def Let_def split: lookup.splits res.splits prod.splits)

lemma mixed_step_numbers:
  assumes "mixed_step dp (ts, pc, s) (ts', pc', s')" and "numbers_ok n0 ts s" and "unat n0 + length ts < 2 ^ 64"
  shows "numbers_ok n0 ts' s' \<and> length ts' = length ts"
  using assms(1)
proof (cases rule: mixed_step_cases)
  case (task i io e w t)
  with task_step_numbers [OF assms(2) _ assms(3)] show ?thesis by simp
next
  case (flush io)
  obtain e w e' w' where s: "s = (e, w)" "s' = (e', w')" by (cases s; cases s')
  from flush_step_frame(1) [of dp io pc e w pc' e' w'] flush assms(2) show ?thesis
    by (auto simp: s intro: numbers_ok_cong)
next
  case (read k x)
  obtain e w e' w' where s: "s = (e, w)" "s' = (e', w')" by (cases s; cases s')
  from get_numbers [of dp k e w x e' w'] read assms(2) show ?thesis by (auto simp: s intro: numbers_ok_cong)
qed (use assms(2) in simp)

context engine_env
begin

lemma mixed_step_ok:
  assumes st: "mixed_step dp (ts, pc, s) (ts', pc', s')" and num: "numbers_ok n0 ts s" and low: "lsn_max h < n0"
    and srt: "sorted_wrt (<) (map r_lsn h)" and h': "hist_ok (dp_crc dp) (log_hist h ts')"
    and ok: "hist_ok (dp_crc dp) (log_hist h ts) \<Longrightarrow> mixed_ok dp size_of cfg lake lake_good h ts pc s"
  shows "mixed_ok dp size_of cfg lake lake_good h ts' pc' s'"
  using st
proof (cases rule: mixed_step_cases)
  case (task i io e w t)
  have "hist_ok (dp_crc dp) (log_hist h ts)"
    using hist_ok_sub [OF h'] logged_grows [of dp io ts i e w t s' h] task hist_sorted [OF num low srt logged_sub] by (simp add: log_hist_def)
  with ok task num h' show ?thesis by (cases s') (simp add: mixed_task_ok [OF _ _ low])
next
  case (flush io)
  with mixed_flush_ok [of h ts pc "fst s" "snd s" io pc' "fst s'" "snd s'"] ok h' show ?thesis by simp
next
  case (read k x)
  obtain e w where s: "s = (e, w)" by (cases s)
  have "sorted_wrt (<) (map r_lsn (ack_hist h ts))" using hist_sorted [OF num low srt acked_sub] by (simp add: ack_hist_def)
  from mixed_get [OF _ this, of pc e w k] ok h' read show ?thesis by (auto simp: s)
next
  case (again y)
  from ok h' again have "mixed_ok dp size_of cfg lake lake_good h ts (FlushEnd (Ok y)) s" by simp
  moreover have "phase_ok dp g idx b c (FlushEnd (Ok y)) x \<Longrightarrow> phase_ok dp g idx b c FreezeNext x" for g idx b c and x :: "('m, 'f) state"
    by (cases x) simp
  ultimately show ?thesis unfolding again mixed_ok_def between_at_def by blast
qed

lemma mixed_start:
  assumes up: "up_ok dp size_of cfg lake lake_good h (e0, w0)" and nm: "start_lsn (active (en_wal e0)) \<le> lsn_max h"
  shows "mixed_ok dp size_of cfg lake lake_good h (map Waiting qs) FreezeNext (e0, w0)"
proof -
  note u = up_ok_dest [OF up]
  have none: "all_tasks logged_by (map Waiting qs) = []" "all_tasks acked_by (map Waiting qs) = []"
    "all_tasks pending (map Waiting qs) = []" "all_tasks in_flight (map Waiting qs) = []"
    by (induction qs) (simp_all add: all_tasks_def)
  have "settle dp h [] (e0, w0) = (e0, w0)" using u(9) by (simp add: settle_def)
  moreover obtain b c where "between_at dp size_of cfg lake lake_good h b c FreezeNext (e0, w0)" using up_mid [OF up] unfolding between_ok_at by blast
  moreover from this have "mt_holds (dp_sm dp) (snd (ms_active (en_memtables e0))) (above c h)" unfolding between_at_def using mid_dest(14) by blast
  moreover have "\<forall>l \<in> set (wal_starts (en_wal e0)). l \<le> lsn_max h" using wal_state_names [OF u(3)] nm by (auto simp: names_ok_def wal_starts_def)
  ultimately show ?thesis unfolding mixed_ok_def log_hist_def ack_hist_def none by auto
qed

lemma mixed_run:
  assumes up: "up_ok dp size_of cfg lake lake_good h (e0, w0)" and nm: "start_lsn (active (en_wal e0)) \<noteq> en_next_lsn e0"
    and len: "length qs < 2 ^ 63"
    and run: "(mixed_step dp)\<^sup>*\<^sup>* (map Waiting qs, FreezeNext, (e0, w0)) (ts, pc, s)"
  shows "numbers_ok (en_next_lsn e0) ts s \<and> length ts = length qs \<and>
         (hist_ok (dp_crc dp) (log_hist h ts) \<longrightarrow> mixed_ok dp size_of cfg lake lake_good h ts pc s)"
proof -
  note room = up_calm_room [OF up nm len] and u = up_ok_dest [OF up]
  have low: "lsn_max h < en_next_lsn e0" using next_lsn(1) [OF u(1)] u(9) by simp
  have srt: "sorted_wrt (<) (map r_lsn h)" using u(1) by (simp add: hist_ok_def)
  show ?thesis using run
  proof (induction "(ts, pc, s)" arbitrary: ts pc s rule: rtranclp_induct)
    case base
    have "numbers_ok (en_next_lsn e0) (map Waiting qs) (e0, w0)" using interleave_numbers [of _ qs "(e0, w0)", OF begin_tasks] room(2) by simp
    with mixed_start [OF up room(1)] show ?case by simp
  next
    case (step y)
    obtain ts1 pc1 s1 where y: "y = (ts1, pc1, s1)" by (cases y)
    note ih = step.hyps(3) [OF y]
    from mixed_step_numbers [OF step.hyps(2) [unfolded y], of "en_next_lsn e0"] ih room(2)
    have "numbers_ok (en_next_lsn e0) ts s \<and> length ts = length qs" by simp
    with mixed_step_ok [OF step.hyps(2) [unfolded y] _ low srt] ih show ?case by blast
  qed
qed

lemma mixed_crash:
  assumes "mixed_ok dp size_of cfg lake lake_good h ts pc (e, w)"
  shows "\<exists>e' w'. engine_open dp pg_up cfg (crashed keep_to st w) = (Ok e', w') \<and>
           (\<forall>k. fst (engine_get dp k (e', w')) = Ok (value_of (apply_log (log_hist h ts) k)))"
proof -
  obtain e1 where "settle dp (log_hist h ts) (all_tasks pending ts) (e, w) = (e1, w)" by (simp add: settle_def)
  with assms have "between_ok dp size_of cfg lake lake_good (log_hist h ts) pc (e1, w)" unfolding mixed_ok_def between_ok_at by auto
  from crash_between [OF this] show ?thesis by blast
qed

end

section \<open>Writers amid the steps of a flush\<close>


text \<open>Playing steps.\<close>

datatype mixed_act = MixTask nat | MixFlush | MixRead bytes | MixAgain

fun mixed_do ::
    "('m, 'f) deps \<Rightarrow> mixed_act \<Rightarrow> task list \<times> 'm flush_pc \<times> ('m, 'f) state \<Rightarrow> (task list \<times> 'm flush_pc \<times> ('m, 'f) state) option" where
  "mixed_do dp (MixTask i) (ts, pc, s) =
     (if i < length ts \<and>
         (case ts ! i of Logged r \<Rightarrow> \<not> should_freeze (set_insert (dp_sm dp) r (en_memtables (fst s))) | _ \<Rightarrow> True)
      then (case task_step dp pg_up (ts ! i) s of (t, s1) \<Rightarrow> Some (ts[i := t], pc, s1)) else None)"
| "mixed_do dp MixFlush (ts, pc, s) =
     (if (case pc of FreezeNext \<Rightarrow> quiet ts | _ \<Rightarrow> True) then Some (ts, flush_step dp pg_up pc s) else None)"
| "mixed_do dp (MixRead k) (ts, pc, s) = Some (ts, pc, snd (engine_get dp k s))"
| "mixed_do dp MixAgain (ts, pc, s) = (case pc of FlushEnd (Ok _) \<Rightarrow> Some (ts, FreezeNext, s) | _ \<Rightarrow> None)"

fun mixed_play ::
    "('m, 'f) deps \<Rightarrow> mixed_act list \<Rightarrow> task list \<times> 'm flush_pc \<times> ('m, 'f) state \<Rightarrow> (task list \<times> 'm flush_pc \<times> ('m, 'f) state) option" where
  "mixed_play dp [] x = Some x"
| "mixed_play dp (a # as) x = Option.bind (mixed_do dp a x) (mixed_play dp as)"

lemma mixed_do_step:
  assumes "mixed_do dp a (ts, pc, (e, w)) = Some y"
  shows "mixed_step dp (ts, pc, (e, w)) y"
proof (cases a)
  case (MixTask i)
  with assms show ?thesis by (auto split: if_splits prod.splits intro: mixed_task)
next
  case MixFlush
  obtain pc' s' where f: "flush_step dp pg_up pc (e, w) = (pc', s')" by (metis prod.exhaust)
  have "quiet ts" if "pc = FreezeNext" using assms MixFlush that by (simp split: if_splits)
  from mixed_flush [OF this f] f MixFlush assms show ?thesis by (auto split: if_splits)
next
  case (MixRead k)
  obtain x s' where "engine_get dp k (e, w) = (x, s')" by (metis prod.exhaust)
  with MixRead assms mixed_read [of dp k "(e, w)" x s'] show ?thesis by auto
next
  case MixAgain
  with assms mixed_again [of dp ts] show ?thesis by (auto split: flush_pc.splits res.splits)
qed

lemma mixed_play_run: "mixed_play dp as x = Some y \<Longrightarrow> (mixed_step dp)\<^sup>*\<^sup>* x y"
proof (induction as arbitrary: x)
  case (Cons a as)
  obtain ts pc e w where x: "x = (ts, pc, (e, w))" by (metis prod.exhaust)
  from Cons.prems obtain z where z: "mixed_do dp a x = Some z" "mixed_play dp as z = Some y" by (auto simp: Option.bind_eq_Some_conv)
  from mixed_do_step z(1) have "mixed_step dp x z" by (simp add: x)
  from converse_rtranclp_into_rtranclp [OF this Cons.IH [OF z(2)]] show ?case .
qed simp

text \<open>
  Key 1 is written and frozen. Then two writers take their numbers; the one with the higher is acknowledged while the
  flush publishes, the other has appended and not yet inserted its new value of key 1.
\<close>

definition amid_script :: "mixed_act list" where
  "amid_script = [MixTask 0, MixTask 0, MixTask 0, MixFlush, MixTask 1, MixTask 2, MixFlush, MixTask 2, MixFlush, MixTask 2, MixFlush, MixTask 1]"

definition amid_tasks :: "task list" where
  "amid_tasks = [Acked (record_put [1] 1 [2]), Logged (record_put [1] 2 [9]), Acked (record_put [7] 3 [4])]"

lemma amid_script_runs:
  "map_option (\<lambda>(ts, pc, s). (ts, beside_at pc))
     (mixed_play mem_deps amid_script (map Waiting [PutReq [1] [2], PutReq [1] [9], PutReq [7] [4]], FreezeNext, race_start))
   = Some (amid_tasks, Some 1)"
  by code_simp

lemma amid_hist:
  "log_hist [] amid_tasks = [record_put [1] 1 [2], record_put [1] 2 [9], record_put [7] 3 [4]]"
  "ack_hist [] amid_tasks = [record_put [1] 1 [2], record_put [7] 3 [4]]"
  by (simp_all add: log_hist_def ack_hist_def amid_tasks_def all_tasks_def)


end
