(* ===== verification/Wal_Reuse.thy ===== *)
theory Wal_Reuse
  imports Flush_Steps
begin

text \<open>
  A segment file with two owners. \<open>rotate\<close> of \<^verbatim>\<open>src/src/wal.rs\<close> opens the new segment with \<open>create(true)\<close> and not
  \<open>create_new(true)\<close>, so it does not notice a file that is already there. For one writer at a time there never is one, which
  the invariant of the runs shows. With two writers a crash can leave an empty segment named by a number that is not the next
  one, and the log then comes to that number again.
\<close>

definition reuse_trace where
  "reuse_trace =
     (let (x1, s1) = engine_put mem_deps pg_up [1] (replicate 40 7) race_start;
          (ta, s2) = task_step mem_deps pg_up (Waiting (PutReq [2] [5])) s1;
          (tb, s3) = task_step mem_deps pg_up (Waiting (PutReq [3] [6])) s2;
          (d, wal) = ok_val (append_write (dp_crc mem_deps) (task_records tb) (w_dir (snd s3), en_wal (fst s3)));
          (x2, w4) = engine_open mem_deps pg_up mem_cfg (crashed (\<lambda>_. 0) [] ((snd s3)\<lparr>w_dir := d\<rparr>));
          (x3, s5) = engine_put mem_deps pg_up [2] (replicate 40 8) (ok_val x2, w4);
          (f1, s6) = flush_run mem_deps pg_up 5 (FreezeNext, s5);
          (x4, s7) = engine_put mem_deps pg_up [9] [4] s6;
          (f2, s8) = flush_run mem_deps pg_up 2 (f1, s7);
          (g1, s9) = engine_get mem_deps [9] s8;
          (x5, w10) = engine_open mem_deps pg_up mem_cfg (crashed (\<lambda>_. 0) [] (snd s9));
          (g2, s10) = engine_get mem_deps [9] (ok_val x5, w10)
      in (map fst d, x3, x4, case f2 of FlushEnd y \<Rightarrow> Some y | _ \<Rightarrow> None, g1, map fst (w_dir (snd s8)), g2))"


end
