(* ===== verification/Bench_Tools.thy ===== *)
theory Bench_Tools
  imports Duckdb_Script "HOL-Library.Multiset"
begin

text \<open>
  The tools of the benchmark, from \<^verbatim>\<open>src/src/bin/bench.rs\<close>: its constants, the command line, \<open>reads\<close>,
  \<open>key_of\<close>, \<open>shuffle\<close>, \<open>pick_hot\<close>, \<open>pct\<close> and the decision \<open>envelope\<close> reports. \<open>rand::random_range\<close> is the
  argument \<open>rr\<close>: \<open>rr n i\<close> is the \<open>i\<close>-th draw, from \<open>0..n\<close>. Floating point is the record \<open>bench_f64\<close>. What
  is printed is a value here.

  Shown: keys sort as their numbers do; shuffling permutes; the hot set has the size asked for and
  distinct places, is found as soon as enough distinct places are drawn and never when there are too
  few keys; a percentile is one of the measurements; the two edges of the envelope.
\<close>

section \<open>Constants and command line\<close>

definition KEYSPACE :: u32 where "KEYSPACE = 200000"
definition FLUSH_EVERY :: u32 where "FLUSH_EVERY = 10000"
definition WORKING_SET :: nat where "WORKING_SET = 2000"
definition VALUE_BYTES :: nat where "VALUE_BYTES = 256"
definition OLTP_P99 :: duration where "OLTP_P99 = from_millis 10"

definition reads :: "env \<Rightarrow> nat" where
  "reads vars =
     (case env_opt vars ''HG_BENCH_READS'' of
        None \<Rightarrow> 5000
      | Some v \<Rightarrow> (case parse_u64 v of None \<Rightarrow> 5000 | Some n \<Rightarrow> unat n))"

datatype write_dist = Random | Sequential

fun write_dist_arg :: "string list \<Rightarrow> write_dist res" where
  "write_dist_arg [] = Ok Random"
| "write_dist_arg (a # as) =
     (if a = ''--write-dist''
      then (case as of
              [] \<Rightarrow> Panic ''--write-dist must be random|sequential''
            | d # _ \<Rightarrow>
                if d = ''random'' then Ok Random
                else if d = ''sequential'' then Ok Sequential
                else Panic ''--write-dist must be random|sequential'')
      else write_dist_arg as)"

text \<open>The configuration the benchmark runs with: its own table and log directory, no automatic flush.\<close>

definition bench_config :: "write_dist \<Rightarrow> nat \<Rightarrow> string \<Rightarrow> 'f config \<Rightarrow> 'f config" where
  "bench_config dist pid tmp cfg =
     cfg\<lparr>cfg_catalog := (cfg_catalog cfg)
            \<lparr>cat_table := ''bench_'' @ (if dist = Random then ''rnd'' else ''seq'') @ ''_'' @ show_nat pid\<rparr>,
         wal_dir := path_join tmp (''bench-wal-'' @ show_nat pid),
         memtable_max_bytes := 2 ^ 30\<rparr>"

section \<open>Keys and orders\<close>

definition pad8 :: "nat \<Rightarrow> string" where
  "pad8 n = (let s = show_nat n in replicate (8 - length s) (digit 0) @ s)"

definition bench_key :: "u32 \<Rightarrow> bytes" where
  "bench_key k =
     map (\<lambda>c. of_nat (of_char c)) (''key'' @ pad8 (unat k))"

definition swap :: "nat \<Rightarrow> nat \<Rightarrow> 'a list \<Rightarrow> 'a list" where
  "swap i j v = v[i := v ! j, j := v ! i]"

text \<open>The loop of \<open>shuffle\<close> at place \<open>i\<close>, counting down to one.\<close>

fun shuffle_from :: "(nat \<Rightarrow> nat \<Rightarrow> nat) \<Rightarrow> nat \<Rightarrow> nat \<Rightarrow> 'a list \<Rightarrow> 'a list" where
  "shuffle_from rr pos 0 v = v"
| "shuffle_from rr pos (Suc i) v = shuffle_from rr (Suc pos) i (swap (Suc i) (rr (Suc i + 1) pos) v)"

definition shuffle :: "(nat \<Rightarrow> nat \<Rightarrow> nat) \<Rightarrow> 'a list \<Rightarrow> 'a list" where
  "shuffle rr v = shuffle_from rr 0 (length v - 1) v"

text \<open>The order in which \<open>write_table\<close> writes the keys.\<close>

definition write_order :: "(nat \<Rightarrow> nat \<Rightarrow> nat) \<Rightarrow> write_dist \<Rightarrow> u32 list" where
  "write_order rr dist =
     (let order = map of_nat [0..<unat KEYSPACE]
      in if dist = Random then shuffle rr order else order)"

section \<open>The hot set\<close>

text \<open>The loop of \<open>pick_hot\<close>; an empty range panics. It may never end, and then has no value.\<close>

partial_function (option) pick_loop ::
    "(nat \<Rightarrow> nat \<Rightarrow> nat) \<Rightarrow> 'a list \<Rightarrow> nat \<Rightarrow> nat \<Rightarrow> nat list \<Rightarrow> 'a list \<Rightarrow> 'a list res option" where
  "pick_loop rr keys want pos seen hot =
     (if length hot < want
      then if keys = [] then Some (Panic ''cannot sample empty range'')
           else let i = rr (length keys) pos
                in if i \<in> set seen then pick_loop rr keys want (Suc pos) seen hot
                   else pick_loop rr keys want (Suc pos) (i # seen) (hot @ [keys ! i])
      else Some (Ok hot))"

declare pick_loop.simps [code]

definition pick_hot :: "(nat \<Rightarrow> nat \<Rightarrow> nat) \<Rightarrow> 'a list \<Rightarrow> 'a list res option" where
  "pick_hot rr keys = pick_loop rr keys WORKING_SET 0 [] []"

section \<open>Percentiles and the envelope\<close>

text \<open>\<open>bf_lit n d\<close> is the literal \<open>n / d\<close>; \<open>bf_to_nat\<close> and \<open>bf_of_nat\<close> are the casts from and to \<open>usize\<close>.\<close>

record 'f bench_f64 =
  bf_lit :: "nat \<Rightarrow> nat \<Rightarrow> 'f"
  bf_of_nat :: "nat \<Rightarrow> 'f"
  bf_to_nat :: "'f \<Rightarrow> nat"
  bf_mul :: "'f \<Rightarrow> 'f \<Rightarrow> 'f"
  bf_div :: "'f \<Rightarrow> 'f \<Rightarrow> 'f"
  bf_max :: "'f \<Rightarrow> 'f \<Rightarrow> 'f"
  bf_min :: "'f \<Rightarrow> 'f \<Rightarrow> 'f"
  bf_eq :: "'f \<Rightarrow> 'f \<Rightarrow> bool"
  bf_gt :: "'f \<Rightarrow> 'f \<Rightarrow> bool"
  bf_MIN :: 'f
  bf_MAX :: 'f

definition RATIOS :: "'f bench_f64 \<Rightarrow> 'f list" where
  "RATIOS B = bf_lit B 1 2 # map (\<lambda>n. bf_lit B n 1) [1, 2, 4, 8, 16, 32]"

definition pct :: "'f bench_f64 \<Rightarrow> duration list \<Rightarrow> 'f \<Rightarrow> duration res" where
  "pct B ds p =
     (if ds = [] then Panic ''attempt to subtract with overflow''
      else Ok (ds ! min (bf_to_nat B (bf_mul B (bf_of_nat B (length ds)) p)) (length ds - 1)))"

record 'f point =
  pt_p50 :: duration
  pt_p99 :: duration
  pt_p999 :: duration
  gets_per_read :: 'f
  hit_rate :: 'f

text \<open>
  What \<open>envelope\<close> reports: nothing holds, everything holds up to a ratio, or an edge with the last good and
  the first bad ratio and, when a point has that ratio, whether reads open many files there and whether
  the other distribution is suggested.
\<close>

datatype 'f report = EmptyEnvelope | WholeSweep 'f | Edge 'f 'f "(bool \<times> bool) option"

definition last_ok :: "'f bench_f64 \<Rightarrow> ('f \<times> 'f point) list \<Rightarrow> 'f" where
  "last_ok B curve = foldl (bf_max B) (bf_MIN B) (map fst (filter (\<lambda>rp. pt_p99 (snd rp) \<le> OLTP_P99) curve))"

definition first_bad :: "'f bench_f64 \<Rightarrow> ('f \<times> 'f point) list \<Rightarrow> 'f" where
  "first_bad B curve = foldl (bf_min B) (bf_MAX B) (map fst (filter (\<lambda>rp. OLTP_P99 < pt_p99 (snd rp)) curve))"

definition envelope :: "'f bench_f64 \<Rightarrow> ('f \<times> 'f point) list \<Rightarrow> write_dist \<Rightarrow> 'f report" where
  "envelope B curve dist =
     (if bf_eq B (last_ok B curve) (bf_MIN B) then EmptyEnvelope
      else if bf_eq B (first_bad B curve) (bf_MAX B) then WholeSweep (last_ok B curve)
      else Edge (last_ok B curve) (first_bad B curve)
             (map_option (\<lambda>rp. (bf_gt B (gets_per_read (snd rp)) (bf_lit B 8 1), dist = Random))
                (find (\<lambda>rp. bf_eq B (fst rp) (first_bad B curve)) curve)))"

section \<open>Key order\<close>

lemma byte_less: "(of_nat (of_char c) :: u8) < of_nat (of_char d) \<longleftrightarrow> c < d"
proof -
  have "of_char c < (256 :: nat)" "of_char d < (256 :: nat)" by simp_all
  then show ?thesis by (simp add: word_less_nat_alt unat_of_nat less_char_def)
qed

lemma map_less:
  fixes f :: "'a::linorder \<Rightarrow> 'b::linorder"
  assumes "\<And>x y. f x < f y \<longleftrightarrow> x < y"
  shows "map f s < map f t \<longleftrightarrow> s < t"
proof -
  have eq: "f x = f y \<longleftrightarrow> x = y" for x y using assms by (metis less_irrefl neq_iff)
  show ?thesis
  proof (induction s arbitrary: t)
    case Nil
    then show ?case by (cases t) simp_all
  next
    case (Cons x s)
    then show ?case by (cases t) (simp_all add: assms eq)
  qed
qed

lemma pad8_digits: "list_all is_digit (pad8 n)"
  using show_nat_digits [of n] by (auto simp: pad8_def Let_def list_all_iff)

lemma dec_value_pad8 [simp]: "dec_value (pad8 n) = n"
  by (simp add: pad8_def Let_def dec_value_zeros dec_value_show_nat)

text \<open>
  Keys sort as their numbers do. For numbers of at most eight digits, as the keyspace has, the bytes of
  two keys compare as the numbers, so that keys written in ascending order fill files with disjoint
  ranges.
\<close>

theorem bench_key_order:
  assumes "k < 100000000" and "l < 100000000"
  shows "(bench_key k < bench_key l \<longleftrightarrow> k < l) \<and> (bench_key k = bench_key l \<longleftrightarrow> k = l) \<and> length (bench_key k) = 11"
proof -
  have n: "unat k < 10 ^ 8" "unat l < 10 ^ 8" using assms by (simp_all add: word_less_nat_alt)
  have len: "length (pad8 (unat k)) = 8" "length (pad8 (unat l)) = 8"
    using length_show_nat [OF n(1)] length_show_nat [OF n(2)] by (simp_all add: pad8_def Let_def)
  have less: "bench_key k < bench_key l \<longleftrightarrow> k < l"
    using digits_order [OF pad8_digits pad8_digits, of "unat k" "unat l"] len
    unfolding bench_key_def map_less [OF byte_less] prefix_less_cancel by (simp add: word_less_nat_alt)
  have "bench_key k = bench_key l \<longleftrightarrow> k = l"
  proof
    assume "bench_key k = bench_key l"
    then have "pad8 (unat k) = pad8 (unat l)"
      using map_less [OF byte_less, of "''key'' @ pad8 (unat k)" "''key'' @ pad8 (unat l)"]
        map_less [OF byte_less, of "''key'' @ pad8 (unat l)" "''key'' @ pad8 (unat k)"]
      unfolding bench_key_def prefix_less_cancel by (metis less_irrefl neq_iff)
    then have "unat k = unat l" by (metis dec_value_pad8)
    then show "k = l" by (simp add: word_unat_eq_iff)
  qed simp
  then show ?thesis using less len by (simp add: bench_key_def)
qed

theorem bench_key_order_witness:
  "bench_key 9 < bench_key 10 \<and> bench_key 9 \<noteq> bench_key 10 \<and> length (bench_key 9) = 11"
  using bench_key_order [of 9 10] by simp

section \<open>Permutations\<close>

text \<open>Every draw is below the bound it was asked for.\<close>

definition draws_ok :: "(nat \<Rightarrow> nat \<Rightarrow> nat) \<Rightarrow> bool" where
  "draws_ok rr \<longleftrightarrow> (\<forall>n i. 0 < n \<longrightarrow> rr n i < n)"

lemma length_swap [simp]: "length (swap i j v) = length v"
  by (simp add: swap_def)

lemma mset_swap_at: "i < length v \<Longrightarrow> j < length v \<Longrightarrow> mset (swap i j v) = mset v"
  unfolding swap_def by (rule mset_swap)

lemma shuffle_from_mset:
  "draws_ok rr \<Longrightarrow> i < length v \<Longrightarrow> mset (shuffle_from rr pos i v) = mset v"
proof (induction i arbitrary: pos v)
  case (Suc i)
  have "rr (Suc i + 1) pos < length v" using Suc.prems unfolding draws_ok_def by (metis Suc_eq_plus1 Suc_lessI less_trans_Suc not_less_eq zero_less_Suc)
  then show ?case using Suc by (simp add: mset_swap_at)
qed simp

lemma shuffle_mset: "draws_ok rr \<Longrightarrow> mset (shuffle rr v) = mset v"
  by (cases v) (simp_all add: shuffle_def shuffle_from_mset)

lemma write_order_perm:
  assumes "draws_ok rr"
  shows "mset (write_order rr d) = mset (map of_nat [0..<200000]) \<and> distinct (write_order rr d) \<and>
         length (write_order rr d) = 200000 \<and> sorted_wrt (<) (write_order rr Sequential)"
proof -
  let ?all = "map of_nat [0..<200000] :: u32 list"
  have small: "unat (of_nat n :: u32) = n" if "n < 200000" for n using that by (simp add: unat_of_nat)
  have ks: "unat KEYSPACE = 200000" by (simp add: KEYSPACE_def)
  have m: "mset (write_order rr d) = mset ?all"
    using shuffle_mset [OF assms, of ?all] by (simp add: write_order_def ks Let_def)
  have asc: "sorted_wrt (<) ?all"
    unfolding sorted_wrt_map
    by (rule sorted_wrt_mono_rel [OF _ sorted_wrt_upt]) (simp add: word_less_nat_alt small)
  then have "distinct ?all" by (metis strict_sorted_iff)
  with m have "distinct (write_order rr d)" "length (write_order rr d) = 200000"
    by (metis mset_eq_imp_distinct_iff, metis length_map length_upt minus_nat.diff_0 mset_eq_length)
  then show ?thesis using m asc by (simp add: write_order_def ks Let_def)
qed

text \<open>
  Both write distributions write the same keys, each once: the order is a permutation of the
  keyspace, and the sequential one ascends.
\<close>

theorem write_order_permutes:
  assumes "draws_ok rr"
  shows "mset (write_order rr d) = mset (map of_nat [0..<200000]) \<and> distinct (write_order rr d) \<and>
         length (write_order rr d) = 200000 \<and> sorted_wrt (<) (write_order rr Sequential)"
  using assms by (rule write_order_perm)

theorem write_order_permutes_witness:
  "draws_ok (\<lambda>n i. 0) \<and> distinct (write_order (\<lambda>n i. 0) Random)"
  using write_order_permutes [of "\<lambda>n i. 0" Random] by (simp add: draws_ok_def)

section \<open>Termination of the hot set\<close>

text \<open>The places a run of the loop adds: drawn, new and distinct.\<close>

definition picked :: "(nat \<Rightarrow> nat) \<Rightarrow> 'a list \<Rightarrow> nat \<Rightarrow> nat list \<Rightarrow> 'a list \<Rightarrow> 'a list res \<Rightarrow> bool" where
  "picked dr keys want seen hot y \<longleftrightarrow>
     (\<exists>ps. y = Ok (hot @ map ((!) keys) ps) \<and> distinct (seen @ ps) \<and> length (seen @ ps) = want \<and> set ps \<subseteq> range dr)"

lemma picked_Nil: "distinct seen \<Longrightarrow> length seen = want \<Longrightarrow> picked dr keys want seen hot (Ok hot)"
  unfolding picked_def by (intro exI [of _ "[]"]) simp

lemma picked_Cons:
  "picked dr keys want (dr pos # seen) (hot @ [keys ! dr pos]) y \<Longrightarrow> dr pos \<notin> set seen \<Longrightarrow> picked dr keys want seen hot y"
proof -
  assume "picked dr keys want (dr pos # seen) (hot @ [keys ! dr pos]) y"
  then obtain ps where "y = Ok ((hot @ [keys ! dr pos]) @ map ((!) keys) ps)" "distinct ((dr pos # seen) @ ps)"
    "length ((dr pos # seen) @ ps) = want" "set ps \<subseteq> range dr" unfolding picked_def by blast
  then show "picked dr keys want seen hot y" unfolding picked_def by (intro exI [of _ "dr pos # ps"]) auto
qed

lemma pick_loop_result:
  "pick_loop rr keys want pos seen hot = Some y \<Longrightarrow> keys \<noteq> [] \<longrightarrow> distinct seen \<longrightarrow> length hot = length seen \<longrightarrow>
     length seen \<le> want \<longrightarrow> picked (rr (length keys)) keys want seen hot y"
proof (erule pick_loop.raw_induct [where P = "\<lambda>rr keys want pos seen hot y. keys \<noteq> [] \<longrightarrow> distinct seen \<longrightarrow>
    length hot = length seen \<longrightarrow> length seen \<le> want \<longrightarrow> picked (rr (length keys)) keys want seen hot y", rotated])
  fix loop :: "(nat \<Rightarrow> nat \<Rightarrow> nat) \<Rightarrow> 'a list \<Rightarrow> nat \<Rightarrow> nat \<Rightarrow> nat list \<Rightarrow> 'a list \<Rightarrow> 'a list res option"
    and rr and keys :: "'a list" and want pos seen hot y
  assume IH: "\<And>rr keys want pos seen hot y. loop rr keys want pos seen hot = Some y \<Longrightarrow> keys \<noteq> [] \<longrightarrow> distinct seen \<longrightarrow>
      length hot = length seen \<longrightarrow> length seen \<le> want \<longrightarrow> picked (rr (length keys)) keys want seen hot y"
    and run: "(if length hot < want
      then if keys = [] then Some (Panic ''cannot sample empty range'')
           else let i = rr (length keys) pos
                in if i \<in> set seen then loop rr keys want (Suc pos) seen hot
                   else loop rr keys want (Suc pos) (i # seen) (hot @ [keys ! i])
      else Some (Ok hot)) = Some y"
  let ?i = "rr (length keys) pos"
  show "keys \<noteq> [] \<longrightarrow> distinct seen \<longrightarrow> length hot = length seen \<longrightarrow> length seen \<le> want \<longrightarrow>
      picked (rr (length keys)) keys want seen hot y"
  proof (intro impI)
    assume a: "keys \<noteq> []" "distinct seen" "length hot = length seen" "length seen \<le> want"
    show "picked (rr (length keys)) keys want seen hot y"
    proof (cases "length hot < want")
      case False
      then have "y = Ok hot" "length seen = want" using run a(3,4) by simp_all
      then show ?thesis using picked_Nil [OF a(2)] by blast
    next
      case more: True
      show ?thesis
      proof (cases "?i \<in> set seen")
        case True
        then have "loop rr keys want (Suc pos) seen hot = Some y" using run a(1) more by (simp add: Let_def)
        from IH [OF this] a show ?thesis by simp
      next
        case False
        then have "loop rr keys want (Suc pos) (?i # seen) (hot @ [keys ! ?i]) = Some y"
          using run a(1) more by (simp add: Let_def)
        from IH [OF this] a more False have "picked (rr (length keys)) keys want (?i # seen) (hot @ [keys ! ?i]) y" by simp
        from picked_Cons [OF this False] show ?thesis .
      qed
    qed
  qed
qed

lemma pick_loop_ends:
  "want \<le> card (set seen \<union> rr (length keys) ` {pos..<pos + m}) \<Longrightarrow> keys \<noteq> [] \<Longrightarrow> distinct seen \<Longrightarrow> length hot = length seen \<Longrightarrow>
     \<exists>y. pick_loop rr keys want pos seen hot = Some y"
proof (induction m arbitrary: pos seen hot)
  case 0
  then show ?case by (simp add: pick_loop.simps [of rr keys want pos] distinct_card)
next
  case (Suc m)
  let ?i = "rr (length keys) pos"
  have iv: "{pos..<pos + Suc m} = insert pos {Suc pos..<Suc pos + m}" by auto
  have un: "set seen \<union> rr (length keys) ` {pos..<pos + Suc m} = insert ?i (set seen) \<union> rr (length keys) ` {Suc pos..<Suc pos + m}"
    unfolding iv by simp
  show ?case
  proof (cases "?i \<in> set seen")
    case True
    then have "\<exists>y. pick_loop rr keys want (Suc pos) seen hot = Some y"
      using Suc.prems unfolding un by (intro Suc.IH) (simp_all add: insert_absorb)
    then show ?thesis using True Suc.prems(2) by (simp add: pick_loop.simps [of rr keys want pos] Let_def)
  next
    case False
    then have "\<exists>y. pick_loop rr keys want (Suc pos) (?i # seen) (hot @ [keys ! ?i]) = Some y"
      using Suc.prems unfolding un by (intro Suc.IH) simp_all
    then show ?thesis using False Suc.prems(2) by (simp add: pick_loop.simps [of rr keys want pos] Let_def)
  qed
qed

lemma finite_in_range:
  "finite A \<Longrightarrow> A \<subseteq> range (f :: nat \<Rightarrow> 'a) \<Longrightarrow> \<exists>n. A \<subseteq> f ` {..<n}"
proof (induction rule: finite_induct)
  case (insert x A)
  then obtain n i where n: "A \<subseteq> f ` {..<n}" "x = f i" by auto
  have "f ` {..<n} \<subseteq> f ` {..<max n (Suc i)}" by (rule image_mono) auto
  then show ?case using n by (intro exI [of _ "max n (Suc i)"]) auto
qed simp

lemma pick_hot_places:
  assumes "draws_ok rr" and "keys \<noteq> []" and "pick_hot rr keys = Some y"
  shows "\<exists>ps. y = Ok (map ((!) keys) ps) \<and> distinct ps \<and> length ps = WORKING_SET \<and> set ps \<subseteq> range (rr (length keys)) \<and>
           (\<forall>p \<in> set ps. p < length keys)"
proof -
  have "rr (length keys) i < length keys" for i using assms(1,2) by (simp add: draws_ok_def)
  then have "\<forall>p \<in> set ps. p < length keys" if "set ps \<subseteq> range (rr (length keys))" for ps using that by auto
  with pick_loop_result [OF assms(3) [unfolded pick_hot_def]] assms(2) show ?thesis by (auto simp: picked_def)
qed

lemma pick_hot_found:
  "keys \<noteq> [] \<Longrightarrow> WORKING_SET \<le> card (rr (length keys) ` {..<n}) \<Longrightarrow> \<exists>y. pick_hot rr keys = Some y"
  using pick_loop_ends [of WORKING_SET "[]" rr keys 0 n "[]"] by (simp add: pick_hot_def lessThan_atLeast0)

text \<open>
  C37. When the hot set is found. On a non-empty table the loop of \<open>pick_hot\<close> ends exactly when the
  random source draws as many distinct places as the working set has, so it never ends when the table
  has fewer keys. When it ends the hot set is the keys at that many distinct places.
\<close>

theorem pick_hot_ends:
  assumes "draws_ok rr" and "keys \<noteq> []"
  shows "((\<exists>y. pick_hot rr keys = Some y) \<longleftrightarrow> (\<exists>n. WORKING_SET \<le> card (rr (length keys) ` {..<n}))) \<and>
         (length keys < WORKING_SET \<longrightarrow> pick_hot rr keys = None) \<and>
         (\<forall>y. pick_hot rr keys = Some y \<longrightarrow>
            (\<exists>ps. y = Ok (map ((!) keys) ps) \<and> distinct ps \<and> length ps = WORKING_SET \<and> (\<forall>p \<in> set ps. p < length keys)))"
proof -
  let ?draw = "rr (length keys)"
  note res = pick_hot_places [OF assms]
  have small: "?draw i < length keys" for i using assms by (simp add: draws_ok_def)
  have "\<exists>n. WORKING_SET \<le> card (?draw ` {..<n})" if "pick_hot rr keys = Some y" for y
  proof -
    from res [OF that] obtain ps where ps: "distinct ps" "length ps = WORKING_SET" "set ps \<subseteq> range ?draw" by blast
    from finite_in_range [OF finite_set ps(3)] obtain n where "set ps \<subseteq> ?draw ` {..<n}" by blast
    from card_mono [OF _ this] ps(1,2) show ?thesis by (auto simp: distinct_card)
  qed
  moreover have "\<exists>y. pick_hot rr keys = Some y" if "WORKING_SET \<le> card (?draw ` {..<n})" for n
    using pick_hot_found [OF assms(2), of rr n] that .
  ultimately have iff: "(\<exists>y. pick_hot rr keys = Some y) \<longleftrightarrow> (\<exists>n. WORKING_SET \<le> card (?draw ` {..<n}))" by blast
  have "card (?draw ` {..<n}) \<le> length keys" for n
    using card_mono [of "{..<length keys}" "?draw ` {..<n}"] small by auto
  with iff have "length keys < WORKING_SET \<longrightarrow> pick_hot rr keys = None" by (metis not_Some_eq order_trans not_less)
  with iff res show ?thesis by blast
qed

lemma card_places: "card ((\<lambda>i. i mod 2000) ` {..<2000 :: nat}) = 2000"
proof -
  have "(\<lambda>i. i mod 2000) ` {..<2000 :: nat} = {..<2000}" by force
  then show ?thesis by simp
qed

theorem pick_hot_ends_witness:
  "pick_hot (\<lambda>n i. i mod n) [1 :: nat] = None \<and> (\<exists>y. pick_hot (\<lambda>n i. i mod n) (replicate 2000 (1 :: nat)) = Some y)"
proof -
  have d: "draws_ok (\<lambda>n i. i mod n)" by (simp add: draws_ok_def)
  have "\<exists>n. WORKING_SET \<le> card ((\<lambda>i. i mod length (replicate 2000 (1 :: nat))) ` {..<n})"
    by (rule exI [of _ 2000]) (simp add: WORKING_SET_def card_places)
  then have "\<exists>y. pick_hot (\<lambda>n i. i mod n) (replicate 2000 (1 :: nat)) = Some y"
    using pick_hot_ends [OF d, of "replicate 2000 (1 :: nat)"] by simp
  moreover have "pick_hot (\<lambda>n i. i mod n) [1 :: nat] = None"
    using pick_hot_ends [OF d, of "[1 :: nat]"] by (simp add: WORKING_SET_def)
  ultimately show ?thesis by simp
qed

section \<open>The envelope\<close>

lemma foldl_max: "foldl max a xs = (Max (insert a (set xs)) :: 'a::linorder)"
proof (induction xs arbitrary: a)
  case (Cons x xs)
  then show ?case by (cases "xs = []") (simp_all add: Max_insert max.assoc max.left_commute insert_commute)
qed simp

lemma foldl_min: "foldl min a xs = (Min (insert a (set xs)) :: 'a::linorder)"
proof (induction xs arbitrary: a)
  case (Cons x xs)
  then show ?case by (cases "xs = []") (simp_all add: Min_insert min.assoc min.left_commute insert_commute)
qed simp

lemma Max_insert_below:
  fixes a :: "'a::linorder"
  assumes "finite A" and "\<forall>x \<in> A. a < x"
  shows "Max (insert a A) = (if A = {} then a else Max A)"
proof (cases "A = {}")
  case False
  with assms have "a < Max A" using Max_in [of A] by blast
  then show ?thesis using assms(1) False by (simp add: Max_insert max.absorb2 less_imp_le del: Max_ge_iff Max_gr_iff)
qed simp

lemma Min_insert_above:
  fixes a :: "'a::linorder"
  assumes "finite A" and "\<forall>x \<in> A. x < a"
  shows "Min (insert a A) = (if A = {} then a else Min A)"
proof (cases "A = {}")
  case False
  with assms have "Min A < a" using Min_in [of A] by blast
  then show ?thesis using assms(1) False by (simp add: Min_insert min.absorb2 less_imp_le del: Min_le_iff Min_less_iff)
qed simp

lemma find_fst: "r \<in> fst ` set xs \<Longrightarrow> \<exists>p. (r, p) \<in> set xs \<and> find (\<lambda>x. fst x = r) xs = Some (r, p)"
  by (induction xs) (auto split: if_splits)

definition good_ratios :: "('f \<times> 'f point) list \<Rightarrow> 'f set" where
  "good_ratios curve = fst ` {rp \<in> set curve. pt_p99 (snd rp) \<le> OLTP_P99}"

definition bad_ratios :: "('f \<times> 'f point) list \<Rightarrow> 'f set" where
  "bad_ratios curve = fst ` {rp \<in> set curve. OLTP_P99 < pt_p99 (snd rp)}"

text \<open>
  What the envelope reports. For ratios that are ordered numbers strictly between the two sentinels
  it is empty exactly when no point keeps the bar; it spans the sweep exactly when every point does and
  there is one; otherwise its edges are the greatest ratio that kept the bar and the least that did
  not, and the point at the edge is found.
\<close>

theorem envelope_spec:
  fixes B :: "'f::linorder bench_f64"
  assumes "bf_max B = max" and "bf_min B = min" and "bf_eq B = (=)"
    and "\<forall>rp \<in> set curve. bf_MIN B < fst rp \<and> fst rp < bf_MAX B"
  shows "(envelope B curve d = EmptyEnvelope \<longleftrightarrow> good_ratios curve = {}) \<and>
         (\<forall>r. envelope B curve d = WholeSweep r \<longleftrightarrow> good_ratios curve \<noteq> {} \<and> bad_ratios curve = {} \<and> r = Max (good_ratios curve)) \<and>
         (good_ratios curve \<noteq> {} \<and> bad_ratios curve \<noteq> {} \<longrightarrow>
            (\<exists>p. (Min (bad_ratios curve), p) \<in> set curve \<and>
               envelope B curve d = Edge (Max (good_ratios curve)) (Min (bad_ratios curve))
                 (Some (bf_gt B (gets_per_read p) (bf_lit B 8 1), d = Random))))"
proof -
  have fin: "finite (good_ratios curve)" "finite (bad_ratios curve)" by (simp_all add: good_ratios_def bad_ratios_def)
  have g: "\<forall>x \<in> good_ratios curve. bf_MIN B < x" and b: "\<forall>x \<in> bad_ratios curve. x < bf_MAX B"
    using assms(4) by (auto simp: good_ratios_def bad_ratios_def)
  have lo: "last_ok B curve = (if good_ratios curve = {} then bf_MIN B else Max (good_ratios curve))"
    using Max_insert_below [OF fin(1) g] by (simp add: last_ok_def assms(1) foldl_max good_ratios_def)
  have fb: "first_bad B curve = (if bad_ratios curve = {} then bf_MAX B else Min (bad_ratios curve))"
    using Min_insert_above [OF fin(2) b] by (simp add: first_bad_def assms(2) foldl_min bad_ratios_def)
  have ne: "good_ratios curve \<noteq> {} \<Longrightarrow> Max (good_ratios curve) \<noteq> bf_MIN B" "bad_ratios curve \<noteq> {} \<Longrightarrow> Min (bad_ratios curve) \<noteq> bf_MAX B"
    using Max_in [OF fin(1)] Min_in [OF fin(2)] g b by (metis less_irrefl)+
  have "Min (bad_ratios curve) \<in> fst ` set curve" if "bad_ratios curve \<noteq> {}"
    using Min_in [OF fin(2) that] by (auto simp: bad_ratios_def simp del: Min_in)
  from find_fst [OF this] have "\<exists>p. (Min (bad_ratios curve), p) \<in> set curve \<and>
      find (\<lambda>rp. fst rp = Min (bad_ratios curve)) curve = Some (Min (bad_ratios curve), p)"
    if "bad_ratios curve \<noteq> {}" using that .
  then show ?thesis using ne by (auto simp: envelope_def assms(3) lo fb)
qed

definition sample_f64 :: "nat bench_f64" where
  "sample_f64 = \<lparr>bf_lit = (\<lambda>n d. 10 * n div d), bf_of_nat = (\<lambda>n. 10 * n), bf_to_nat = (\<lambda>x. x div 10), bf_mul = (\<lambda>x y. x * y div 10),
     bf_div = (\<lambda>x y. 10 * x div y), bf_max = max, bf_min = min, bf_eq = (=), bf_gt = (\<lambda>x y. y < x), bf_MIN = 0, bf_MAX = 1000\<rparr>"

theorem envelope_spec_witness:
  "envelope sample_f64
     [(10, \<lparr>pt_p50 = 1, pt_p99 = 2, pt_p999 = 3, gets_per_read = 10, hit_rate = 9\<rparr>),
      (20, \<lparr>pt_p50 = 1, pt_p99 = 20000000, pt_p999 = 20000001, gets_per_read = 90, hit_rate = 1\<rparr>)] Random
   = Edge 10 20 (Some (True, True))"
proof -
  let ?curve = "[(10, \<lparr>pt_p50 = 1, pt_p99 = 2, pt_p999 = 3, gets_per_read = 10, hit_rate = 9\<rparr>),
      (20, \<lparr>pt_p50 = 1, pt_p99 = 20000000, pt_p999 = 20000001, gets_per_read = 90, hit_rate = 1\<rparr>)] :: (nat \<times> nat point) list"
  have o: "OLTP_P99 = 10000000" by (simp add: OLTP_P99_def from_millis_def)
  have "{rp \<in> set ?curve. pt_p99 (snd rp) \<le> OLTP_P99} = {hd ?curve}" "{rp \<in> set ?curve. OLTP_P99 < pt_p99 (snd rp)} = {last ?curve}"
    by (auto simp: o)
  then have gb: "good_ratios ?curve = {10}" "bad_ratios ?curve = {20}" by (simp_all add: good_ratios_def bad_ratios_def)
  have "\<forall>rp \<in> set ?curve. bf_MIN sample_f64 < fst rp \<and> fst rp < bf_MAX sample_f64" by (simp add: sample_f64_def)
  with envelope_spec [of sample_f64 ?curve Random] gb show ?thesis by (auto simp: sample_f64_def)
qed

end
