(* ===== verification/Bench_Run.thy ===== *)
theory Bench_Run
  imports Engine_Reach Bench_Tools
begin

text \<open>
  A run of the benchmark on the engine, from \<^verbatim>\<open>src/src/bin/bench.rs\<close>: \<open>write_table\<close>, \<open>calibrate\<close>,
  \<open>measure\<close> and \<open>main\<close>. \<open>unwrap\<close> turns an error into a panic. What comes from outside is gathered in
  \<open>bench_io\<close>: the outcomes of the calls, the draws of the random source and the time each read took. An engine that goes out of scope leaves the world
  as it is. What is printed is the value returned.

  Shown: whatever the calls return, a read of the benchmark never misses a key, and when everything
  outside works the benchmark completes.
\<close>

section \<open>Running the engine\<close>

definition unwrap_msg :: string where
  "unwrap_msg = ''called Result::unwrap() on an Err value''"

fun unwrap_then :: "'a res \<times> 's \<Rightarrow> ('a \<Rightarrow> 's \<Rightarrow> 'b res \<times> 's) \<Rightarrow> 'b res \<times> 's" where
  "unwrap_then (Ok x, s) f = f x s"
| "unwrap_then (Err e, s) f = (Panic unwrap_msg, s)"
| "unwrap_then (Panic p, s) f = (Panic p, s)"

text \<open>Open an engine, use it, and let it go out of scope.\<close>

definition with_engine ::
    "('m, 'f) deps \<Rightarrow> pg_io \<Rightarrow> 'f config \<Rightarrow> (('m, 'f) state \<Rightarrow> 'a res \<times> ('m, 'f) state) \<Rightarrow> world \<Rightarrow> 'a res \<times> world" where
  "with_engine dp io cfg body w =
     unwrap_then (engine_open dp io cfg w) (\<lambda>e w1. case body (e, w1) of (r, (e2, w2)) \<Rightarrow> (r, w2))"

record bench_io =
  bo_mkdir :: conn
  bo_open_write :: pg_io
  bo_open_calibrate :: pg_io
  bo_open :: "nat \<Rightarrow> pg_io"
  bo_put :: "nat \<Rightarrow> pg_io"
  bo_flush :: "nat \<Rightarrow> pg_io"
  bo_order :: "nat \<Rightarrow> nat \<Rightarrow> nat"
  bo_hot :: "nat \<Rightarrow> nat \<Rightarrow> nat"
  bo_elapsed :: "nat \<Rightarrow> nat \<Rightarrow> duration"

section \<open>Writing the table\<close>

definition bench_value :: bytes where
  "bench_value = replicate VALUE_BYTES 0x76"

fun write_loop ::
    "('m, 'f) deps \<Rightarrow> bench_io \<Rightarrow> nat \<Rightarrow> u32 list \<Rightarrow> ('m, 'f) state \<Rightarrow> bytes list res \<times> ('m, 'f) state" where
  "write_loop dp io i [] s = (Ok [], s)"
| "write_loop dp io i (k # ks) s =
     unwrap_then (engine_put dp (bo_put io i) (bench_key k) bench_value s) (\<lambda>_ s1.
     unwrap_then (if (of_nat i + 1) mod FLUSH_EVERY = 0 then engine_flush dp (bo_flush io i) s1 else (Ok Empty, s1)) (\<lambda>_ s2.
     unwrap_then (write_loop dp io (Suc i) ks s2) (\<lambda>keys s3. (Ok (bench_key k # keys), s3))))"

definition write_table ::
    "('m, 'f) deps \<Rightarrow> bench_io \<Rightarrow> 'f config \<Rightarrow> write_dist \<Rightarrow> world \<Rightarrow> bytes list res \<times> world" where
  "write_table dp io cfg dist = with_engine dp (bo_open_write io) cfg (write_loop dp io 0 (write_order (bo_order io) dist))"

section \<open>Calibration\<close>

fun warm :: "('m, 'f) deps \<Rightarrow> bytes list \<Rightarrow> ('m, 'f) state \<Rightarrow> unit res \<times> ('m, 'f) state" where
  "warm dp [] s = (Ok (), s)"
| "warm dp (k # ks) s = unwrap_then (engine_get dp k s) (\<lambda>_ s1. warm dp ks s1)"

definition calibrate ::
    "('m, 'f) deps \<Rightarrow> bench_io \<Rightarrow> 'f config \<Rightarrow> bytes list \<Rightarrow> world \<Rightarrow> ((nat \<times> bytes list) res \<times> world) option" where
  "calibrate dp io cfg keys w =
     map_option (\<lambda>r. unwrap_then (r, w) (\<lambda>hot.
         with_engine dp (bo_open_calibrate io) (cfg\<lparr>cache_bytes := 4 * 2 ^ 30\<rparr>) (\<lambda>s.
           unwrap_then (warm dp hot s) (\<lambda>_ (e, w1). (Ok (unat (bytes_resident (engine_cache_stats e)), hot), (e, w1))))))
       (pick_hot (bo_hot io) keys)"

section \<open>One point of the sweep\<close>

fun read_loop ::
    "('m, 'f) deps \<Rightarrow> (nat \<Rightarrow> duration) \<Rightarrow> bytes list \<Rightarrow> nat \<Rightarrow> nat \<Rightarrow> ('m, 'f) state \<Rightarrow> duration list res \<times> ('m, 'f) state" where
  "read_loop dp elapsed hot i 0 s = (Ok [], s)"
| "read_loop dp elapsed hot i (Suc n) s =
     (if hot = [] then (Panic ''attempt to calculate the remainder with a divisor of zero'', s)
      else
        unwrap_then (engine_get dp (hot ! (i mod length hot)) s) (\<lambda>got s1.
          if got = None then (Panic ''benchmark read missed a key that was written'', s1)
          else unwrap_then (read_loop dp elapsed hot (Suc i) n s1) (\<lambda>ds s2. (Ok (elapsed i # ds), s2))))"

definition bench_point :: "'f bench_f64 \<Rightarrow> nat \<Rightarrow> u64 \<Rightarrow> cache_stats_snapshot \<Rightarrow> duration list \<Rightarrow> 'f point res" where
  "bench_point B n gets cache latencies =
     bind_res (pct B latencies (bf_lit B 50 100)) (\<lambda>a.
     bind_res (pct B latencies (bf_lit B 99 100)) (\<lambda>b.
     bind_res (pct B latencies (bf_lit B 999 1000)) (\<lambda>c.
       Ok \<lparr>pt_p50 = a, pt_p99 = b, pt_p999 = c,
           gets_per_read = bf_div B (bf_of_nat B (unat gets)) (bf_of_nat B n),
           hit_rate = bf_div B (bf_of_nat B (unat (sn_hits cache))) (bf_of_nat B (unat (max (sn_hits cache + sn_misses cache) 1)))\<rparr>)))"

definition measure_at ::
    "('m, 'f) deps \<Rightarrow> 'f bench_f64 \<Rightarrow> bench_io \<Rightarrow> nat \<Rightarrow> 'f config \<Rightarrow> nat \<Rightarrow> nat \<Rightarrow> bytes list \<Rightarrow> world \<Rightarrow> 'f point res \<times> world" where
  "measure_at dp B io j cfg n cache hot =
     with_engine dp (bo_open io j) (cfg\<lparr>cache_bytes := of_nat cache\<rparr>) (\<lambda>s.
       unwrap_then (warm dp (take (min WORKING_SET (length hot)) hot) s) (\<lambda>_ (e, w).
       unwrap_then (read_loop dp (bo_elapsed io j) hot 0 n (engine_reset_stats e, w)) (\<lambda>latencies (e2, w2).
         (bench_point B n (sn_gets (engine_store_stats e2)) (engine_cache_stats e2) (sort latencies), (e2, w2)))))"

fun sweep ::
    "('m, 'f) deps \<Rightarrow> 'f bench_f64 \<Rightarrow> bench_io \<Rightarrow> 'f config \<Rightarrow> nat \<Rightarrow> nat \<Rightarrow> bytes list \<Rightarrow> nat \<Rightarrow> 'f list \<Rightarrow> world
      \<Rightarrow> ('f \<times> 'f point) list res \<times> world" where
  "sweep dp B io cfg n working_set hot j [] w = (Ok [], w)"
| "sweep dp B io cfg n working_set hot j (ratio # ratios) w =
     unwrap_then (measure_at dp B io j cfg n (bf_to_nat B (bf_div B (bf_of_nat B working_set) ratio)) hot w) (\<lambda>point w1.
     unwrap_then (sweep dp B io cfg n working_set hot (Suc j) ratios w1) (\<lambda>curve w2. (Ok ((ratio, point) # curve), w2)))"

section \<open>The program\<close>

definition bench_curve ::
    "('m, 'f) deps \<Rightarrow> 'f bench_f64 \<Rightarrow> bench_io \<Rightarrow> 'f config \<Rightarrow> nat \<Rightarrow> write_dist \<Rightarrow> world \<Rightarrow> (('f \<times> 'f point) list res \<times> world) option" where
  "bench_curve dp B io cfg n dist w =
     (case write_table dp io cfg dist w of
        (Ok keys, w1) \<Rightarrow>
          map_option (\<lambda>r. unwrap_then r (\<lambda>(working_set, hot). sweep dp B io cfg n working_set hot 0 (RATIOS B)))
            (calibrate dp io cfg keys w1)
      | (Err e, w1) \<Rightarrow> Some (Err e, w1)
      | (Panic p, w1) \<Rightarrow> Some (Panic p, w1))"

definition bench_main ::
    "('m, 'f) deps \<Rightarrow> 'f bench_f64 \<Rightarrow> bench_io \<Rightarrow> string list \<Rightarrow> env \<Rightarrow> nat \<Rightarrow> string \<Rightarrow> world \<Rightarrow> ('f report res \<times> world) option" where
  "bench_main dp B io args vars pid tmp w =
     (case bind_res (write_dist_arg args) (\<lambda>dist. bind_res (from_env (dp_f64 dp) vars) (\<lambda>cfg. Ok (dist, bench_config dist pid tmp cfg))) of
        Ok (dist, cfg) \<Rightarrow>
          (case unwrap_then (pg_query (bo_mkdir io) (), w) (\<lambda>_. bootstrap (dp_proc dp) (cfg_duckdb cfg) (cfg_catalog cfg) (cfg_s3 cfg)) of
             (Ok _, w1) \<Rightarrow>
               map_option (\<lambda>r. unwrap_then r (\<lambda>curve w2. (Ok (envelope B curve dist), w2)))
                 (bench_curve dp B io cfg (reads vars) dist w1)
           | (Err e, w1) \<Rightarrow> Some (Panic unwrap_msg, w1)
           | (Panic p, w1) \<Rightarrow> Some (Panic p, w1))
      | Err e \<Rightarrow> Some (Err e, w)
      | Panic p \<Rightarrow> Some (Panic p, w))"

section \<open>The history of a run of puts\<close>

text \<open>Keys and values put one after the other on an empty table, few and short enough for every bound.\<close>

definition put_log :: "(bytes \<times> bytes) list \<Rightarrow> wrecord list" where
  "put_log kvs = map (\<lambda>(i, (k, v)). record_put k (of_nat (Suc i)) v) (enumerate 0 kvs)"

definition kvs_ok :: "(bytes \<times> bytes) list \<Rightarrow> bool" where
  "kvs_ok kvs \<longleftrightarrow> length kvs \<le> 200000 \<and> (\<forall>kv \<in> set kvs. length (fst kv) \<le> 20 \<and> length (snd kv) \<le> 256)"

lemma put_log_simps [simp]:
  "put_log [] = []"
  "put_log (kvs @ [kv]) = put_log kvs @ [record_put (fst kv) (of_nat (Suc (length kvs))) (snd kv)]"
  by (simp_all add: put_log_def enumerate_append_eq split_def)

lemma kvs_ok_simps [simp]:
  "kvs_ok []"
  "kvs_ok (kvs @ [kv]) \<longleftrightarrow> kvs_ok kvs \<and> length kvs < 200000 \<and> length (fst kv) \<le> 20 \<and> length (snd kv) \<le> 256"
  by (auto simp: kvs_ok_def)

lemma put_log_lsn: "kvs_ok kvs \<Longrightarrow> lsn_max (put_log kvs) = of_nat (length kvs)"
proof (induction kvs rule: rev_induct)
  case (snoc kv kvs)
  then have "(of_nat (length kvs) :: u64) \<le> of_nat (Suc (length kvs))"
    by (simp add: word_le_nat_alt unat_of_nat del: of_nat_Suc)
  then show ?case using snoc by (simp add: max_def del: of_nat_Suc)
qed simp

lemma put_log_frames: "kvs_ok kvs \<Longrightarrow> length (frames crc (put_log kvs)) \<le> 400 * length kvs"
proof (induction kvs rule: rev_induct)
  case (snoc kv kvs)
  then show ?case
    by (simp add: frames_append_length frames_def length_frame record_put_def del: of_nat_Suc)
qed (simp add: frames_def)

lemma put_log_ok: "kvs_ok kvs \<Longrightarrow> hist_ok crc (put_log kvs)"
proof -
  assume ok: "kvs_ok kvs"
  then have len: "length kvs \<le> 200000" by (simp add: kvs_ok_def)
  from ok have "sorted_wrt (<) (map r_lsn (put_log kvs))"
  proof (induction kvs rule: rev_induct)
    case (snoc kv kvs)
    then have "lsn_max (put_log kvs) < of_nat (Suc (length kvs))"
      by (simp add: put_log_lsn word_less_nat_alt unat_of_nat del: of_nat_Suc)
    then show ?case using lsn_max_lt_snoc(1) [of "put_log kvs" "record_put (fst kv) (of_nat (Suc (length kvs))) (snd kv)"] snoc
      by (simp del: of_nat_Suc)
  qed simp
  moreover from ok have "list_all (\<lambda>r. fits r \<and> r_op r = Put) (put_log kvs)"
    by (induction kvs rule: rev_induct) (simp_all add: record_put_def fits_def del: of_nat_Suc)
  moreover have "unat (lsn_max (put_log kvs)) < 2 ^ 63" using put_log_lsn [OF ok] len by (simp add: unat_of_nat)
  moreover have "length (frames crc (put_log kvs)) < 2 ^ 64" using put_log_frames [OF ok, of crc] len by simp
  ultimately show ?thesis by (auto simp: hist_ok_def list_all_iff)
qed

definition bench_log :: "u32 list \<Rightarrow> wrecord list" where
  "bench_log ks = put_log (map (\<lambda>k. (bench_key k, bench_value)) ks)"

lemma bench_log_simps [simp]:
  "bench_log [] = []"
  "bench_log (ks @ [k]) = bench_log ks @ [record_put (bench_key k) (of_nat (Suc (length ks))) bench_value]"
  by (simp_all add: bench_log_def)

lemma length_bench_key: "length (bench_key k) \<le> 13"
proof -
  have "unat k < 2 ^ 32" using unsigned_less [of k] by simp
  then have "unat k < 10 ^ 10" by simp
  from length_show_nat [OF this] show ?thesis by (simp add: bench_key_def pad8_def Let_def)
qed

lemma length_bench_value [simp]: "length bench_value = 256"
  by (simp add: bench_value_def VALUE_BYTES_def)

lemma bench_kvs_ok: "length ks \<le> 200000 \<Longrightarrow> kvs_ok (map (\<lambda>k. (bench_key k, bench_value)) ks)"
  using order_trans [OF length_bench_key, of 20] by (auto simp: kvs_ok_def)

lemma bench_log_lsn: "length ks \<le> 200000 \<Longrightarrow> lsn_max (bench_log ks) = of_nat (length ks)"
  by (simp add: bench_log_def put_log_lsn bench_kvs_ok)

lemma bench_log_ok: "length ks \<le> 200000 \<Longrightarrow> hist_ok crc (bench_log ks)"
  by (simp add: bench_log_def put_log_ok bench_kvs_ok)

lemma bench_log_view: "k \<in> set ks \<Longrightarrow> apply_log (bench_log ks) (bench_key k) = Some (Put, bench_value)"
  by (induction ks rule: rev_induct) (auto simp: record_put_def simp del: of_nat_Suc)

section \<open>Steps of a run\<close>

lemma unwrap_then_Ok: "unwrap_then x f = (Ok y, s) \<longleftrightarrow> (\<exists>a s1. x = (Ok a, s1) \<and> f a s1 = (Ok y, s))"
  by (cases "(x, f)" rule: unwrap_then.cases) auto

lemma sort_map_upt_nonempty: "0 < n \<Longrightarrow> sort (map f [i..<i + n]) \<noteq> []"
  by (metis add_gr_0 length_greater_0_conv length_map length_sort length_upt add_diff_cancel_left')

lemma bench_point_ok: "latencies \<noteq> [] \<Longrightarrow> \<exists>p. bench_point B n gets cache latencies = Ok p"
  by (simp add: bench_point_def pct_def)

context engine_env
begin

lemma down_cache: "down_ok dp size_of (cfg\<lparr>cache_bytes := c\<rparr>) lake lake_good h w \<longleftrightarrow> down_ok dp size_of cfg lake lake_good h w"
  by (simp add: down_ok_def lake_state_def)

text \<open>The environment is the same for a configuration with other memory limits.\<close>

lemma env_like:
  assumes "wal_segment_bytes c = wal_segment_bytes cfg" "max_frozen_memtables c = max_frozen_memtables cfg"
    and "cfg_duckdb c = cfg_duckdb cfg" "cfg_catalog c = cfg_catalog cfg" "cfg_s3 c = cfg_s3 cfg"
  shows "engine_env dp size_of c lake lake_good"
proof unfold_locales
  show "sched_ok (dp_sched dp)" by (rule sched)
  show "bigint_ok (dp_bigint dp)" by (rule bigint)
qed (use skip seg_pos frozen_pos create_law write_law close_law process_law in \<open>simp_all add: skipmap_def assms\<close>)

lemma env_cache: "engine_env dp size_of (cfg\<lparr>cache_bytes := c\<rparr>) lake lake_good"
  by (rule env_like) simp_all

lemma env_limit: "engine_env dp size_of (cfg\<lparr>memtable_max_bytes := c\<rparr>) lake lake_good"
  by (rule env_like) simp_all

lemma up_reset: "up_ok dp size_of cfg lake lake_good h (e, w) \<Longrightarrow> up_ok dp size_of cfg lake lake_good h (engine_reset_stats e, w)"
  by (auto simp: up_ok_def engine_reset_stats_def reader_inv_def cache_holds_def reset_stats_def split_def)

lemma warm_state:
  "up_ok dp size_of cfg lake lake_good h (e, w) \<Longrightarrow>
     \<exists>e'. warm dp ks (e, w) = (Ok (), (e', w)) \<and> up_ok dp size_of cfg lake lake_good h (e', w)"
proof (induction ks arbitrary: e)
  case (Cons k ks)
  from get_state [OF Cons.prems, of k] obtain v n st where
    g: "engine_get dp k (e, w) = (Ok v, ((charge_gets dp n e)\<lparr>en_reader := st\<rparr>, w))" "up_ok dp size_of cfg lake lake_good h ((charge_gets dp n e)\<lparr>en_reader := st\<rparr>, w)" by blast
  from Cons.IH [OF g(2)] g(1) show ?case by simp
qed simp

lemma read_loop_state:
  assumes "hot \<noteq> []" and "\<forall>k \<in> set hot. \<exists>v. apply_log h k = Some (Put, v)"
  shows "up_ok dp size_of cfg lake lake_good h (e, w) \<Longrightarrow>
     \<exists>e'. read_loop dp elapsed hot i n (e, w) = (Ok (map elapsed [i..<i + n]), (e', w)) \<and> up_ok dp size_of cfg lake lake_good h (e', w)"
proof (induction n arbitrary: i e)
  case (Suc n)
  have "hot ! (i mod length hot) \<in> set hot" using assms(1) by simp
  with assms(2) obtain v where v: "apply_log h (hot ! (i mod length hot)) = Some (Put, v)" by blast
  from get_state [OF Suc.prems, of "hot ! (i mod length hot)"] v obtain m st where
    g: "engine_get dp (hot ! (i mod length hot)) (e, w) = (Ok (Some v), ((charge_gets dp m e)\<lparr>en_reader := st\<rparr>, w))"
    "up_ok dp size_of cfg lake lake_good h ((charge_gets dp m e)\<lparr>en_reader := st\<rparr>, w)" by auto
  from Suc.IH [OF g(2), of "Suc i"] g(1) assms(1) show ?case by (auto simp: upt_conv_Cons simp del: upt_Suc)
qed simp

lemma write_loop_state:
  "up_ok dp size_of cfg lake lake_good (bench_log js) (e, w) \<Longrightarrow> length js + length ks \<le> 200000 \<Longrightarrow>
     write_loop dp io (length js) ks (e, w) = (Ok keys, s') \<Longrightarrow>
     keys = map bench_key ks \<and> up_ok dp size_of cfg lake lake_good (bench_log (js @ ks)) s'"
proof (induction ks arbitrary: js e w keys)
  case (Cons k ks)
  let ?mk = "\<lambda>l. record_put (bench_key k) l bench_value"
  have nx: "lsn_max (bench_log js) + 1 = of_nat (Suc (length js))" using Cons.prems(2) bench_log_lsn [of js] by simp
  have h: "hist_ok (dp_crc dp) (bench_log js @ [?mk (lsn_max (bench_log js) + 1)])"
    using Cons.prems(2) bench_log_ok [of "js @ [k]"] by (simp add: nx del: of_nat_Suc)
  from Cons.prems(3) obtain l s1 y s2 keys' where
    p: "engine_put dp (bo_put io (length js)) (bench_key k) bench_value (e, w) = (Ok l, s1)"
    and f: "(if (of_nat (length js) + 1) mod FLUSH_EVERY = 0 then engine_flush dp (bo_flush io (length js)) s1 else (Ok Empty, s1)) = (Ok y, s2)"
    and r: "write_loop dp io (Suc (length js)) ks s2 = (Ok keys', s')" "keys = bench_key k # keys'"
    by (auto simp: unwrap_then_Ok)
  have up1: "up_ok dp size_of cfg lake lake_good (bench_log (js @ [k])) s1"
    using write_state(2) [OF Cons.prems(1), where mk = ?mk, OF h _ p [unfolded engine_put_def]] by (simp add: nx del: of_nat_Suc)
  obtain e1 w1 where s1: "s1 = (e1, w1)" by (cases s1)
  have up2: "up_ok dp size_of cfg lake lake_good (bench_log (js @ [k])) s2"
    using f flush_state(2) [OF up1 [unfolded s1], where crash = None] up1 unfolding s1 engine_flush_def by (auto split: if_splits)
  obtain e2 w2 where s2: "s2 = (e2, w2)" by (cases s2)
  from Cons.IH [OF up2 [unfolded s2]] r Cons.prems(2) show ?case by (simp add: s2)
qed simp

lemma measure_state:
  assumes down: "down_ok dp size_of cfg lake lake_good h w" and hot: "hot \<noteq> []" "\<forall>k \<in> set hot. \<exists>v. apply_log h k = Some (Put, v)"
    and n: "0 < n"
  shows "\<exists>w'. measure_at dp B io j cfg n cache hot w = (Panic unwrap_msg, w') \<and> bo_open io j \<noteq> pg_up \<or>
           (\<exists>p. measure_at dp B io j cfg n cache hot w = (Ok p, w')) \<and> down_ok dp size_of cfg lake lake_good h w'"
proof -
  let ?cfg = "cfg\<lparr>cache_bytes := of_nat cache\<rparr>"
  note env = env_cache [of "of_nat cache"]
  obtain x w1 where o: "engine_open dp (bo_open io j) ?cfg w = (x, w1)" by fastforce
  have d: "down_ok dp size_of ?cfg lake lake_good h w" using down by (simp add: down_cache)
  note st = engine_env.open_state [OF env d o]
  show ?thesis
  proof (cases x)
    case (Ok e)
    then have up: "up_ok dp size_of ?cfg lake lake_good h (e, w1)" using st(1) by blast
    from engine_env.warm_state [OF env up] obtain e2 where
      wm: "warm dp (take (min WORKING_SET (length hot)) hot) (e, w1) = (Ok (), (e2, w1))" "up_ok dp size_of ?cfg lake lake_good h (e2, w1)" by blast
    from engine_env.read_loop_state [OF env hot engine_env.up_reset [OF env wm(2)], of "bo_elapsed io j" 0 n] obtain e3 where
      rd: "read_loop dp (bo_elapsed io j) hot 0 n (engine_reset_stats e2, w1) = (Ok (map (bo_elapsed io j) [0..<n]), (e3, w1))"
      "up_ok dp size_of ?cfg lake lake_good h (e3, w1)" by auto
    from bench_point_ok [OF sort_map_upt_nonempty [OF n, where i = 0]] obtain p where
      "bench_point B n (sn_gets (engine_store_stats e3)) (engine_cache_stats e3) (sort (map (bo_elapsed io j) [0..<n])) = Ok p" by (metis add_0)
    with o Ok wm(1) rd(1) have "measure_at dp B io j cfg n cache hot w = (Ok p, w1)"
      by (simp add: measure_at_def with_engine_def)
    moreover have "down_ok dp size_of cfg lake lake_good h w1"
      using engine_env.safe_stopped [OF env engine_env.up_safe [OF env rd(2)]] by (simp add: down_cache)
    ultimately show ?thesis by blast
  next
    case (Err err)
    with o st(3) show ?thesis by (auto simp: measure_at_def with_engine_def)
  next
    case (Panic p)
    with engine_env.open_no_panic [OF env d o, of p] show ?thesis by simp
  qed
qed

lemma sweep_state:
  assumes hot: "hot \<noteq> []" "\<forall>k \<in> set hot. \<exists>v. apply_log h k = Some (Put, v)" and n: "0 < n"
  shows "down_ok dp size_of cfg lake lake_good h w \<Longrightarrow>
     fst (sweep dp B io cfg n ws hot j ratios w) = Panic unwrap_msg \<and> (\<exists>j. bo_open io j \<noteq> pg_up) \<or>
     (\<exists>curve. fst (sweep dp B io cfg n ws hot j ratios w) = Ok curve \<and> map fst curve = ratios)"
proof (induction ratios arbitrary: j w)
  case (Cons r rs)
  from measure_state [OF Cons.prems hot n, of B io j "bf_to_nat B (bf_div B (bf_of_nat B ws) r)"] show ?case
  proof (elim exE disjE conjE)
    fix w' p
    assume m: "measure_at dp B io j cfg n (bf_to_nat B (bf_div B (bf_of_nat B ws) r)) hot w = (Ok p, w')"
      "down_ok dp size_of cfg lake lake_good h w'"
    obtain x w2 where "sweep dp B io cfg n ws hot (Suc j) rs w' = (x, w2)" by fastforce
    with Cons.IH [OF m(2), of "Suc j"] m(1) show ?case by auto
  qed auto
qed simp

lemma write_loop_live:
  assumes live: "lake_up dp cfg" and io: "bo_put io = (\<lambda>_. pg_up)" "bo_flush io = (\<lambda>_. pg_up)"
  shows "up_ok dp size_of cfg lake lake_good (bench_log js) (e, w) \<Longrightarrow> length js + length ks \<le> 200000 \<Longrightarrow>
     \<exists>keys s. write_loop dp io (length js) ks (e, w) = (Ok keys, s)"
proof (induction ks arbitrary: js e w)
  case (Cons k ks)
  let ?mk = "\<lambda>l. record_put (bench_key k) l bench_value"
  have nx: "lsn_max (bench_log js) + 1 = of_nat (Suc (length js))" using Cons.prems(2) bench_log_lsn [of js] by simp
  have h: "hist_ok (dp_crc dp) (bench_log js @ [?mk (lsn_max (bench_log js) + 1)])"
    using Cons.prems(2) bench_log_ok [of "js @ [k]"] by (simp add: nx del: of_nat_Suc)
  from up_write_live [OF Cons.prems(1) live, where mk = ?mk, OF h] obtain l e1 w1 where
    p: "with_lsn dp pg_up ?mk (e, w) = (Ok l, (e1, w1))" by (metis prod.collapse r_lsn_simps(1))
  have up1: "up_ok dp size_of cfg lake lake_good (bench_log (js @ [k])) (e1, w1)"
    using write_state(2) [OF Cons.prems(1), where mk = ?mk, OF h _ p] by (simp add: nx del: of_nat_Suc)
  from up_flush_live [OF up1 live] obtain y e2 w2 where
    f: "engine_flush dp pg_up (e1, w1) = (Ok y, (e2, w2))" by (metis prod.collapse)
  have up2: "up_ok dp size_of cfg lake lake_good (bench_log (js @ [k])) (e2, w2)"
    using flush_state(2) [OF up1 f [unfolded engine_flush_def]] by simp
  show ?case
    using Cons.IH [OF up1] Cons.IH [OF up2] Cons.prems(2) by (auto simp: io engine_put_def p f)
qed simp

lemma calibrate_state:
  assumes down: "down_ok dp size_of cfg lake lake_good h w" and hot: "pick_hot (bo_hot io) keys = Some (Ok hot)"
  shows "\<exists>w'. calibrate dp io cfg keys w = Some (Panic unwrap_msg, w') \<and> bo_open_calibrate io \<noteq> pg_up \<or>
           (\<exists>ws. calibrate dp io cfg keys w = Some (Ok (ws, hot), w')) \<and> down_ok dp size_of cfg lake lake_good h w'"
proof -
  let ?cfg = "cfg\<lparr>cache_bytes := 4 * 2 ^ 30\<rparr>"
  note env = env_cache [of "4 * 2 ^ 30"]
  obtain x w1 where o: "engine_open dp (bo_open_calibrate io) ?cfg w = (x, w1)" by fastforce
  have d: "down_ok dp size_of ?cfg lake lake_good h w" using down by (simp only: down_cache)
  note st = engine_env.open_state [OF env d o]
  show ?thesis
  proof (cases x)
    case (Ok e)
    then have "up_ok dp size_of ?cfg lake lake_good h (e, w1)" using st(1) by blast
    from engine_env.warm_state [OF env this] obtain e2 where
      wm: "warm dp hot (e, w1) = (Ok (), (e2, w1))" "up_ok dp size_of ?cfg lake lake_good h (e2, w1)" by blast
    have "down_ok dp size_of cfg lake lake_good h w1"
      using engine_env.safe_stopped [OF env engine_env.up_safe [OF env wm(2)]] by (simp only: down_cache)
    then show ?thesis using o Ok wm(1) hot by (auto simp: calibrate_def with_engine_def)
  next
    case (Err err)
    with o st(3) hot show ?thesis by (auto simp: calibrate_def with_engine_def)
  next
    case (Panic p)
    with engine_env.open_no_panic [OF env d o, of p] show ?thesis by simp
  qed
qed

lemma write_table_state:
  assumes fresh: "fresh_world cfg lake lake_good w" and rr: "draws_ok (bo_order io)"
    and wt: "write_table dp io cfg d w = (Ok keys, w')"
  shows "keys = map bench_key (write_order (bo_order io) d)"
    and "down_ok dp size_of cfg lake lake_good (bench_log (write_order (bo_order io) d)) w'"
proof -
  let ?ks = "write_order (bo_order io) d"
  have len: "length ?ks = 200000" using write_order_perm [OF rr, of d] by blast
  obtain x w1 where o: "engine_open dp (bo_open_write io) cfg w = (x, w1)" by fastforce
  from wt o obtain e e2 where e: "x = Ok e" "write_loop dp io (length ([] :: u32 list)) ?ks (e, w1) = (Ok keys, (e2, w'))"
    by (cases x) (auto simp: write_table_def with_engine_def split: prod.splits)
  have "up_ok dp size_of cfg lake lake_good (bench_log []) (e, w1)"
    using open_state(1) [OF fresh_down [OF fresh] o] e(1) by simp
  from write_loop_state [OF this _ e(2)] len have
    r: "keys = map bench_key ?ks" "up_ok dp size_of cfg lake lake_good (bench_log ?ks) (e2, w')" by simp_all
  show "keys = map bench_key ?ks" by (rule r(1))
  show "down_ok dp size_of cfg lake lake_good (bench_log ?ks) w'" using safe_stopped [OF up_safe [OF r(2)]] .
qed

lemma hot_written:
  assumes rr: "draws_ok (bo_order io)" "draws_ok (bo_hot io)"
    and hot: "pick_hot (bo_hot io) (map bench_key (write_order (bo_order io) d)) = Some y"
  shows "\<exists>hot. y = Ok hot \<and> length hot = WORKING_SET \<and> hot \<noteq> [] \<and> set hot \<subseteq> bench_key ` set (write_order (bo_order io) d) \<and>
           (\<forall>k \<in> set hot. \<exists>v. apply_log (bench_log (write_order (bo_order io) d)) k = Some (Put, v))"
proof -
  let ?ks = "write_order (bo_order io) d"
  have ne: "map bench_key ?ks \<noteq> []" using write_order_perm [OF rr(1), of d] by (metis length_map list.size(3) zero_neq_numeral)
  from pick_hot_places [OF rr(2) ne hot] obtain ps where
    ps: "y = Ok (map ((!) (map bench_key ?ks)) ps)" "length ps = WORKING_SET" "\<forall>p \<in> set ps. p < length ?ks" by auto
  then have "set (map ((!) (map bench_key ?ks)) ps) \<subseteq> bench_key ` set ?ks" by (auto simp: image_iff intro: nth_mem)
  then show ?thesis using ps bench_log_view [of _ ?ks] by (fastforce simp: WORKING_SET_def)
qed

lemma steps_live:
  assumes "fresh_world cfg lake lake_good w" and "lake_up dp cfg" and rr: "draws_ok (bo_order io)" "draws_ok (bo_hot io)"
    and places: "WORKING_SET \<le> card (bo_hot io 200000 ` {..<m})"
    and io: "bo_open_write io = pg_up" "bo_open_calibrate io = pg_up" "bo_put io = (\<lambda>_. pg_up)" "bo_flush io = (\<lambda>_. pg_up)"
  shows "\<exists>keys w1 ws hot w2. write_table dp io cfg d w = (Ok keys, w1) \<and> calibrate dp io cfg keys w1 = Some (Ok (ws, hot), w2) \<and>
           down_ok dp size_of cfg lake lake_good (bench_log (write_order (bo_order io) d)) w2 \<and> hot \<noteq> [] \<and>
           (\<forall>k \<in> set hot. \<exists>v. apply_log (bench_log (write_order (bo_order io) d)) k = Some (Put, v))"
proof -
  let ?ks = "write_order (bo_order io) d"
  have len: "length ?ks = 200000" using write_order_perm [OF rr(1), of d] by blast
  then have ne: "map bench_key ?ks \<noteq> []" by (metis length_map list.size(3) zero_neq_numeral)
  note down = fresh_down [OF assms(1)]
  from open_state(3) [OF down, of pg_up] obtain e w0 where
    o: "engine_open dp pg_up cfg w = (Ok e, w0)" by (metis prod.collapse)
  from open_state(1) [OF down o] have "up_ok dp size_of cfg lake lake_good (bench_log []) (e, w0)" by simp
  from write_loop_live [OF assms(2) io(3,4) this, of ?ks] len obtain keys e1 w1 where
    "write_loop dp io 0 ?ks (e, w0) = (Ok keys, (e1, w1))" by auto
  then have wt: "write_table dp io cfg d w = (Ok keys, w1)" using o io(1) by (simp add: write_table_def with_engine_def)
  note st = write_table_state [OF assms(1) rr(1) wt]
  from pick_hot_found [OF ne, of "bo_hot io" m] places len obtain y where
    y: "pick_hot (bo_hot io) (map bench_key ?ks) = Some y" by auto
  from hot_written [OF rr y] obtain hot where
    h: "y = Ok hot" "hot \<noteq> []" "\<forall>k \<in> set hot. \<exists>v. apply_log (bench_log ?ks) k = Some (Put, v)" by blast
  from calibrate_state [OF st(2) y [unfolded h(1)]] io(2) obtain ws w2 where
    "calibrate dp io cfg keys w1 = Some (Ok (ws, hot), w2)" "down_ok dp size_of cfg lake lake_good (bench_log ?ks) w2"
    by (auto simp: st(1))
  with wt h(2,3) show ?thesis by blast
qed

end

section \<open>Counters\<close>

text \<open>How many requests the store has counted that the cache has not, or no longer, counted as misses.\<close>

definition uncounted :: "('m, 'f) engine \<Rightarrow> u64" where
  "uncounted e = sn_gets (engine_store_stats e) - sn_misses (engine_cache_stats e)"

lemma get_uncounted: "engine_get dp k (e, w) = (x, (e', w')) \<Longrightarrow> uncounted e' = uncounted e"
  using get_counts [of dp k e w] by (auto simp: uncounted_def)

lemma warm_uncounted: "warm dp ks (e, w) = (x, (e', w')) \<Longrightarrow> uncounted e' = uncounted e"
proof (induction ks arbitrary: e w)
  case (Cons k ks)
  obtain y e1 w1 where "engine_get dp k (e, w) = (y, (e1, w1))" by (metis prod.exhaust)
  with Cons get_uncounted [OF this] show ?case by (cases y) auto
qed simp

lemma read_loop_uncounted: "read_loop dp elapsed hot i n (e, w) = (x, (e', w')) \<Longrightarrow> uncounted e' = uncounted e"
proof (induction n arbitrary: i e w x e' w')
  case (Suc n)
  obtain y e1 w1 where g: "engine_get dp (hot ! (i mod length hot)) (e, w) = (y, (e1, w1))" by (metis prod.exhaust)
  obtain z e2 w2 where r: "read_loop dp elapsed hot (Suc i) n (e1, w1) = (z, (e2, w2))" by (metis prod.exhaust)
  from Suc.IH [OF r] get_uncounted [OF g] Suc.prems show ?case
    by (cases y; cases z) (auto simp: g r split: if_splits)
qed simp

lemma open_uncounted: "engine_open dp io cfg w = (Ok e, w') \<Longrightarrow> uncounted e = 0"
  by (auto simp: engine_open_def uncounted_def counter_defs byte_cache_new_def
      split: res.splits prod.splits)

lemma reset_uncounted: "uncounted (engine_reset_stats e) = sn_gets (engine_store_stats e)"
  by (simp add: uncounted_def engine_reset_stats_def counter_defs reset_stats_def)

section \<open>What the benchmark does\<close>

text \<open>
  C35. The benchmark never misses a key. Whatever the calls out of the process return, once the table was
  written and the hot set calibrated, the keys are the whole keyspace, the hot set is as large as asked
  for and taken from them, and the sweep either stops at an engine that could not be opened or delivers
  a point for every ratio: the assertion that a read found its key never fires, for either write
  distribution and whatever the cache holds.
\<close>

theorem bench_never_misses:
  assumes "engine_env dp size_of cfg lake lake_good" and "fresh_world cfg lake lake_good w"
    and "draws_ok (bo_order io)" and "draws_ok (bo_hot io)" and "0 < n"
    and "write_table dp io cfg d w = (Ok keys, w1)"
    and "calibrate dp io cfg keys w1 = Some (Ok (ws, hot), w2)"
  shows "mset keys = mset (map (\<lambda>i. bench_key (of_nat i)) [0..<200000]) \<and> length hot = WORKING_SET \<and> set hot \<subseteq> set keys \<and>
         (fst (sweep dp B io cfg n ws hot 0 (RATIOS B) w2) = Panic unwrap_msg \<or>
          (\<exists>curve. fst (sweep dp B io cfg n ws hot 0 (RATIOS B) w2) = Ok curve \<and> map fst curve = RATIOS B))"
proof -
  let ?ks = "write_order (bo_order io) d"
  note wt = engine_env.write_table_state [OF assms(1,2,3,6)]
  from assms(7) obtain y where y: "pick_hot (bo_hot io) (map bench_key ?ks) = Some y" by (auto simp: calibrate_def wt(1))
  from engine_env.hot_written [OF assms(1,3,4) y] obtain hot' where
    h: "y = Ok hot'" "length hot' = WORKING_SET" "hot' \<noteq> []" "set hot' \<subseteq> bench_key ` set ?ks"
    "\<forall>k \<in> set hot'. \<exists>v. apply_log (bench_log ?ks) k = Some (Put, v)" by blast
  from engine_env.calibrate_state [OF assms(1) wt(2) y [unfolded h(1)]] assms(7)
  have c: "hot' = hot" "down_ok dp size_of cfg lake lake_good (bench_log ?ks) w2" by (auto simp: wt(1))
  have "mset keys = mset (map (\<lambda>i. bench_key (of_nat i)) [0..<200000])"
    using write_order_perm [OF assms(3), of d] by (simp add: wt(1) multiset.map_comp comp_def)
  then show ?thesis
    using engine_env.sweep_state [OF assms(1) h(3,5) assms(5), of w2 B io ws 0 "RATIOS B"] h(2,4) c by (auto simp: wt(1))
qed

text \<open>
  The benchmark completes. When every call out of the process succeeds, the staging file can be written,
  DuckDB exits with zero, at least one read is asked for and the random source draws enough distinct
  places, the whole run on a fresh table returns a curve with a point for every ratio.
\<close>

theorem bench_completes:
  assumes "engine_env dp size_of cfg lake lake_good" and "fresh_world cfg lake lake_good w" and "lake_up dp cfg"
    and "draws_ok (bo_order io)" and "draws_ok (bo_hot io)" and "0 < n"
    and "WORKING_SET \<le> card (bo_hot io 200000 ` {..<m})"
    and "bo_open_write io = pg_up" and "bo_open_calibrate io = pg_up"
    and "bo_open io = (\<lambda>_. pg_up)" and "bo_put io = (\<lambda>_. pg_up)" and "bo_flush io = (\<lambda>_. pg_up)"
  shows "\<exists>curve w'. bench_curve dp B io cfg n d w = Some (Ok curve, w') \<and> map fst curve = RATIOS B"
proof -
  from engine_env.steps_live [OF assms(1,2,3,4,5,7,8,9,11,12), of d] obtain keys w1 ws hot w2 where
    st: "write_table dp io cfg d w = (Ok keys, w1)" "calibrate dp io cfg keys w1 = Some (Ok (ws, hot), w2)"
    "down_ok dp size_of cfg lake lake_good (bench_log (write_order (bo_order io) d)) w2" "hot \<noteq> []"
    "\<forall>k \<in> set hot. \<exists>v. apply_log (bench_log (write_order (bo_order io) d)) k = Some (Put, v)" by blast
  from engine_env.sweep_state [OF assms(1) st(4,5) assms(6) st(3), of B io ws 0 "RATIOS B"] assms(10) obtain curve w3 where
    "sweep dp B io cfg n ws hot 0 (RATIOS B) w2 = (Ok curve, w3)" "map fst curve = RATIOS B" by (metis prod.collapse)
  with st(1,2) show ?thesis by (simp add: bench_curve_def)
qed

definition sample_bench_io :: bench_io where
  "sample_bench_io = \<lparr>bo_mkdir = None, bo_open_write = pg_up, bo_open_calibrate = pg_up, bo_open = (\<lambda>_. pg_up),
     bo_put = (\<lambda>_. pg_up), bo_flush = (\<lambda>_. pg_up), bo_order = (\<lambda>n i. 0), bo_hot = (\<lambda>n i. i mod n),
     bo_elapsed = (\<lambda>j i. 1000 * i)\<rparr>"

definition unit_f64 :: "unit bench_f64" where
  "unit_f64 = \<lparr>bf_lit = (\<lambda>_ _. ()), bf_of_nat = (\<lambda>_. ()), bf_to_nat = (\<lambda>_. 3), bf_mul = (\<lambda>_ _. ()), bf_div = (\<lambda>_ _. ()),
     bf_max = (\<lambda>_ _. ()), bf_min = (\<lambda>_ _. ()), bf_eq = (=), bf_gt = (\<lambda>_ _. False), bf_MIN = (), bf_MAX = ()\<rparr>"

lemma sample_draws: "draws_ok (bo_order sample_bench_io)" "draws_ok (bo_hot sample_bench_io)"
  by (simp_all add: draws_ok_def sample_bench_io_def)

lemma sample_places: "WORKING_SET \<le> card (bo_hot sample_bench_io 200000 ` {..<2000})"
proof -
  have "bo_hot sample_bench_io 200000 ` {..<2000} = {..<2000}" by (force simp: sample_bench_io_def)
  then show ?thesis by (simp add: WORKING_SET_def)
qed

theorem bench_completes_witness:
  "\<exists>curve w'. bench_curve mem_deps unit_f64 sample_bench_io mem_cfg 5 Random mem_world = Some (Ok curve, w') \<and> map fst curve = RATIOS unit_f64"
  by (rule bench_completes [OF mem.engine_env_axioms mem_fresh mem_up sample_draws _ sample_places])
    (simp_all add: sample_bench_io_def)

theorem bench_never_misses_witness:
  "\<exists>keys w1 ws hot w2. write_table mem_deps sample_bench_io mem_cfg Random mem_world = (Ok keys, w1) \<and>
     calibrate mem_deps sample_bench_io mem_cfg keys w1 = Some (Ok (ws, hot), w2) \<and> length hot = WORKING_SET \<and>
     fst (sweep mem_deps unit_f64 sample_bench_io mem_cfg 5 ws hot 0 (RATIOS unit_f64) w2) \<noteq> Panic ''benchmark read missed a key that was written''"
proof -
  have "\<exists>keys w1 ws hot w2. write_table mem_deps sample_bench_io mem_cfg Random mem_world = (Ok keys, w1) \<and>
      calibrate mem_deps sample_bench_io mem_cfg keys w1 = Some (Ok (ws, hot), w2)"
    using engine_env.steps_live [OF mem.engine_env_axioms mem_fresh mem_up sample_draws sample_places, of Random]
    by (auto simp: sample_bench_io_def)
  then obtain keys w1 ws hot w2 where st: "write_table mem_deps sample_bench_io mem_cfg Random mem_world = (Ok keys, w1)"
    "calibrate mem_deps sample_bench_io mem_cfg keys w1 = Some (Ok (ws, hot), w2)" by blast
  from bench_never_misses [OF mem.engine_env_axioms mem_fresh sample_draws _ st, of 5 unit_f64] st show ?thesis
    by (fastforce simp: unwrap_msg_def)
qed

text \<open>
  C36. What the benchmark reports as GETs per read. \<open>measure\<close> opens an engine, warms it, resets the statistics, reads, and
  divides the GETs of the store by the reads. The reset does not reach the store: the GETs are the misses of the measured
  reads and those of the warm-up together, so a point whose reads all hit the cache still reports GETs.
\<close>

theorem gets_include_warm_up:
  assumes "engine_open dp io cfg w = (Ok e, w0)" and "warm dp ks (e, w0) = (Ok (), (e1, w1))"
    and "read_loop dp elapsed hot 0 n (engine_reset_stats e1, w1) = (x, (e2, w2))"
  shows "sn_gets (engine_store_stats e2) = sn_misses (engine_cache_stats e1) + sn_misses (engine_cache_stats e2)"
proof -
  have "uncounted e1 = 0" using open_uncounted [OF assms(1)] warm_uncounted [OF assms(2)] by simp
  then have "sn_gets (engine_store_stats e1) = sn_misses (engine_cache_stats e1)" by (simp add: uncounted_def)
  then have "uncounted e2 = sn_misses (engine_cache_stats e1)" using read_loop_uncounted [OF assms(3)] by (simp add: reset_uncounted)
  then show ?thesis by (metis diff_add_cancel uncounted_def)
qed

theorem gets_include_warm_up_witness:
  "\<exists>w e w0 e1 w1 e2 w2. engine_open mem_deps pg_up mem_cfg w = (Ok e, w0) \<and> warm mem_deps [[1], [7]] (e, w0) = (Ok (), (e1, w1)) \<and>
     read_loop mem_deps (\<lambda>i. i) [[1]] 0 3 (engine_reset_stats e1, w1) = (Ok [0, 1, 2], (e2, w2)) \<and>
     sn_gets (engine_store_stats e2) = sn_misses (engine_cache_stats e1) + sn_misses (engine_cache_stats e2)"
proof -
  from mem_reach obtain e' w' where "reach mem_deps mem_cfg mem_lake mem_good mem_hist (Some e') w'" by blast
  from mem.reach_open [OF reach.stopped [OF this]] obtain e w0 where
    o: "engine_open mem_deps pg_up mem_cfg w' = (Ok e, w0)" "reach mem_deps mem_cfg mem_lake mem_good mem_hist (Some e) w0" by blast
  have "up_ok mem_deps (\<lambda>_. mem_size) mem_cfg mem_lake mem_good mem_hist (e, w0)" using mem.reach_ok [OF o(2)] by simp
  from mem.warm_state [OF this, of "[[1], [7]]"] obtain e1 where
    wm: "warm mem_deps [[1], [7]] (e, w0) = (Ok (), (e1, w0))" "up_ok mem_deps (\<lambda>_. mem_size) mem_cfg mem_lake mem_good mem_hist (e1, w0)" by blast
  have "\<exists>v. apply_log mem_hist [1] = Some (Put, v)" by (simp add: mem_hist_def apply_log_def apply_rec_def record_put_def)
  with mem.read_loop_state [OF _ _ mem.up_reset [OF wm(2)], of "[[1]]" "\<lambda>i. i" 0 3] obtain e2 where
    rd: "read_loop mem_deps (\<lambda>i. i) [[1]] 0 3 (engine_reset_stats e1, w0) = (Ok [0, 1, 2], (e2, w0))" by (auto simp: upt_conv_Cons)
  from gets_include_warm_up [OF o(1) wm(1) rd] o(1) wm(1) rd show ?thesis by blast
qed

end
