(* ===== verification/Trace_Flush.thy ===== *)
theory Trace_Flush
  imports Bench_Run
begin

text \<open>
  The probe of \<^verbatim>\<open>src/examples/trace_flush.rs\<close>: it opens an engine on a table of its own, puts a hundred keys,
  flushes, and reads one key. Its comment claims that the puts touch the log only and that the flush writes one
  data file. The pauses and the lines it prints are left out; what its last two calls return, which it
  drops, is the result of \<open>trace_session\<close>.
\<close>

section \<open>The program\<close>

definition ascii :: "string \<Rightarrow> bytes" where
  "ascii s = map (\<lambda>c. of_nat (of_char c)) s"

definition pad4 :: "nat \<Rightarrow> string" where
  "pad4 n = (let s = show_nat n in replicate (4 - length s) (digit 0) @ s)"

definition trace_key :: "nat \<Rightarrow> bytes" where
  "trace_key i = ascii (''key'' @ pad4 i)"

definition trace_value :: "nat \<Rightarrow> bytes" where
  "trace_value i = ascii (''value-'' @ show_nat i)"

definition trace_config :: "nat \<Rightarrow> string \<Rightarrow> 'f config \<Rightarrow> 'f config" where
  "trace_config pid tmp cfg =
     cfg\<lparr>cfg_catalog := (cfg_catalog cfg)\<lparr>cat_table := ''t_trace_'' @ show_nat pid\<rparr>,
         wal_dir := path_join tmp (''trace-wal-'' @ show_nat pid),
         memtable_max_bytes := 2 ^ 30\<rparr>"

record trace_io =
  to_mkdir :: conn
  to_open :: pg_io
  to_put :: "nat \<Rightarrow> pg_io"
  to_flush :: pg_io

fun trace_puts :: "('m, 'f) deps \<Rightarrow> trace_io \<Rightarrow> nat \<Rightarrow> nat \<Rightarrow> ('m, 'f) state \<Rightarrow> unit res \<times> ('m, 'f) state" where
  "trace_puts dp io i 0 s = (Ok (), s)"
| "trace_puts dp io i (Suc n) s =
     unwrap_then (engine_put dp (to_put io i) (trace_key i) (trace_value i) s) (\<lambda>_. trace_puts dp io (Suc i) n)"

definition trace_session ::
    "('m, 'f) deps \<Rightarrow> trace_io \<Rightarrow> 'f config \<Rightarrow> world \<Rightarrow> (flushed \<times> bytes option) res \<times> world" where
  "trace_session dp io cfg = with_engine dp (to_open io) cfg (\<lambda>s.
     unwrap_then (trace_puts dp io 0 100 s) (\<lambda>_ s1.
     unwrap_then (engine_flush dp (to_flush io) s1) (\<lambda>y s2.
     unwrap_then (engine_get dp (ascii ''key0050'') s2) (\<lambda>got s3. (Ok (y, got), s3)))))"

definition trace_main ::
    "('m, 'f) deps \<Rightarrow> trace_io \<Rightarrow> env \<Rightarrow> nat \<Rightarrow> string \<Rightarrow> world \<Rightarrow> unit res \<times> world" where
  "trace_main dp io vars pid tmp w =
     (case from_env (dp_f64 dp) vars of
        Ok cfg0 \<Rightarrow>
          (let cfg = trace_config pid tmp cfg0
           in unwrap_then (pg_query (to_mkdir io) (), w) (\<lambda>_ w1.
              unwrap_then (bootstrap (dp_proc dp) (cfg_duckdb cfg) (cfg_catalog cfg) (cfg_s3 cfg) w1) (\<lambda>_ w2.
              unwrap_then (trace_session dp io cfg w2) (\<lambda>_ w3. (Ok (), w3)))))
      | Err e \<Rightarrow> (Err e, w)
      | Panic p \<Rightarrow> (Panic p, w))"

section \<open>The history it writes\<close>

definition trace_kvs :: "nat \<Rightarrow> (bytes \<times> bytes) list" where
  "trace_kvs n = map (\<lambda>i. (trace_key i, trace_value i)) [0..<n]"

lemma trace_kvs_Suc [simp]: "trace_kvs (Suc n) = trace_kvs n @ [(trace_key n, trace_value n)]" "length (trace_kvs n) = n" "trace_kvs 0 = []"
  by (simp_all add: trace_kvs_def)

lemma trace_lengths: "i < 10 ^ 4 \<Longrightarrow> length (trace_key i) \<le> 20 \<and> length (trace_value i) \<le> 256"
  using length_show_nat [of i 4] by (simp add: trace_key_def trace_value_def ascii_def pad4_def Let_def)

lemma trace_kvs_ok: "n \<le> 100 \<Longrightarrow> kvs_ok (trace_kvs n)"
  using trace_lengths by (auto simp: kvs_ok_def trace_kvs_def)

lemma trace_hist: "value_of (apply_log (put_log (trace_kvs 100)) (ascii ''key0050'')) = Some (trace_value 50)"
  by code_simp

text \<open>A hundred short records stay far below the limit of the memtable.\<close>

lemma small_heap: "unat (sum_list (map heap_size rs)) \<le> 400 * length rs"
  if "\<forall>r \<in> set rs. length (r_key r) \<le> 20 \<and> length (r_value r) \<le> 256"
  using that
proof (induction rs)
  case (Cons r rs)
  have "unat (heap_size r) \<le> 400"
    using Cons.prems by (simp add: heap_size_def entry_overhead_def unat_word_ariths unat_of_nat)
  moreover have "unat (heap_size r + sum_list (map heap_size rs)) \<le> unat (heap_size r) + unat (sum_list (map heap_size rs))"
    by (simp add: unat_word_ariths mod_less_eq_dividend)
  ultimately show ?case using Cons by simp
qed simp

section \<open>What it shows\<close>

context engine_env
begin

lemma fresh_open:
  assumes "fresh_world cfg lake lake_good w"
  shows "\<exists>e w'. engine_open dp pg_up cfg w = (Ok e, w') \<and> up_ok dp size_of cfg lake lake_good [] (e, w') \<and> en_index e = [] \<and>
           ms_max_bytes (en_memtables e) = memtable_max_bytes cfg \<and> w_db w' = w_db w \<and> w_getr w' = w_getr w"
proof -
  note down = fresh_down [OF assms]
  from open_state(3) [OF down, of pg_up] obtain e w' where o: "engine_open dp pg_up cfg w = (Ok e, w')" by (metis prod.collapse)
  have up: "up_ok dp size_of cfg lake lake_good [] (e, w')" using open_state(1) [OF down o] by simp
  have "ms_max_bytes (en_memtables e) = memtable_max_bytes cfg" "w_db w' = w_db w" "w_getr w' = w_getr w"
    using o by (auto simp: engine_open_def bind_res_Ok_iff memtable_set_new_def fold_set_insert split: res.splits prod.splits if_splits)
  moreover have "en_index e = []"
    using up_ok_dest(2) [OF up] calculation(2) assms
    by (auto simp: lake_state_def cat_inv_def fresh_world_def load_index_Ok no_rows_index newest_first_def)
  ultimately show ?thesis using o up by blast
qed

lemma calm_memtable:
  assumes "up_ok dp size_of cfg lake lake_good (put_log (trace_kvs n)) (e, w)" and "ms_max_bytes (en_memtables e) = 2 ^ 30" and "n \<le> 100"
  shows "\<not> should_freeze (en_memtables e)"
proof -
  let ?rs = "above (index_watermark (en_index e)) (put_log (trace_kvs n))"
  have "length (put_log (trace_kvs n)) = n" by (simp add: put_log_def)
  then have len: "length ?rs \<le> 100" using assms(3) by (metis above_def le_trans length_filter_le)
  have "length (r_key r) \<le> 20 \<and> length (r_value r) \<le> 256" if "r \<in> set ?rs" for r
  proof -
    from that obtain i where "i < n" "r = record_put (trace_key i) (of_nat (Suc i)) (trace_value i)"
      by (auto simp: above_def put_log_def trace_kvs_def in_set_enumerate_eq)
    then show ?thesis using trace_lengths [of i] assms(3) by (simp add: record_put_def)
  qed
  then have "unat (sum_list (map heap_size ?rs)) \<le> 40000" using small_heap [of ?rs] len by fastforce
  then have "mt_approx_bytes (snd (ms_active (en_memtables e))) < 2 ^ 30"
    unfolding mt_holds_approx_bytes [OF up_ok_dest(7) [OF assms(1)]] by (simp add: word_less_nat_alt)
  then show ?thesis by (simp add: should_freeze_def assms(2) not_le)
qed

lemma trace_puts_state:
  "up_ok dp size_of cfg lake lake_good (put_log (trace_kvs i)) (e, w) \<Longrightarrow> ms_max_bytes (en_memtables e) = 2 ^ 30 \<Longrightarrow>
     i + n \<le> 100 \<Longrightarrow>
     \<exists>e' w'. trace_puts dp io i n (e, w) = (Ok (), (e', w')) \<and> up_ok dp size_of cfg lake lake_good (put_log (trace_kvs (i + n))) (e', w') \<and>
       en_index e' = en_index e \<and> w_db w' = w_db w \<and> w_getr w' = w_getr w"
proof (induction n arbitrary: i e w)
  case (Suc n)
  let ?mk = "\<lambda>l. record_put (trace_key i) l (trace_value i)" and ?h = "put_log (trace_kvs i)"
  have nx: "lsn_max ?h + 1 = of_nat (Suc i)" using put_log_lsn [OF trace_kvs_ok [of i]] Suc.prems(3) by simp
  have new: "?h @ [?mk (lsn_max ?h + 1)] = put_log (trace_kvs (Suc i))" by (simp add: nx del: of_nat_Suc)
  have h: "hist_ok (dp_crc dp) (?h @ [?mk (lsn_max ?h + 1)])" unfolding new by (rule put_log_ok [OF trace_kvs_ok]) (use Suc.prems(3) in simp)
  from write_appended [OF Suc.prems(1), where mk = ?mk, OF h] obtain e1 w1 where
    up1: "up_ok dp size_of cfg lake lake_good (put_log (trace_kvs (Suc i))) (e1, w1)"
    and same: "en_index e1 = en_index e" "ms_max_bytes (en_memtables e1) = 2 ^ 30" "w_db w1 = w_db w" "w_getr w1 = w_getr w"
    and run: "\<not> should_freeze (en_memtables e1) \<longrightarrow> with_lsn dp (to_put io i) ?mk (e, w) = (Ok (lsn_max ?h + 1), (e1, w1))"
    unfolding new by (auto simp: Suc.prems(2))
  have "\<not> should_freeze (en_memtables e1)" by (rule calm_memtable [OF up1 same(2)]) (use Suc.prems(3) in simp)
  with run have "engine_put dp (to_put io i) (trace_key i) (trace_value i) (e, w) = (Ok (lsn_max ?h + 1), (e1, w1))"
    by (simp add: engine_put_def)
  with Suc.IH [OF up1 same(2)] Suc.prems(3) same show ?case by simp
qed simp

lemma trace_phases:
  assumes "fresh_world cfg lake lake_good w" and "lake_up dp cfg" and "memtable_max_bytes cfg = 2 ^ 30"
  shows "\<exists>e w1 e2 w2 e3 w3 s4. engine_open dp pg_up cfg w = (Ok e, w1) \<and> trace_puts dp io 0 100 (e, w1) = (Ok (), (e2, w2)) \<and>
           w_db w2 = w_db w \<and> w_getr w2 = w_getr w \<and> file_count e2 = 0 \<and>
           engine_flush dp pg_up (e2, w2) = (Ok (Committed 100 1), (e3, w3)) \<and> file_count e3 = 1 \<and>
           engine_get dp (ascii ''key0050'') (e3, w3) = (Ok (Some (trace_value 50)), s4)"
proof -
  from fresh_open [OF assms(1)] obtain e w1 where
    o: "engine_open dp pg_up cfg w = (Ok e, w1)" "up_ok dp size_of cfg lake lake_good (put_log (trace_kvs 0)) (e, w1)"
    "en_index e = []" "ms_max_bytes (en_memtables e) = 2 ^ 30" "w_db w1 = w_db w" "w_getr w1 = w_getr w" by (auto simp: assms(3))
  let ?h = "put_log (trace_kvs 100)"
  from trace_puts_state [OF o(2,4), of 100 io] o(3,5,6) obtain e2 w2 where
    p: "trace_puts dp io 0 100 (e, w1) = (Ok (), (e2, w2))" "up_ok dp size_of cfg lake lake_good ?h (e2, w2)"
    "en_index e2 = []" "w_db w2 = w_db w" "w_getr w2 = w_getr w" by auto
  from up_flush_live [OF p(2) assms(2)] obtain y e3 w3 where
    f: "engine_flush dp pg_up (e2, w2) = (Ok y, (e3, w3))" by (metis prod.collapse)
  note fs = flush_state(2) [OF p(2) f [unfolded engine_flush_def] refl refl]
  have mx: "lsn_max ?h = 100" using put_log_lsn [OF trace_kvs_ok [of 100]] by simp
  then have "\<not> (\<forall>r \<in> set ?h. r_lsn r \<le> 0)" unfolding lsn_max_le_iff [symmetric] by simp
  then have "above (index_watermark (en_index e2)) ?h \<noteq> []"
    by (auto simp: p(3) index_watermark_def above_def filter_empty_conv not_less)
  with mx have y: "y = Committed 100 1" "file_count e3 = 1" "up_ok dp size_of cfg lake lake_good ?h (e3, w3)"
    using fs p(3) by (auto simp: file_count_def)
  from get_state [OF y(3), of "ascii ''key0050''"] trace_hist obtain s4 where
    "engine_get dp (ascii ''key0050'') (e3, w3) = (Ok (Some (trace_value 50)), s4)" by (auto simp: value_of_def)
  with o(1) p(1,3-5) f y(1,2) show ?thesis by (auto simp: file_count_def)
qed

end

text \<open>
  What the probe shows. With everything outside at work, the hundred puts leave the catalog and the object
  store untouched, whatever Postgres would have answered meanwhile; the flush then publishes all of them and adds
  exactly one data file; and the read finds the value through the columnar level.
\<close>

theorem trace_one_file:
  assumes "engine_env dp size_of cfg lake lake_good" and "fresh_world cfg lake lake_good w" and "lake_up dp cfg"
    and "memtable_max_bytes cfg = 2 ^ 30" and "to_open io = pg_up" and "to_flush io = pg_up"
  shows "\<exists>e w1 e2 w2 e3 w3. engine_open dp pg_up cfg w = (Ok e, w1) \<and> trace_puts dp io 0 100 (e, w1) = (Ok (), (e2, w2)) \<and>
           w_db w2 = w_db w \<and> w_getr w2 = w_getr w \<and> file_count e2 = 0 \<and>
           engine_flush dp pg_up (e2, w2) = (Ok (Committed 100 1), (e3, w3)) \<and> file_count e3 = 1 \<and>
           fst (trace_session dp io cfg w) = Ok (Committed 100 1, Some (trace_value 50))"
proof -
  from engine_env.trace_phases [OF assms(1-4), of io] obtain e w1 e2 w2 e3 w3 e4 w4 where
    ph: "engine_open dp pg_up cfg w = (Ok e, w1)" "trace_puts dp io 0 100 (e, w1) = (Ok (), (e2, w2))"
    "w_db w2 = w_db w" "w_getr w2 = w_getr w" "file_count e2 = 0"
    "engine_flush dp pg_up (e2, w2) = (Ok (Committed 100 1), (e3, w3))" "file_count e3 = 1"
    "engine_get dp (ascii ''key0050'') (e3, w3) = (Ok (Some (trace_value 50)), (e4, w4))" by (metis prod.collapse)
  then have "fst (trace_session dp io cfg w) = Ok (Committed 100 1, Some (trace_value 50))"
    by (simp add: trace_session_def with_engine_def assms(5,6) del: trace_puts.simps)
  with ph show ?thesis by blast
qed

definition trace_mem_cfg :: "unit config" where
  "trace_mem_cfg = mem_cfg\<lparr>memtable_max_bytes := 2 ^ 30\<rparr>"

definition sample_trace_io :: trace_io where
  "sample_trace_io = \<lparr>to_mkdir = None, to_open = pg_up, to_put = (\<lambda>_. pg_up), to_flush = pg_up\<rparr>"

theorem trace_one_file_witness:
  "fst (trace_session mem_deps sample_trace_io trace_mem_cfg mem_world) = Ok (Committed 100 1, Some (trace_value 50))"
proof -
  have "fresh_world trace_mem_cfg mem_lake mem_good mem_world" "lake_up mem_deps trace_mem_cfg"
    using mem_fresh mem_up by (simp_all add: trace_mem_cfg_def fresh_world_def lake_up_def)
  moreover have "memtable_max_bytes trace_mem_cfg = 2 ^ 30" "to_open sample_trace_io = pg_up" "to_flush sample_trace_io = pg_up"
    by (simp_all add: trace_mem_cfg_def sample_trace_io_def)
  ultimately show ?thesis using trace_one_file [OF mem.env_limit [of "2 ^ 30", folded trace_mem_cfg_def]] by blast
qed

end
