(* ===== verification/Bloom_Vectors.thy ===== *)
theory Bloom_Vectors
  imports Catalog_Bloom
begin

text \<open>
  The catalog bloom filter on recorded data: the blob that the tests of \<^verbatim>\<open>src/src/bloom.rs\<close> pin is
  parsed and probed by evaluating the definitions of \<open>Catalog_Bloom\<close> in the kernel.
\<close>

text \<open>
  Agreement with the writer on recorded data: the pinned blob parses to four blocks, keys the
  writer stored probe present, and keys outside the recorded range are rejected.
\<close>

theorem fork_blob_probes:
  "map_option num_blocks fork_bloom = Some 4 \<and>
   map_option (\<lambda>b. map (might_contain b) [[107, 49], [107, 50], [107, 49, 48, 48]]) fork_bloom
     = Some [Ok True, Ok True, Ok True] \<and>
   map_option (\<lambda>b. map (might_contain b) [[107, 49, 48, 49], [107, 49, 48, 51]]) fork_bloom
     = Some [Ok False, Ok False]"
proof (intro conjI)
  show "map_option num_blocks fork_bloom = Some 4" by code_simp
  show "map_option (\<lambda>b. map (might_contain b) [[107, 49], [107, 50], [107, 49, 48, 48]]) fork_bloom
     = Some [Ok True, Ok True, Ok True]" by code_simp
  show "map_option (\<lambda>b. map (might_contain b) [[107, 49, 48, 49], [107, 49, 48, 51]]) fork_bloom
     = Some [Ok False, Ok False]" by code_simp
qed

end
