(* ===== verification/Spec2Isabelle.thy ===== *)
theory Spec2Isabelle
  imports Engine_Faults Flush_Writers Wal_Reuse Trace_Flush Bloom_Vectors
begin

text \<open>
  Holy-grail is a key-value store whose durable bottom level is a DuckLake table: Parquet files on object
  storage, catalog rows in Postgres. Writes go to a segmented write-ahead log and then to a memtable; a
  flush stages a memtable as a Parquet file, has the DuckDB binary publish it into the table, reloads the
  index of data files, truncates the log and retires the memtable. Reads ask the memtables first and then
  the data files, newest first, through a byte cache. On a restart the log above the published watermark
  is replayed. The crate is \<^verbatim>\<open>src/src\<close>; every theory below names the file it models.

  \<^bold>\<open>Theories and sources.\<close>

  \<^item> \<open>HG_Prelude\<close>: machine integers, \<open>error\<close> (\<^verbatim>\<open>error.rs\<close>), results \<open>res\<close> with a value, an error or a panic,
    little-endian bytes, decimal text.
  \<^item> \<open>Wal_Record\<close>: \<^verbatim>\<open>record.rs\<close>. Records and their frames; \<open>encode\<close> and \<open>decode\<close>.
  \<^item> \<open>Wal_Log\<close>: \<^verbatim>\<open>wal.rs\<close>. The state is the record \<open>wal\<close> with a directory of files that know how much of
    them is synced; \<open>wal_open\<close>, \<open>wal_append\<close>, \<open>wal_rotate\<close>, \<open>truncate_through\<close>, \<open>replay_segment\<close>.
  \<^item> \<open>Memtable_Set\<close>: \<^verbatim>\<open>memtable.rs\<close>. \<open>memtable\<close> over the contract of the skip map, and the set of an active
    and a bounded queue of frozen memtables.
  \<^item> \<open>Catalog_Bloom\<close> and \<open>Bloom_Vectors\<close>: \<^verbatim>\<open>bloom.rs\<close>. The split-block filter, the hash, and a recorded blob.
  \<^item> \<open>Latency_Shim\<close>: \<^verbatim>\<open>store/latency.rs\<close>. \<open>HG_Config\<close>: \<^verbatim>\<open>config.rs\<close> and \<^verbatim>\<open>store/mod.rs\<close>.
  \<^item> \<open>Duckdb_Script\<close>: the scripts of \<^verbatim>\<open>flush.rs\<close> and \<^verbatim>\<open>catalog.rs\<close> and the outcome of the process.
    \<open>Lake_Catalog\<close>: the rest of \<^verbatim>\<open>catalog.rs\<close> and \<^verbatim>\<open>schema.rs\<close>, queries as functions of the rows of the tables.
  \<^item> \<open>File_Index\<close>: \<^verbatim>\<open>index.rs\<close>. \<open>Byte_Cache\<close>: \<^verbatim>\<open>cache.rs\<close>. \<open>Columnar_Read\<close>: \<^verbatim>\<open>read.rs\<close>.
    \<open>Store_Requests\<close>: what the reads of both ask of the object store.
  \<^item> \<open>Flush_Protocol\<close>: plan, staging and publishing of \<^verbatim>\<open>flush.rs\<close>.
  \<^item> \<open>Engine_Core\<close>: \<^verbatim>\<open>engine.rs\<close>. An operation takes and returns an engine and a \<open>world\<close>: the log directory,
    the catalog tables, the object store and the staging directory.
  \<^item> \<open>Engine_Env\<close>, \<open>Engine_Recovery\<close>, \<open>Engine_Reach\<close>: the contract of what is outside, the invariants, and the
    runs of the engine. \<open>Memory_Lake\<close>: an outside in memory that meets the contract.
  \<^item> \<open>Engine_Tasks\<close>: a write cut into its three steps and schedules of many writers, which the runs include.
    \<open>Engine_Writers\<close>: the properties of concurrent writers. \<open>Engine_Faults\<close>: what a failed flush does.
    \<open>Flush_Steps\<close>: a flush and a read cut into steps, with other operations between them.
    \<open>Flush_Writers\<close>: writes in three steps beside a flush in seven. \<open>Wal_Reuse\<close>: a segment file used twice.
  \<^item> \<open>Bench_Tools\<close>, \<open>Bench_Run\<close>: \<^verbatim>\<open>bin/bench.rs\<close>, its pure parts and its run on the engine. \<open>Trace_Flush\<close>:
    \<^verbatim>\<open>examples/trace_flush.rs\<close>.

  \<^bold>\<open>Interfaces.\<close> The locales are the contracts between components and of the crates they use: \<open>skipmap\<close>
  (the concurrent map under a memtable, met by sorted association lists), \<open>level\<close> (a lookup that refines
  a partial map: memtables, their set), \<open>memtable_queue\<close> (freezing and retiring), \<open>file_source\<close> (what the
  Parquet reader asks of the cache), and \<open>engine_env\<close>, which
  gathers what the engine needs of the skip map, of the scheduler of concurrent fetches, of the cast to
  \<open>BIGINT\<close>, of the Arrow writer and of DuckDB: an insert script that names a staged file either adds one
  snapshot with exactly the staged rows or changes nothing, and an exit code of zero means it was added.
  Each is interpreted on the definitions of the model.

  \<^bold>\<open>What is shown.\<close>

  \<^item> Records: decoding inverts encoding; an error is reported only past a matching checksum; oversized
    records cannot be read back.
  \<^item> Log: the invariant, which leaves the order of the sequence numbers open, is kept by every operation; an append
    that returned survives any crash, a crash inside it keeps a prefix; opening recovers exactly the whole
    records; truncation loses nothing above the watermark; a tail of zeros stops the open.
  \<^item> Memtables: the highest sequence number wins whatever the order of arrival, a set answers from its
    newest level, the queue is bounded.
  \<^item> Columnar level: no filter, statistic, cache or order of completion changes an answer; the newest
    file that knows a key decides; the index and the watermark follow a commit; the cache keeps its
    budget and evicts the least recent.
  \<^item> Engine, below: a run refines a map from keys to values, over every sequence of operations, every
    outcome of the calls out of the process and every crash; flushes make progress.
  \<^item> Concurrency: the order in which concurrent writers arrive at the log and at the memtable does not matter, and
    a crash between any two of their steps loses no acknowledged write; between any two steps of
    a flush, reads and the single steps of writes beside it included, reads answer from the acknowledged writes and a crash loses none; a read
    spread over a flush returns a value the key had in between.
  \<^item> Limits, as theorems: after a flush that failed the engine can lose acknowledged writes, and so can
    two concurrent writers with a flush between the steps of one of them, two flushes at once, and a crash between
    two writers that lets a later segment take the file of an earlier one.
  \<^item> Benchmark: a read never misses a written key, the run completes, the GETs it reports are the misses of
    warm-up and measurement together, and when the choice of the hot set ends. Trace example: puts touch the
    log only and a flush adds one data file.

  \<^bold>\<open>Bounds.\<close> Sequence numbers, lengths and counters keep their width. \<open>hist_ok\<close> bounds a history: its
  frames are shorter than 2^64 bytes, its numbers below 2^63 because DuckDB stores them as \<open>BIGINT\<close>, and
  every record fits its frame, \<open>fits\<close>. All loops are total functions, but the choice of the benchmark's
  hot set, which may not end and is a partial function with the value \<open>None\<close> then; no fuel is used.

  \<^bold>\<open>Assumptions on failures.\<close> A crash cuts each log file at or after its synced length; directory entries
  are durable; no run writes to a file it has removed; a tail of zeros, which some file systems leave, is
  not among what a crash leaves in the runs, only in its own theorem. An operation that returned an error is followed by a restart in the
  runs. A call into the log that fails leaves it as it was.

  \<^bold>\<open>Concurrency.\<close> A step is what a task does between two awaits or under one lock. The three steps of any number of writes
  are interleaved with each other, with the seven steps of a flush and of those after it, and with reads, as long as no
  write starts a flush itself and a memtable is frozen only while no write is between its number and its insert; reads in
  three steps are interleaved with flushes in seven and with whole writes. Schedules that break these conditions, a crash
  inside an append while other writers hold numbers, and two flushes at once, are run only where they go wrong.

  \<^bold>\<open>Not modelled.\<close> Sleeping, logging, printing, the \<open>Display\<close> and \<open>Debug\<close> impls, and accessors that only return a
  field. Error texts are abbreviated. Parquet and Arrow encoding, Base64, hexadecimal, CRC, floating point, randomness,
  Postgres and DuckDB are parameters. \<^verbatim>\<open>lib.rs\<close> only re-exports, \<^verbatim>\<open>tests\<close> drive the operations that are modelled.

  \<^bold>\<open>Plan.\<close> Every operation that changes state is modelled. What could be added is the weakest condition on schedules under which two flushes at
  once lose nothing, and the proof that the program is safe without conditions once \<open>flush\<close> takes a lock and the
  watermark of a memtable accounts for numbers handed out and not yet inserted.
\<close>

section \<open>The store as a map\<close>

text \<open>
  C1. Reads. In every state a run of the engine can reach, after any sequence of writes, reads, flushes
  with any outcome and crashes at any of the modelled points, looking a key up gives the value of the
  last write to it that took effect, and nothing when that write was a delete or there was none. The
  answer does not depend on which memtable, data file, cache entry or filter it comes from.
\<close>

theorem reads_answer_history:
  assumes "engine_env dp size_of cfg lake lake_good" and "reach dp cfg lake lake_good h (Some e) w"
  shows "fst (engine_get dp k (e, w)) = Ok (value_of (apply_log h k))"
  using engine_env.reach_get [OF assms] .

theorem reads_answer_history_witness:
  "\<exists>e w. reach mem_deps mem_cfg mem_lake mem_good mem_hist (Some e) w \<and> fst (engine_get mem_deps [1] (e, w)) = Ok (Some [2])"
proof -
  from mem_reach obtain e w where r: "reach mem_deps mem_cfg mem_lake mem_good mem_hist (Some e) w" by blast
  from reads_answer_history [OF mem.engine_env_axioms r, of "[1]"] r show ?thesis
    by (auto simp: mem_hist_def record_put_def value_of_def apply_log_def apply_rec_def)
qed

text \<open>
  C2. Recovery. From every stopped state a run can reach, and so after every crash, opening succeeds when
  Postgres answers; the memtables then hold exactly the writes above the watermark of the columnar level,
  the next sequence number is one above all that were used, and every read answers from the history:
  no acknowledged write is lost and none is undone.
\<close>

theorem restart_recovers:
  assumes "engine_env dp size_of cfg lake lake_good" and "reach dp cfg lake lake_good h None w"
  shows "\<exists>e w'. engine_open dp pg_up cfg w = (Ok e, w') \<and> en_next_lsn e = lsn_max h + 1 \<and>
           set_view (dp_sm dp) (en_memtables e) = apply_log (above (engine_watermark e) h) \<and>
           (\<forall>k. fst (engine_get dp k (e, w')) = Ok (value_of (apply_log h k)))"
  using engine_env.reach_open [OF assms] engine_env.reach_get [OF assms(1)] by blast

theorem restart_recovers_witness:
  "\<exists>w0 e w'. engine_open mem_deps pg_up mem_cfg w0 = (Ok e, w') \<and> en_next_lsn e = lsn_max mem_hist + 1 \<and>
     set_view (dp_sm mem_deps) (en_memtables e) = apply_log (above (engine_watermark e) mem_hist) \<and>
     (\<forall>k. fst (engine_get mem_deps k (e, w')) = Ok (value_of (apply_log mem_hist k)))"
proof -
  from mem_reach obtain e w where r: "reach mem_deps mem_cfg mem_lake mem_good mem_hist (Some e) w" by blast
  from restart_recovers [OF mem.engine_env_axioms reach.killed [OF r]] show ?thesis by blast
qed

text \<open>
  C3. The flush protocol. Stop a flush anywhere: before anything is staged, after staging, after the
  commit, after the truncation, or where any of its calls fails, the DuckDB process included, whether it
  committed or not. Kill the process there, losing every byte that was not synced. The engine reopens
  and answers every read as before the flush.
\<close>

theorem flush_windows_safe:
  assumes "engine_env dp size_of cfg lake lake_good" and "reach dp cfg lake lake_good h (Some e) w"
    and "flush_inner dp io crash (e, w) = (x, (e', w'))"
  shows "\<exists>e2 w2. engine_open dp pg_up cfg (crashed keep_to st w') = (Ok e2, w2) \<and>
           (\<forall>k. fst (engine_get dp k (e2, w2)) = fst (engine_get dp k (e, w)))"
  using engine_env.reach_open [OF assms(1) reach.flush_killed [OF assms(2,3)]]
    engine_env.reach_get [OF assms(1)] assms(2) by metis

theorem flush_windows_safe_witness:
  "\<exists>e w x e' w' e2 w2. reach mem_deps mem_cfg mem_lake mem_good mem_hist (Some e) w \<and>
     flush_inner mem_deps pg_up (Some AfterCommit) (e, w) = (x, (e', w')) \<and>
     engine_open mem_deps pg_up mem_cfg (crashed (\<lambda>_. 0) [] w') = (Ok e2, w2) \<and>
     (\<forall>k. fst (engine_get mem_deps k (e2, w2)) = fst (engine_get mem_deps k (e, w)))"
proof -
  from mem_reach obtain e w where r: "reach mem_deps mem_cfg mem_lake mem_good mem_hist (Some e) w" by blast
  obtain x e' w' where f: "flush_inner mem_deps pg_up (Some AfterCommit) (e, w) = (x, (e', w'))" by (metis prod_cases3)
  from flush_windows_safe [OF mem.engine_env_axioms r f, of "\<lambda>_. 0" "[]"] r f show ?thesis by blast
qed


lemma mem_second_put: "hist_ok (dp_crc mem_deps) (mem_hist @ [record_put [1] 2 [5]])"
  by (simp add: hist_ok_def mem_hist_def record_put_def fits_def length_frame)

lemma mem_second_delete: "hist_ok (dp_crc mem_deps) (mem_hist @ [record_delete [1] 2])"
  by (simp add: hist_ok_def mem_hist_def record_put_def record_delete_def fits_def length_frame)

lemma mem_running:
  "\<exists>e w. reach mem_deps mem_cfg mem_lake mem_good mem_hist (Some e) w \<and> en_next_lsn e = 2"
proof -
  from mem_reach obtain e w where r: "reach mem_deps mem_cfg mem_lake mem_good mem_hist (Some e) w" by blast
  with mem.reach_hist [OF r] show ?thesis by (auto simp: mem_hist_def record_put_def)
qed




text \<open>
  C10. A write in flight. When the process dies after the bytes of a put were written and before they were
  synced, then wherever the file is cut, the engine reopens with the write either wholly there or not
  at all, and every other key as it was.
\<close>

theorem killed_write_is_atomic:
  assumes "engine_env dp size_of cfg lake lake_good" and "reach dp cfg lake lake_good h (Some e) w"
    and "hist_ok (dp_crc dp) (h @ [record_put k (en_next_lsn e) v])"
    and "append_write (dp_crc dp) [record_put k (en_next_lsn e) v] (w_dir w, en_wal e) = Ok (d, wal)"
  shows "\<exists>e2 w2. engine_open dp pg_up cfg (crashed keep_to st (w\<lparr>w_dir := d\<rparr>)) = (Ok e2, w2) \<and>
           fst (engine_get dp k (e2, w2)) \<in> {Ok (Some v), fst (engine_get dp k (e, w))} \<and>
           (\<forall>k'. k' \<noteq> k \<longrightarrow> fst (engine_get dp k' (e2, w2)) = fst (engine_get dp k' (e, w)))"
proof -
  let ?r = "record_put k (en_next_lsn e) v"
  let ?h = "if survived (dp_crc dp) (wal_segment_bytes cfg) (crash_dir keep_to d) ?r then h @ [?r] else h"
  have "?r = record_put k (en_next_lsn e) v \<or> ?r = record_delete k (en_next_lsn e)" by simp
  from engine_env.reach_open [OF assms(1) reach.write_killed [OF assms(2) this assms(3,4), of keep_to st]] obtain e2 w2 where
    o: "engine_open dp pg_up cfg (crashed keep_to st (w\<lparr>w_dir := d\<rparr>)) = (Ok e2, w2)" "reach dp cfg lake lake_good ?h (Some e2) w2" by blast
  have "value_of (apply_log ?h k) \<in> {Some v, value_of (apply_log h k)}" by (simp add: record_put_def value_of_def)
  moreover have "apply_log ?h k' = apply_log h k'" if "k' \<noteq> k" for k' using that by (simp add: record_put_def)
  ultimately have "fst (engine_get dp k (e2, w2)) \<in> {Ok (Some v), fst (engine_get dp k (e, w))}"
    "\<forall>k'. k' \<noteq> k \<longrightarrow> fst (engine_get dp k' (e2, w2)) = fst (engine_get dp k' (e, w))"
    unfolding engine_env.reach_get [OF assms(1) o(2)] engine_env.reach_get [OF assms(1,2)] by auto
  with o(1) show ?thesis by blast
qed

theorem killed_write_is_atomic_witness:
  "\<exists>e w d wal e2 w2. reach mem_deps mem_cfg mem_lake mem_good mem_hist (Some e) w \<and>
     append_write (dp_crc mem_deps) [record_put [1] (en_next_lsn e) [5]] (w_dir w, en_wal e) = Ok (d, wal) \<and>
     engine_open mem_deps pg_up mem_cfg (crashed (\<lambda>_. 40) [] (w\<lparr>w_dir := d\<rparr>)) = (Ok e2, w2) \<and>
     fst (engine_get mem_deps [1] (e2, w2)) \<in> {Ok (Some [5]), fst (engine_get mem_deps [1] (e, w))}"
proof -
  from mem_running obtain e w where r: "reach mem_deps mem_cfg mem_lake mem_good mem_hist (Some e) w" "en_next_lsn e = 2" by blast
  have h: "hist_ok (dp_crc mem_deps) (mem_hist @ [record_put [1] (en_next_lsn e) [5]])" using mem_second_put r(2) by simp
  have up: "up_ok mem_deps (\<lambda>_. mem_size) mem_cfg mem_lake mem_good mem_hist (e, w)" using mem.reach_ok [OF r(1)] by simp
  note u = engine_env.up_ok_dest [OF mem.engine_env_axioms up]
  from append_state(2) [OF u(3,1) h _ u(11)] u(9) obtain ps where
    "wal_inv (dp_crc mem_deps) (w_dir w) (en_wal e) ps" "batch_ok (dp_crc mem_deps) (en_wal e) ps [record_put [1] (en_next_lsn e) [5]]"
    by auto
  from append_write_ok [OF this] obtain d wal where
    a: "append_write (dp_crc mem_deps) [record_put [1] (en_next_lsn e) [5]] (w_dir w, en_wal e) = Ok (d, wal)" by blast
  from killed_write_is_atomic [OF mem.engine_env_axioms r(1) h a, of "\<lambda>_. 40" "[]"] r(1) a show ?thesis by blast
qed

text \<open>
  C11. What a flush achieves. A flush that returns has published everything: it reports the highest
  sequence number, or that there was nothing above the watermark; the watermark of the catalog is that
  number; no memtable knows any key any more; the index has exactly one more data file, or the same ones
  when nothing was above the watermark; and a second flush finds nothing to do.
\<close>

theorem flush_publishes:
  assumes "engine_env dp size_of cfg lake lake_good" and "reach dp cfg lake lake_good h (Some e) w"
    and "engine_flush dp io (e, w) = (Ok y, (e', w'))"
  shows "y = (if above (engine_watermark e) h = [] then Empty else Committed (lsn_max h) 1) \<and>
         file_count e' = file_count e + (if above (engine_watermark e) h = [] then 0 else 1) \<and>
         engine_watermark e' = lsn_max h \<and> (\<forall>k. set_get (dp_sm dp) (en_memtables e') k = Missing) \<and>
         (\<forall>k. fst (engine_get dp k (e', w')) = fst (engine_get dp k (e, w))) \<and>
         (\<forall>io'. engine_flush dp io' (e', w') = (Ok Empty, (e', w')))"
  using engine_env.flush_publishes_all [OF assms] engine_env.reach_get [OF assms(1)]
    reach.flush [OF assms(2,3)] assms(2) by metis

text \<open>
  C12. Progress. When Postgres answers, the staging file can be written and DuckDB exits with zero on a
  script that names a staged file, a flush of a reachable engine returns successfully.
\<close>

theorem flush_succeeds:
  assumes "engine_env dp size_of cfg lake lake_good" and "reach dp cfg lake lake_good h (Some e) w"
    and "lake_up dp cfg"
  shows "\<exists>y s. engine_flush dp pg_up (e, w) = (Ok y, s)"
  using assms by (rule engine_env.flush_live)

theorem flush_succeeds_witness:
  "\<exists>e w y s. reach mem_deps mem_cfg mem_lake mem_good mem_hist (Some e) w \<and> engine_flush mem_deps pg_up (e, w) = (Ok y, s)"
proof -
  from mem_reach obtain e w where r: "reach mem_deps mem_cfg mem_lake mem_good mem_hist (Some e) w" by blast
  from flush_succeeds [OF mem.engine_env_axioms r mem_up] r show ?thesis by blast
qed

theorem flush_publishes_witness:
  "\<exists>e w y e' w'. reach mem_deps mem_cfg mem_lake mem_good mem_hist (Some e) w \<and>
     engine_flush mem_deps pg_up (e, w) = (Ok y, (e', w')) \<and> engine_watermark e' = 1 \<and>
     (\<forall>k. set_get (dp_sm mem_deps) (en_memtables e') k = Missing)"
proof -
  from mem_reach obtain e w where r: "reach mem_deps mem_cfg mem_lake mem_good mem_hist (Some e) w" by blast
  from mem.flush_live [OF r mem_up] obtain y e' w' where f: "engine_flush mem_deps pg_up (e, w) = (Ok y, (e', w'))"
    by (metis prod.collapse)
  have "lsn_max mem_hist = 1" by (simp add: mem_hist_def record_put_def)
  with flush_publishes [OF mem.engine_env_axioms r f] have "engine_watermark e' = 1" "\<forall>k. set_get (dp_sm mem_deps) (en_memtables e') k = Missing"
    by simp_all
  with r f show ?thesis by blast
qed

end
